(* ===== verification/Prelude.thy ===== *)
theory Prelude
  imports Main "HOL-Library.Word"
begin

text \<open>
  Shared material of the development: the machine types of the Go source, the faults a
  function can end in, and the generic lemmas on words and lists that the component
  theories rest on.

  Go's \<open>uint64\<close> is \<open>64 word\<close> and \<open>uint8\<close> is \<open>8 word\<close>: \<open>+\<close> and \<open>-\<close> wrap around.
  A shift \<open>x << s\<close> of Go yields zero when \<open>s\<close> is at least the width, which is what
  \<^const>\<open>push_bit\<close> and \<^const>\<open>drop_bit\<close> do on words.
\<close>

unbundle bit_operations_syntax

section \<open>Machine types and faults\<close>

type_synonym u64 = "64 word"
type_synonym u32 = "32 word"
type_synonym u8 = "8 word"
type_synonym byte = "8 word"

text \<open>
  How a call can end other than by returning a value: an \<open>error\<close> value of the source
  (one constructor per \<open>fmt.Errorf\<close>), a run-time panic (an index out of range, a nil
  dereference), or a loop that never ends.
\<close>

datatype fault =
    DropError u8 u8
  | RiseError u8 u8
  | NextPositionError u64 u64
  | OffsetError u64 u64
  | RootPositionError u64 u64 u8
  | TargetsMismatch nat nat
  | RootsMismatch nat nat
  | MissingPositions "u64 list"
  | MissingProofs nat nat
  | NoRoots nat
  | StumpInvalidProof fault
  | ModifiedRootsMismatch nat nat
  | RootNotFound u64 u64
  | NotCached "256 word list"
  | ProofNotCached u64
  | EndOfInput
  | MissingCachedLeaf u64
  | WrongCachedLeaf u64 "256 word" "256 word"
  | WrongAunt "256 word" "256 word"
  | NoSibling "256 word"
  | PositionMissing u64 u64
  | RootIndexError u64 u8 nat
  | HashNotFound "256 word"
  | UnreadPosition u64
  | UndoMismatch nat nat
  | UndoError "256 word" u64 fault
  | RestoreMismatch u64 nat
  | Panic
  | Diverge

type_synonym 'a result = "fault + 'a"

definition bindR :: "'a result \<Rightarrow> ('a \<Rightarrow> 'b result) \<Rightarrow> 'b result" where
  "bindR m f = (case m of Inl e \<Rightarrow> Inl e | Inr x \<Rightarrow> f x)"

text \<open>The value of a \<open>partial_function\<close>: no value is a loop that never ends.\<close>

definition returns :: "'a option \<Rightarrow> 'a result" where
  "returns v = (case v of None \<Rightarrow> Inl Diverge | Some x \<Rightarrow> Inr x)"

text \<open>Reading a slice at an index, which panics out of range.\<close>

definition nthR :: "'a list \<Rightarrow> nat \<Rightarrow> 'a result" where
  "nthR xs i = (if i < length xs then Inr (xs ! i) else Inl Panic)"

lemma bindR_simps [simp]: "bindR (Inr x) f = f x" "bindR (Inl e) f = Inl e"
  by (simp_all add: bindR_def)

lemma returns_simps [simp]: "returns (Some x) = Inr x" "returns None = Inl Diverge"
  by (simp_all add: returns_def)

lemma nthR_simps [simp]: "i < length xs \<Longrightarrow> nthR xs i = Inr (xs ! i)" "length xs \<le> i \<Longrightarrow> nthR xs i = Inl Panic"
  by (simp_all add: nthR_def)

lemma bindR_Inr_iff: "bindR m f = Inr y \<longleftrightarrow> (\<exists>x. m = Inr x \<and> f x = Inr y)"
  by (cases m) auto

named_theorems word_nat "operations on words read through unat"

lemma bindR_cong [fundef_cong]:
  "m = m' \<Longrightarrow> (\<And>x. m' = Inr x \<Longrightarrow> f x = g x) \<Longrightarrow> bindR m f = bindR m' g"
  by (cases m') auto

section \<open>Words\<close>

lemma bit_unat_ltD:
  fixes x :: "'a::len word"
  assumes "unat x < 2 ^ k" and "k \<le> n"
  shows "\<not> bit x n"
proof -
  have "take_bit k (unat x) = unat x"
    using assms(1) by (simp add: take_bit_nat_eq_self)
  then have "take_bit k x = x"
    by (metis unsigned_take_bit_eq unsigned_word_eqI)
  then show ?thesis
    using assms(2) by (metis bit_take_bit_iff linorder_not_less)
qed

lemma unat_exp [word_nat]: "k < LENGTH('a) \<Longrightarrow> unat (2 ^ k :: 'a::len word) = 2 ^ k"
  by (metis mod_less of_nat_numeral of_nat_power one_less_numeral_iff power_strict_increasing_iff
      semiring_norm(76) unat_of_nat)

lemma or_disjoint_add:
  fixes x y :: "'a::len word"
  assumes "unat x < 2 ^ k" and "take_bit k y = 0"
  shows "x OR y = x + y"
proof -
  have "\<not> (bit x n \<and> bit y n)" for n
    using bit_unat_ltD [OF assms(1), of n] assms(2)
    by (metis bit_0_eq bit_take_bit_iff bot_apply bot_bool_def linorder_not_less)
  then have "x AND y = 0"
    by (intro bit_eqI) (simp only: bit_and_iff, simp)
  then show ?thesis by (simp add: disjunctive_add_eq_or)
qed

lemma unat_or_exp:
  fixes x :: "'a::len word"
  assumes "unat x < 2 ^ k" and "k < LENGTH('a)"
  shows "unat (x OR 2 ^ k) = unat x + 2 ^ k"
proof -
  have "take_bit k (2 ^ k :: 'a word) = 0"
    by (simp add: take_bit_eq_0_iff exp_dvd_iff_exp_udvd)
  with assms(1) have eq: "x OR 2 ^ k = x + 2 ^ k"
    by (rule or_disjoint_add)
  have "unat x + 2 ^ k < 2 ^ Suc k" using assms(1) by simp
  also have "(2::nat) ^ Suc k \<le> 2 ^ LENGTH('a)"
    using assms(2) by (intro power_increasing) auto
  finally have "unat x + unat (2 ^ k :: 'a word) < 2 ^ LENGTH('a)"
    using assms(2) by (simp add: unat_exp)
  then show ?thesis
    using assms(2) by (simp add: eq unat_add_lem [THEN iffD1] unat_exp)
qed

lemma push_2_minus_1 [simp]: "push_bit k 2 - 1 = (mask (Suc k) :: 'a::len word)"
  by (simp add: mask_eq_exp_minus_1 push_bit_eq_mult)

lemma push_1_minus_1 [simp]: "push_bit k 1 - 1 = (mask k :: 'a::len word)"
  by (simp add: mask_eq_exp_minus_1 push_bit_eq_mult)

lemma unat_and_mask [word_nat]: "unat (x AND mask k) = unat (x :: 'a::len word) mod 2 ^ k"
  by (metis take_bit_eq_mask take_bit_eq_mod unsigned_take_bit_eq)

lemma unat_push [word_nat]:
  "unat (push_bit k (x :: 'a::len word)) = (unat x * 2 ^ k) mod 2 ^ LENGTH('a)"
  by (metis push_bit_eq_mult take_bit_eq_mod unsigned_push_bit_eq)

lemma unat_drop [word_nat]: "unat (drop_bit k (x :: 'a::len word)) = unat x div 2 ^ k"
  by (metis drop_bit_eq_div unsigned_drop_bit_eq take_bit_nat_eq_self_iff unsigned_less)

lemma unat_of_nat_lt [word_nat]: "n < 2 ^ LENGTH('a) \<Longrightarrow> unat (of_nat n :: 'a::len word) = n"
  by (simp add: unat_of_nat)

lemma and_exp_iff_bit: "(x AND 2 ^ k \<noteq> 0) = bit (x :: 'a::len word) k"
  by (metis and_exp_eq_0_iff_not_bit)

lemma unat_word_eqI: "unat x = unat y \<Longrightarrow> x = (y :: 'a::len word)"
  by (rule unsigned_word_eqI)

lemma drop_bit_unat_less: "x \<noteq> 0 \<Longrightarrow> unat (drop_bit (Suc 0) x) < unat (x :: 'a::len word)"
  by (simp add: unat_drop unat_gt_0)

end
