(* ===== verification/Positions.thy ===== *)
theory Positions
  imports Prelude
begin

text \<open>
  The position arithmetic of \<open>utils.go\<close>. A forest with \<open>forestRows\<close> rows numbers its
  nodes row by row from the leaves up; a position is a \<open>uint64\<close>, a row a \<open>uint8\<close>. This
  theory translates the functions of \<open>utils.go\<close> one by one; \<open>PositionAlgebra\<close> reads a
  position as a pair of a row and an offset in that row (\<open>posn\<close>) and shows what each
  function does to that pair.
\<close>

section \<open>The functions of utils.go\<close>

definition leftChild :: "u64 \<Rightarrow> u8 \<Rightarrow> u64" where
  "leftChild position forestRows =
     (let mask = push_bit (unat forestRows) 2 - 1
      in push_bit 1 position AND mask)"

definition rightChild :: "u64 \<Rightarrow> u8 \<Rightarrow> u64" where
  "rightChild position forestRows =
     (let mask = push_bit (unat forestRows) 2 - 1
      in (push_bit 1 position AND mask) OR 1)"

definition childMany :: "u64 \<Rightarrow> u8 \<Rightarrow> u8 \<Rightarrow> u64 result" where
  "childMany position dropRows forestRows =
     (if dropRows = 0 then Inr position
      else if dropRows > forestRows then Inl (DropError dropRows forestRows)
      else (let mask = push_bit (unat forestRows) 2 - 1
            in Inr (push_bit (unat dropRows) position AND mask)))"

definition sibling :: "u64 \<Rightarrow> u64" where
  "sibling pos = pos XOR 1"

definition leftSib :: "u64 \<Rightarrow> u64" where
  "leftSib pos = pos AND NOT 1"

definition rightSib :: "u64 \<Rightarrow> u64" where
  "rightSib pos = pos OR 1"

definition parent :: "u64 \<Rightarrow> u8 \<Rightarrow> u64" where
  "parent position forestRows = drop_bit 1 position OR push_bit (unat forestRows) 1"

definition parentMany :: "u64 \<Rightarrow> u8 \<Rightarrow> u8 \<Rightarrow> u64 result" where
  "parentMany position rise forestRows =
     (if rise = 0 then Inr position
      else if rise > forestRows then Inl (RiseError rise forestRows)
      else (let mask = push_bit (unat forestRows) 2 - 1
            in Inr ((drop_bit (unat rise) position
                     OR push_bit (unat (forestRows - (rise - 1))) mask) AND mask)))"

definition isLeftNiece :: "u64 \<Rightarrow> bool" where
  "isLeftNiece position \<longleftrightarrow> position AND 1 = 0"

definition rootPosition :: "u64 \<Rightarrow> u8 \<Rightarrow> u8 \<Rightarrow> u64" where
  "rootPosition leaves h forestRows =
     (let mask = push_bit (unat forestRows) 2 - 1;
          before0 = leaves AND push_bit (unat (h + 1)) mask;
          shifted = drop_bit (unat h) before0 OR push_bit (unat (forestRows + 1 - h)) mask
      in shifted AND mask)"

definition rootExistsOnRow :: "u64 \<Rightarrow> u8 \<Rightarrow> bool" where
  "rootExistsOnRow numLeaves h \<longleftrightarrow> drop_bit (unat h) numLeaves AND 1 = 1"

definition RootPositions :: "u64 \<Rightarrow> u8 \<Rightarrow> u64 list" where
  "RootPositions numLeaves totalRows =
     map (\<lambda>h. rootPosition numLeaves (of_nat h) totalRows)
       (filter (\<lambda>h. rootExistsOnRow numLeaves (of_nat h)) (rev [0..<Suc (unat totalRows)]))"

text \<open>\<open>bits.Len64\<close> and \<open>bits.OnesCount64\<close> of Go's library.\<close>

function Len64 :: "u64 \<Rightarrow> nat" where
  "Len64 x = (if x = 0 then 0 else Suc (Len64 (drop_bit 1 x)))"
  by pat_completeness auto
termination
  by (relation "measure unat") (auto intro: drop_bit_unat_less)

function OnesCount64 :: "u64 \<Rightarrow> nat" where
  "OnesCount64 x = (if x = 0 then 0 else unat (x AND 1) + OnesCount64 (drop_bit 1 x))"
  by pat_completeness auto
termination
  by (relation "measure unat") (auto intro: drop_bit_unat_less)

declare Len64.simps [simp del] OnesCount64.simps [simp del]

definition treeRows :: "u64 \<Rightarrow> u8" where
  "treeRows n = (if n = 0 then 0 else of_nat (Len64 (n - 1)))"

definition numRoots :: "u64 \<Rightarrow> u8" where
  "numRoots numLeaves = of_nat (OnesCount64 numLeaves)"

definition maxLeafCount :: "u8 \<Rightarrow> u64" where
  "maxLeafCount forestRows = push_bit (unat forestRows) 1"

definition maxPosition :: "u8 \<Rightarrow> u64" where
  "maxPosition forestRows = push_bit (unat forestRows) 2 - 1"

function detectRow_loop :: "u64 \<Rightarrow> u64 \<Rightarrow> u8 \<Rightarrow> u8" where
  "detectRow_loop position marker h =
     (if position AND marker \<noteq> 0 then detectRow_loop position (drop_bit 1 marker) (h + 1) else h)"
  by pat_completeness auto
termination
  by (relation "measure (\<lambda>(position, marker, h). unat marker)") (auto intro!: drop_bit_unat_less)

declare detectRow_loop.simps [simp del]

definition detectRow :: "u64 \<Rightarrow> u8 \<Rightarrow> u8" where
  "detectRow position forestRows = detectRow_loop position (push_bit (unat forestRows) 1) 0"

definition startPositionAtRow :: "u8 \<Rightarrow> u8 \<Rightarrow> u64" where
  "startPositionAtRow row forestRows =
     push_bit (unat forestRows) 2 - push_bit (unat (forestRows - row)) 2"

definition maxPossiblePosAtRow :: "u8 \<Rightarrow> u8 \<Rightarrow> u64" where
  "maxPossiblePosAtRow row totalRows =
     (let mask = push_bit (unat totalRows) 2 - 1
      in (push_bit (unat (totalRows - row)) mask AND mask) - 1)"

text \<open>
  On an error \<open>maxPositionAtRow\<close> returns zero next to the error. Callers that drop the error
  go on with that zero, so the model has both: the value \<open>maxPositionAtRow_val\<close> a caller that
  ignores the error sees, and the result with the error.
\<close>

definition maxPositionAtRow :: "u8 \<Rightarrow> u8 \<Rightarrow> u64 \<Rightarrow> u64 result" where
  "maxPositionAtRow row forestRows numLeaves =
     (case parentMany numLeaves row forestRows of
        Inl e \<Rightarrow> Inl e
      | Inr mx \<Rightarrow> Inr (if mx \<noteq> 0 then mx - 1 else mx))"

definition maxPositionAtRow_val :: "u8 \<Rightarrow> u8 \<Rightarrow> u64 \<Rightarrow> u64" where
  "maxPositionAtRow_val row forestRows numLeaves =
     (case maxPositionAtRow row forestRows numLeaves of Inl e \<Rightarrow> 0 | Inr mx \<Rightarrow> mx)"

definition translatePos :: "u64 \<Rightarrow> u8 \<Rightarrow> u8 \<Rightarrow> u64" where
  "translatePos pos fromTotalRow toTotalRow =
     (let row = detectRow pos fromTotalRow
      in if row = 0 then pos
         else (let offset = pos - startPositionAtRow row fromTotalRow
               in offset + startPositionAtRow row toTotalRow))"

definition translatePositions :: "u64 list \<Rightarrow> u8 \<Rightarrow> u8 \<Rightarrow> u64 list" where
  "translatePositions positions fromTotalRow toTotalRow =
     map (\<lambda>pos. translatePos pos fromTotalRow toTotalRow) positions"

definition isRootPositionOnRow :: "u64 \<Rightarrow> u64 \<Rightarrow> u8 \<Rightarrow> bool" where
  "isRootPositionOnRow position numLeaves row =
     (let rootPresent = numLeaves AND push_bit (unat row) 1 \<noteq> 0;
          rootPos = rootPosition numLeaves row (treeRows numLeaves)
      in rootPresent \<and> rootPos = position)"

definition isRootPosition :: "u64 \<Rightarrow> u64 \<Rightarrow> bool" where
  "isRootPosition position numLeaves =
     (let row = detectRow position (treeRows numLeaves)
      in isRootPositionOnRow position numLeaves row)"

definition isRootPositionTotalRows :: "u64 \<Rightarrow> u64 \<Rightarrow> u8 \<Rightarrow> bool" where
  "isRootPositionTotalRows position numLeaves totalRows =
     (if totalRows \<noteq> treeRows numLeaves
      then isRootPosition (translatePos position totalRows (treeRows numLeaves)) numLeaves
      else isRootPosition position numLeaves)"

definition isRootPositionOnRowTotalRows :: "u64 \<Rightarrow> u64 \<Rightarrow> u8 \<Rightarrow> u8 \<Rightarrow> bool" where
  "isRootPositionOnRowTotalRows position numLeaves row forestRows =
     (if treeRows numLeaves \<noteq> forestRows
      then isRootPositionOnRow (translatePos position forestRows (treeRows numLeaves)) numLeaves row
      else isRootPositionOnRow position numLeaves row)"

definition isAncestor :: "u64 \<Rightarrow> u64 \<Rightarrow> u8 \<Rightarrow> bool" where
  "isAncestor higherPos lowerPos forestRows =
     (if higherPos = lowerPos then False
      else (let lowerRow = detectRow lowerPos forestRows;
                higherRow = detectRow higherPos forestRows
            in if higherRow < lowerRow then False
               else (case parentMany lowerPos (higherRow - lowerRow) forestRows of
                       Inl e \<Rightarrow> False
                     | Inr ancestor \<Rightarrow> higherPos = ancestor)))"

definition removeBit :: "u64 \<Rightarrow> u64 \<Rightarrow> u64" where
  "removeBit val b =
     (let mask1 = push_bit (unat b) 2 - 1;
          upperMask = (- 1) XOR mask1;
          upper = val AND upperMask;
          mask2 = push_bit (unat b) 1 - 1;
          lowerMask = NOT ((- 1) XOR mask2);
          lower = val AND lowerMask
      in drop_bit 1 upper OR lower)"

definition addBit :: "u64 \<Rightarrow> u64 \<Rightarrow> bool \<Rightarrow> u64" where
  "addBit val place b =
     (let mask = push_bit (unat place) 1 - 1;
          upperMask = (- 1) XOR mask;
          upper = push_bit 1 (val AND upperMask);
          lowerMask = NOT ((- 1) XOR mask);
          lower = val AND lowerMask
      in if b then (upper OR lower) OR push_bit (unat place) 1 else upper OR lower)"

definition calcNextPosition :: "u64 \<Rightarrow> u64 \<Rightarrow> u8 \<Rightarrow> u64 result" where
  "calcNextPosition position delPos forestRows =
     (let delRow = detectRow delPos forestRows;
          posRow = detectRow position forestRows
      in if delRow < posRow then Inl (NextPositionError delPos position)
         else (let lowerBits = removeBit position (ucast (delRow - posRow));
                   toRow = posRow + 1;
                   higherBits = push_bit (unat (forestRows - toRow)) (push_bit (unat toRow) 1)
               in Inr (higherBits OR lowerBits)))"

definition calcPrevPosition :: "u64 \<Rightarrow> u64 \<Rightarrow> u8 \<Rightarrow> u64" where
  "calcPrevPosition position delPos forestRows =
     (let delRow = detectRow delPos forestRows;
          posRow = detectRow position forestRows;
          mask = NOT (push_bit (unat (forestRows - posRow)) (push_bit (unat posRow) 1));
          lowerBits = position AND mask;
          bitToAdd = (if delRow < posRow then (if isLeftNiece delPos then True else False)
                      else isLeftNiece delPos);
          place = ucast (delRow - (posRow - 1))
      in addBit lowerBits place bitToAdd)"

partial_function (option) getLowestRoot_loop :: "u64 \<Rightarrow> u8 \<Rightarrow> u8 \<Rightarrow> u8 option" where
  [code]: "getLowestRoot_loop numLeaves totalRows row =
     (if row \<le> totalRows then
        (if numLeaves AND push_bit (unat row) 1 \<noteq> 0 then Some row
         else getLowestRoot_loop numLeaves totalRows (row + 1))
      else Some row)"

definition getLowestRoot :: "u64 \<Rightarrow> u8 \<Rightarrow> u8 option" where
  "getLowestRoot numLeaves totalRows = getLowestRoot_loop numLeaves totalRows 0"

function detectOffset_loop ::
  "u64 \<Rightarrow> u64 \<Rightarrow> u8 \<Rightarrow> u64 \<Rightarrow> int \<Rightarrow> u8 \<Rightarrow> (u8 \<times> int \<times> u64) result" where
  "detectOffset_loop origPos numLeaves nr position tRows biggerTrees =
     (if push_bit (unat nr) position AND maxPosition (of_int tRows)
           \<ge> maxLeafCount (of_int tRows) AND numLeaves
      then if tRows < 0 then Inl (OffsetError origPos numLeaves)
           else (let treeSize = push_bit (nat tRows) 1 AND numLeaves
                 in if treeSize \<noteq> 0
                    then detectOffset_loop origPos numLeaves nr (position - treeSize) (tRows - 1) (biggerTrees + 1)
                    else detectOffset_loop origPos numLeaves nr position (tRows - 1) biggerTrees)
      else Inr (biggerTrees, tRows, position))"
  by pat_completeness auto
termination
  by (relation "measure (\<lambda>(origPos, numLeaves, nr, position, tRows, biggerTrees). nat (tRows + 1))") auto

declare detectOffset_loop.simps [simp del]

definition detectOffset :: "u64 \<Rightarrow> u64 \<Rightarrow> (u8 \<times> u8 \<times> u64) result" where
  "detectOffset position numLeaves =
     (let tRows = uint (treeRows numLeaves);
          nr = detectRow position (treeRows numLeaves)
      in case detectOffset_loop position numLeaves nr position tRows 0 of
           Inl e \<Rightarrow> Inl e
         | Inr (biggerTrees, tRows', position') \<Rightarrow>
             Inr (biggerTrees, of_int tRows' - nr, NOT (position' XOR 1)))"

partial_function (option) inForest_loop :: "u64 \<Rightarrow> u64 \<Rightarrow> u64 \<Rightarrow> u64 option" where
  [code]: "inForest_loop marker msk pos =
     (if pos AND marker \<noteq> 0 then inForest_loop marker msk ((push_bit 1 pos AND msk) OR 1)
      else Some pos)"

text \<open>The loop of \<open>inForest\<close> ends for every position the guards let through.\<close>

definition inForest :: "u64 \<Rightarrow> u64 \<Rightarrow> u8 \<Rightarrow> bool result" where
  "inForest pos numLeaves forestRows =
     (if pos < numLeaves then Inr True
      else (let marker = push_bit (unat forestRows) 1;
                mask = push_bit 1 marker - 1
            in if pos \<ge> mask then Inr False
               else (case inForest_loop marker mask pos of
                       None \<Rightarrow> Inl Diverge
                     | Some pos' \<Rightarrow> Inr (pos' < numLeaves))))"

partial_function (option) getRootPosition_loop :: "u64 \<Rightarrow> u8 \<Rightarrow> u64 \<Rightarrow> u8 \<Rightarrow> u64 option option" where
  [code]: "getRootPosition_loop numLeaves forestRows returnPos h =
     (if h \<le> forestRows then
        (if rootPosition numLeaves h forestRows = returnPos then Some (Some returnPos)
         else getRootPosition_loop numLeaves forestRows (parent returnPos forestRows) (h + 1))
      else Some None)"

definition getRootPosition :: "u64 \<Rightarrow> u64 \<Rightarrow> u8 \<Rightarrow> u64 result" where
  "getRootPosition position numLeaves forestRows =
     (case getRootPosition_loop numLeaves forestRows position (detectRow position forestRows) of
        None \<Rightarrow> Inl Diverge
      | Some (Some p) \<Rightarrow> Inr p
      | Some None \<Rightarrow>
          (if position \<noteq> 0 \<and> forestRows \<noteq> 0
           then Inl (RootPositionError position numLeaves forestRows)
           else Inr 0))"

end
