(* ===== verification/PositionAlgebra.thy ===== *)
theory PositionAlgebra
  imports Positions
begin

text \<open>
  A position of a forest read as a row and an offset in that row (\<open>posn\<close>), and what the
  navigation functions of \<open>utils.go\<close> do to that pair: children, parents, siblings, the row of a
  position, the first and last position of a row, the roots of a forest.
\<close>

unbundle bit_operations_syntax

lemmas bit_only = bit_and_iff bit_or_iff bit_xor_iff bit_not_iff bit_push_bit_iff bit_drop_bit_eq
  bit_mask_iff bit_1_iff bit_exp_iff o_apply

section \<open>Positions as rows and offsets\<close>

definition rowStart :: "nat \<Rightarrow> nat \<Rightarrow> nat" where
  "rowStart f r = 2 ^ (f + 1) - 2 ^ (f + 1 - r)"

definition posn :: "nat \<Rightarrow> nat \<Rightarrow> nat \<Rightarrow> u64" where
  "posn f r o' = of_nat (rowStart f r + o')"

definition valid_pos :: "nat \<Rightarrow> nat \<Rightarrow> nat \<Rightarrow> bool" where
  "valid_pos f r o' \<longleftrightarrow> r \<le> f \<and> o' < 2 ^ (f - r)"

lemma rowStart_0 [simp]: "rowStart f 0 = 0"
  by (simp add: rowStart_def)

lemma rowStart_Suc: "r \<le> f \<Longrightarrow> rowStart f (Suc r) = rowStart f r + 2 ^ (f - r)"
proof -
  assume "r \<le> f"
  then obtain d where "f = r + d" using le_Suc_ex by blast
  moreover have "(2::nat) * 2 ^ d \<le> 2 * 2 ^ (r + d)" by (simp add: power_add)
  ultimately show ?thesis by (simp add: rowStart_def Suc_diff_le)
qed

lemma rowStart_Suc_div: "r \<le> f \<Longrightarrow> rowStart f (Suc r) = 2 ^ f + rowStart f r div 2"
proof -
  assume "r \<le> f"
  then obtain d where "f = r + d" using le_Suc_ex by blast
  moreover have "(2::nat) ^ d \<le> 2 ^ (r + d)" by (simp add: power_add)
  moreover have "(2 * 2 ^ (r + d) - 2 * 2 ^ d) div 2 = (2::nat) ^ (r + d) - 2 ^ d"
    by (metis diff_mult_distrib2 nonzero_mult_div_cancel_left zero_neq_numeral)
  ultimately show ?thesis by (simp add: rowStart_def Suc_diff_le)
qed

lemma even_rowStart: "r \<le> f \<Longrightarrow> even (rowStart f r)"
  by (simp add: rowStart_def)

lemma rowStart_le: "r \<le> f \<Longrightarrow> rowStart f r + 2 ^ (f + 1 - r) = 2 ^ (f + 1)"
  unfolding rowStart_def by (intro le_add_diff_inverse2 power_increasing) auto

lemma rowStart_mono: "r \<le> r' \<Longrightarrow> rowStart f r \<le> rowStart f r'"
  by (simp add: rowStart_def diff_le_mono2)

lemma valid_pos_bound:
  assumes "valid_pos f r o'" shows "rowStart f r + o' + 2 ^ (f - r) < 2 ^ (f + 1)"
proof -
  have "(2::nat) ^ (f + 1 - r) = 2 * 2 ^ (f - r)"
    using assms by (simp add: valid_pos_def Suc_diff_le)
  then show ?thesis using rowStart_le[of r f] assms by (simp add: valid_pos_def)
qed

lemma valid_pos_lt:
  assumes "valid_pos f r o'" shows "rowStart f r + o' < 2 ^ (f + 1) - 1"
proof -
  have "(1::nat) \<le> 2 ^ (f - r)" by simp
  then show ?thesis using valid_pos_bound[OF assms] by linarith
qed

lemma unat_posn:
  assumes "valid_pos f r o'" "f \<le> 63" shows "unat (posn f r o') = rowStart f r + o'"
proof -
  have "rowStart f r + o' < 2 ^ (f + 1)" using valid_pos_bound[OF assms(1)] by simp
  also have "(2::nat) ^ (f + 1) \<le> 2 ^ 64" using assms(2) by (intro power_increasing) auto
  finally show ?thesis by (simp add: posn_def unat_of_nat_lt del: of_nat_add)
qed

lemma posn_0 [simp]: "posn f 0 o' = of_nat o'"
  by (simp add: posn_def)

lemma posn_inject:
  assumes "valid_pos f r o'" "valid_pos f r' p" "f \<le> 63" "posn f r o' = posn f r' p"
  shows "r = r' \<and> o' = p"
proof -
  have eq: "rowStart f r + o' = rowStart f r' + p"
    using assms by (metis unat_posn)
  have "\<not> r < r'" if "valid_pos f r o'" "rowStart f r + o' = rowStart f r' + p" for r r' o' p
  proof
    assume "r < r'"
    then have "rowStart f (Suc r) \<le> rowStart f r'" by (intro rowStart_mono) simp
    then show False using that rowStart_Suc[of r f] by (simp add: valid_pos_def)
  qed
  from this[of r o' r' p] this[of r' p r o'] assms eq have "r = r'" by force
  with eq show ?thesis by simp
qed

lemma posn_exists:
  assumes "unat p < 2 ^ (f + 1) - 1" "f \<le> 63"
  obtains r o' where "valid_pos f r o'" "p = posn f r o'"
proof -
  have "\<exists>r\<le>f. rowStart f r \<le> n \<and> n < rowStart f r + 2 ^ (f - r)" if "n < rowStart f (Suc k)" "k \<le> f" for n k
    using that
  proof (induction k)
    case 0 then show ?case by (auto simp: rowStart_Suc intro: exI[of _ 0])
  next
    case (Suc k)
    show ?case
    proof (cases "n < rowStart f (Suc k)")
      case True with Suc show ?thesis by simp
    next
      case False with Suc.prems show ?thesis by (intro exI[of _ "Suc k"]) (simp add: rowStart_Suc[of "Suc k"])
    qed
  qed
  moreover have "unat p < rowStart f (Suc f)" using assms(1) by (simp add: rowStart_def)
  ultimately obtain r where r: "r \<le> f" "rowStart f r \<le> unat p" "unat p < rowStart f r + 2 ^ (f - r)" by blast
  show thesis
  proof
    show "valid_pos f r (unat p - rowStart f r)" using r by (simp add: valid_pos_def less_diff_conv2)
    show "p = posn f r (unat p - rowStart f r)" using r by (simp add: posn_def del: of_nat_add)
  qed
qed


lemma rows_mod_64: "f \<le> 63 \<Longrightarrow> x mod 2 ^ 64 mod 2 ^ Suc f = x mod (2::nat) ^ Suc f"
  by (intro mod_mod_cancel le_imp_power_dvd) simp

lemma rows_pow_le: "f \<le> 63 \<Longrightarrow> (2::nat) ^ Suc f \<le> 2 ^ 64"
  by (intro power_increasing) auto

lemma pow_diff_Suc: "r < f \<Longrightarrow> (2::nat) ^ (f - r) = 2 * 2 ^ (f - Suc r)"
  by (metis Suc_diff_Suc power_Suc)

lemma valid_pos_parent: "valid_pos f r o' \<Longrightarrow> r < f \<Longrightarrow> valid_pos f (Suc r) (o' div 2)"
  by (simp add: valid_pos_def pow_diff_Suc less_mult_imp_div_less mult.commute)

lemma valid_pos_child:
  assumes "valid_pos f (Suc r) o'"
  shows "r < f" "valid_pos f r (2 * o')" "valid_pos f r (2 * o' + 1)"
  using assms by (auto simp: valid_pos_def pow_diff_Suc)

lemma rowStart_add_div2: "r \<le> f \<Longrightarrow> (rowStart f r + o') div 2 = rowStart f r div 2 + o' div 2"
  by (simp add: even_rowStart div_plus_div_distrib_dvd_left)

lemma parent_posn:
  assumes "valid_pos (unat F) r o'" "r < unat F" "unat F \<le> 63"
  shows "parent (posn (unat F) r o') F = posn (unat F) (Suc r) (o' div 2)"
proof -
  let ?f = "unat F"
  let ?x = "drop_bit 1 (posn ?f r o')"
  have x: "unat ?x = (rowStart ?f r + o') div 2"
    using assms by (simp add: unat_drop unat_posn del: drop_bit_Suc)
  have "rowStart ?f r + o' < 2 * 2 ^ ?f" using valid_pos_lt[OF assms(1)] by simp
  then have lt: "unat ?x < 2 ^ ?f" unfolding x by (simp add: less_mult_imp_div_less mult.commute)
  have "unat (posn ?f (Suc r) (o' div 2)) = rowStart ?f (Suc r) + o' div 2"
    using assms by (intro unat_posn valid_pos_parent)
  also have "\<dots> = 2 ^ ?f + (rowStart ?f r + o') div 2"
    using assms by (simp add: rowStart_Suc_div rowStart_add_div2)
  also have "\<dots> = unat (?x OR 2 ^ ?f)"
    using assms lt x by (subst unat_or_exp) auto
  finally show ?thesis
    unfolding parent_def by (intro unat_word_eqI) (simp add: push_bit_eq_mult)
qed

lemma leftChild_posn:
  assumes "valid_pos (unat F) (Suc r) o'" "unat F \<le> 63"
  shows "leftChild (posn (unat F) (Suc r) o') F = posn (unat F) r (2 * o')"
proof -
  let ?f = "unat F"
  note v = valid_pos_child[OF assms(1)]
  have "unat (leftChild (posn ?f (Suc r) o') F) = (rowStart ?f (Suc r) + o') * 2 mod 2 ^ 64 mod 2 ^ Suc ?f"
    unfolding leftChild_def Let_def push_2_minus_1 unat_and_mask unat_push unat_posn[OF assms] by simp
  also have "\<dots> = (rowStart ?f (Suc r) + o') * 2 mod 2 ^ Suc ?f"
    using assms(2) by (rule rows_mod_64)
  also have "\<dots> = (rowStart ?f r + 2 * o' + 2 ^ Suc ?f) mod 2 ^ Suc ?f"
    using v(1) even_rowStart[of r ?f] by (simp add: rowStart_Suc_div algebra_simps)
  also have "\<dots> = rowStart ?f r + 2 * o'"
    using valid_pos_lt[OF v(2)] by simp
  finally show ?thesis using v assms by (intro unat_word_eqI) (simp add: unat_posn)
qed

lemma unat_or_1: "unat (x OR 1) = unat (x::u64) + of_bool (even (unat x))"
  by (metis or_one_eq unsigned_1 unsigned_or_eq)

lemma unat_xor_1: "unat (x XOR 1) = (if even (unat (x::u64)) then unat x + 1 else unat x - 1)"
proof -
  have "unat (x XOR 1) = unat x XOR 1" by (simp only: unsigned_xor_eq unsigned_1)
  also have "\<dots> = (if even (unat x) then unat x + 1 else unat x - 1)" by (simp only: xor_one_eq) simp
  finally show ?thesis .
qed

lemma unat_and_not_1: "unat (x AND NOT 1) = unat (x::u64) - unat x mod 2"
proof -
  have "x AND NOT 1 = push_bit 1 (drop_bit 1 x)"
    by (rule bit_eqI) (simp only: bit_and_iff bit_not_iff bit_push_bit_iff bit_drop_bit_eq bit_1_iff o_apply,
      auto dest: bit_imp_le_length)
  then have "unat (x AND NOT 1) = (unat x div 2 * 2) mod 2 ^ 64"
    by (simp only: unat_push unat_drop) simp
  moreover have "unat x div 2 * 2 < 2 ^ 64"
    using unsigned_less[of x, where ?'a = nat] div_times_less_eq_dividend[of "unat x" 2] by simp
  ultimately show ?thesis by (simp add: minus_mod_eq_div_mult[symmetric])
qed

lemma rightChild_leftChild: "rightChild p F = rightSib (leftChild p F)"
  by (simp add: rightChild_def leftChild_def rightSib_def)

lemma valid_pos_sib:
  assumes "valid_pos f r o'" "r < f"
  shows "valid_pos f r (if even o' then o' + 1 else o' - 1)" "valid_pos f r (o' - o' mod 2)"
    "valid_pos f r (o' + of_bool (even o'))"
proof -
  have "even ((2::nat) ^ (f - r))" using assms by simp
  then have "even o' \<Longrightarrow> o' < 2 ^ (f - r) \<Longrightarrow> Suc o' < 2 ^ (f - r)" by (metis Suc_lessI even_Suc)
  then show "valid_pos f r (if even o' then o' + 1 else o' - 1)" "valid_pos f r (o' - o' mod 2)"
    "valid_pos f r (o' + of_bool (even o'))"
    using assms by (auto simp: valid_pos_def)
qed

lemma rightSib_posn:
  assumes "valid_pos f r o'" "r < f" "f \<le> 63"
  shows "rightSib (posn f r o') = posn f r (o' + of_bool (even o'))"
  using assms valid_pos_sib[of f r o'] unfolding rightSib_def
  by (intro unat_word_eqI) (simp only: unat_posn unat_or_1, simp add: even_rowStart)

lemma leftSib_posn:
  assumes "valid_pos f r o'" "r < f" "f \<le> 63"
  shows "leftSib (posn f r o') = posn f r (o' - o' mod 2)"
  using assms valid_pos_sib[of f r o'] unfolding leftSib_def
  by (intro unat_word_eqI) (simp only: unat_posn unat_and_not_1, use even_rowStart[of r f] in \<open>auto elim!: evenE\<close>)

lemma sibling_posn:
  assumes "valid_pos f r o'" "r < f" "f \<le> 63"
  shows "sibling (posn f r o') = posn f r (if even o' then o' + 1 else o' - 1)"
  using assms valid_pos_sib[of f r o'] unfolding sibling_def
  by (intro unat_word_eqI) (simp only: unat_posn unat_xor_1, auto simp add: even_rowStart elim: oddE)

lemma rightChild_posn:
  assumes "valid_pos (unat F) (Suc r) o'" "unat F \<le> 63"
  shows "rightChild (posn (unat F) (Suc r) o') F = posn (unat F) r (2 * o' + 1)"
  using assms valid_pos_child[OF assms(1)]
  by (simp add: rightChild_leftChild leftChild_posn rightSib_posn)

lemma rowStart_eq_mask:
  assumes "r \<le> f" shows "rowStart f r = 2 ^ (f + 1 - r) * mask r"
proof -
  obtain d where "f = r + d" using assms le_Suc_ex by blast
  then show ?thesis by (simp add: rowStart_def mask_eq_exp_minus_1 diff_mult_distrib diff_mult_distrib2 power_add mult.commute mult.left_commute)
qed

lemma bit_posn:
  assumes "valid_pos f r o'" "f \<le> 63"
  shows "f - r < k \<Longrightarrow> k \<le> f \<Longrightarrow> bit (posn f r o') k" "\<not> bit (posn f r o') (f - r)"
proof -
  have r: "r \<le> f" and o': "o' < 2 ^ (f - r)" using assms(1) by (auto simp: valid_pos_def)
  have b: "bit (posn f r o') k = bit (rowStart f r + o') k" for k
    using unat_posn[OF assms] by (metis bit_unsigned_iff possible_bit_nat)
  have eq: "rowStart f r = 2 ^ (f - r) * (2 * mask r)"
    using r by (simp add: rowStart_eq_mask Suc_diff_le)
  show "\<not> bit (posn f r o') (f - r)"
    unfolding b eq using o' by (simp add: bit_iff_odd)
  show "bit (posn f r o') k" if "f - r < k" "k \<le> f"
  proof -
    have "drop_bit (Suc (f - r)) (rowStart f r + o') = mask r"
      unfolding drop_bit_eq_div eq using o' by (simp add: mult.commute[of 2] div_mult2_eq)
    then have "bit (drop_bit (Suc (f - r)) (rowStart f r + o')) (k - Suc (f - r))"
      using that r by (simp add: bit_mask_iff)
    then show ?thesis unfolding b using that by (simp add: bit_drop_bit_eq)
  qed
qed

lemma drop_bit_exp:
  assumes "j = Suc i" "j < 64" shows "drop_bit 1 (2 ^ j) = (2 ^ i :: u64)"
  using assms by (intro unat_word_eqI) (simp only: unat_drop, simp add: unat_exp del: power_Suc, simp)

lemma detectRow_loop_posn:
  assumes "valid_pos f r o'" "f \<le> 63" "k \<le> r"
  shows "detectRow_loop (posn f r o') (2 ^ (f - k)) (of_nat k) = of_nat r"
  using assms(3)
proof (induction rule: inc_induct)
  case base
  show ?case using bit_posn(2)[OF assms(1,2)]
    by (subst detectRow_loop.simps) (simp add: and_exp_eq_0_iff_not_bit)
next
  case (step k)
  have "bit (posn f r o') (f - k)"
    using assms step by (intro bit_posn(1)) (auto simp: valid_pos_def)
  moreover have "drop_bit 1 (2 ^ (f - k)) = (2 ^ (f - Suc k) :: u64)"
    using step assms by (intro drop_bit_exp) (auto simp: valid_pos_def)
  ultimately show ?case using step.IH
    by (subst detectRow_loop.simps) (simp add: and_exp_eq_0_iff_not_bit add.commute)
qed

lemma detectRow_posn:
  assumes "valid_pos (unat F) r o'" "unat F \<le> 63"
  shows "detectRow (posn (unat F) r o') F = of_nat r"
  using detectRow_loop_posn[OF assms, of 0] by (simp add: detectRow_def push_bit_eq_mult)

lemma unat_u8_of_nat [simp]: "r \<le> 255 \<Longrightarrow> unat (of_nat r :: u8) = r"
  by (simp add: unat_of_nat_lt)

lemma u8_diff: "s \<le> unat F \<Longrightarrow> unat (F - of_nat s :: u8) = unat F - s"
proof -
  assume a: "s \<le> unat F"
  then have "s < 256" using unsigned_less[of F, where ?'a = nat] by simp
  then have s: "unat (of_nat s :: u8) = s" by (simp add: unat_of_nat_lt)
  then show ?thesis using a by (simp add: unat_sub word_le_nat_alt)
qed

lemma u8_add: "unat F + k \<le> 255 \<Longrightarrow> unat (F + of_nat k :: u8) = unat F + k"
  by (simp add: unat_word_ariths unat_of_nat mod_simps)

lemma startPositionAtRow_posn:
  assumes "r \<le> unat F" 
  shows "startPositionAtRow (of_nat r) F = posn (unat F) r 0"
proof -
  have "(2::nat) ^ (unat F + 1 - r) \<le> 2 ^ (unat F + 1)" by (intro power_increasing) auto
  then show ?thesis using assms
   by (simp add: startPositionAtRow_def posn_def rowStart_def u8_diff push_bit_eq_mult of_nat_diff Suc_diff_le)
qed

lemma of_nat_eqI: "unat x = n \<Longrightarrow> (x::'a::len word) = of_nat n"
  by (metis unat_word_eqI unat_of_nat_lt unsigned_less)

lemma unat_mask: "unat (mask k :: 'a::len word) = mask (min LENGTH('a) k)"
proof -
  have "unat (take_bit k (- 1) :: 'a word) = take_bit k (mask LENGTH('a))"
    by (simp only: unsigned_take_bit_eq unsigned_minus_1_eq_mask)
  then show ?thesis by (simp add: take_bit_minus_one_eq_mask take_bit_of_mask min.commute)
qed

lemma mask_shift_and_mask:
  assumes "k \<le> Suc f" "f \<le> 63" 
  shows "unat (push_bit k (mask (Suc f) :: u64) AND mask (Suc f)) = 2 ^ Suc f - 2 ^ k"
proof -
  have "push_bit k (mask (Suc f) :: u64) AND mask (Suc f) = push_bit k (mask (Suc f - k))"
    using assms by (intro bit_eqI) (auto simp: bit_simps)
  also have "unat \<dots> = mask (Suc f - k) * 2 ^ k mod 2 ^ 64"
    using assms by (simp only: unat_push unat_mask) (simp add: min.absorb2)
  also have "\<dots> = (2 ^ Suc f - 2 ^ k) mod 2 ^ 64"
    using assms by (simp add: mask_eq_exp_minus_1 diff_mult_distrib flip: power_add)
  also have "\<dots> = 2 ^ Suc f - 2 ^ k"
    using rows_pow_le[OF assms(2)] by (intro mod_less order_less_le_trans[OF _ rows_pow_le[OF assms(2)]]) simp
  finally show ?thesis .
qed

lemma maxPossiblePosAtRow_posn:
  assumes "r \<le> unat F" "unat F \<le> 63"
  shows "maxPossiblePosAtRow (of_nat r) F = posn (unat F) r (2 ^ (unat F - r) - 1)"
proof -
  let ?f = "unat F"
  let ?x = "push_bit (?f - r) (mask (Suc ?f) :: u64) AND mask (Suc ?f)"
  have x: "unat ?x = 2 ^ Suc ?f - 2 ^ (?f - r)"
    using assms by (intro mask_shift_and_mask) auto
  have p: "rowStart ?f r + 2 ^ (?f - r) = 2 ^ Suc ?f - 2 ^ (?f - r)"
    using assms by (simp add: rowStart_def Suc_diff_le)
  have v: "valid_pos ?f r (2 ^ (?f - r) - 1)" using assms by (simp add: valid_pos_def)
  have "?x = of_nat (rowStart ?f r + (2 ^ (?f - r) - 1) + 1)"
    by (rule of_nat_eqI) (use x p one_le_power[of "2::nat" "?f - r"] in linarith)
  then have "?x - 1 = posn ?f r (2 ^ (?f - r) - 1)"
    by (simp only: posn_def of_nat_add[of _ 1] of_nat_1 add_diff_cancel_right')
  then show ?thesis using assms by (simp add: maxPossiblePosAtRow_def u8_diff)
qed

lemma rowStart_shift:
  assumes "r + k \<le> f" shows "rowStart f (r + k) * 2 ^ k = 2 ^ Suc f * mask k + rowStart f r"
proof -
  have p: "(2::nat) ^ (f + 1 - (r + k)) * 2 ^ k = 2 ^ (f + 1 - r)"
    using assms by (simp flip: power_add)
  have le: "(2::nat) ^ (f + 1 - r) \<le> 2 ^ (f + 1)" by (intro power_increasing) auto
  have "rowStart f (r + k) * 2 ^ k = 2 ^ (f + 1) * 2 ^ k - 2 ^ (f + 1 - r)"
    by (simp only: rowStart_def diff_mult_distrib p)
  also have "\<dots> = (2 ^ (f + 1) * 2 ^ k - 2 ^ (f + 1)) + (2 ^ (f + 1) - 2 ^ (f + 1 - r))"
    using le mult_le_mono2[OF one_le_power[of "2::nat" k], of "2 ^ (f + 1)"] by linarith
  finally show ?thesis by (simp add: rowStart_def mask_eq_exp_minus_1 diff_mult_distrib2)
qed

lemma childMany_posn:
  assumes "valid_pos (unat F) (r + k) o'" "unat F \<le> 63"
  shows "childMany (posn (unat F) (r + k) o') (of_nat k) F = Inr (posn (unat F) r (o' * 2 ^ k))"
proof -
  let ?f = "unat F"
  have rk: "r + k \<le> ?f" using assms by (simp add: valid_pos_def)
  have v: "valid_pos ?f r (o' * 2 ^ k)"
  proof -
    have "(2::nat) ^ (?f - r) = 2 ^ (?f - (r + k)) * 2 ^ k" using rk by (simp flip: power_add)
    then show ?thesis using assms rk by (auto simp: valid_pos_def)
  qed
  have uk: "unat (of_nat k :: u8) = k" using rk assms by simp
  have "unat (push_bit k (posn ?f (r + k) o') AND mask (Suc ?f)) = (rowStart ?f (r + k) + o') * 2 ^ k mod 2 ^ Suc ?f"
    using assms by (simp only: unat_and_mask unat_push unat_posn) (simp add: rows_mod_64[unfolded power_Suc, simplified])
  also have "(rowStart ?f (r + k) + o') * 2 ^ k = (2 ^ Suc ?f * mask k + rowStart ?f r) + o' * 2 ^ k"
    using rowStart_shift[OF rk] by (simp add: add_mult_distrib)
  finally have "push_bit k (posn ?f (r + k) o') AND mask (Suc ?f) = posn ?f r (o' * 2 ^ k)"
    using v assms valid_pos_lt[OF v] by (intro unat_word_eqI) (simp add: unat_posn add.assoc)
  then show ?thesis using rk uk
   by (auto simp: childMany_def word_less_nat_alt unat_eq_0)
qed

lemma shift_or_high:
  fixes x :: u64
  assumes "unat x < 2 ^ k" "k \<le> Suc f" "f \<le> 63"
  shows "unat ((x OR push_bit k (mask (Suc f))) AND mask (Suc f)) = unat x + (2 ^ Suc f - 2 ^ k)"
proof -
  let ?y = "push_bit k (mask (Suc f)) AND mask (Suc f) :: u64"
  have m: "x AND mask (Suc f) = x"
  proof (rule unat_word_eqI)
    have "unat x < 2 ^ Suc f" using assms(1,2) by (rule order_less_le_trans[OF _ power_increasing]) auto
    then show "unat (x AND mask (Suc f)) = unat x" by (simp only: unat_and_mask mod_less)
  qed
  have "(x OR push_bit k (mask (Suc f))) AND mask (Suc f) = x OR ?y"
    by (subst m[symmetric]) (simp add: bit.conj_disj_distrib2)
  also have "\<dots> = x + ?y"
    using assms(1) by (rule or_disjoint_add) (auto intro!: bit_eqI simp: bit_simps)
  also have "unat \<dots> = unat x + unat ?y"
  proof -
    have "unat x + unat ?y < 2 ^ Suc f" using assms(1) power_increasing[OF assms(2), of "2::nat"] 
      by (simp only: mask_shift_and_mask[OF assms(2,3)]) linarith
    then show ?thesis using rows_pow_le[OF assms(3)] by (intro unat_add_lem[THEN iffD1]) simp
  qed
  finally show ?thesis by (simp only: mask_shift_and_mask[OF assms(2,3)])
qed

lemma valid_pos_parents:
  assumes "valid_pos f r o'" "r + k \<le> f" shows "valid_pos f (r + k) (o' div 2 ^ k)"
proof -
  have "(2::nat) ^ (f - r) = 2 ^ (f - (r + k)) * 2 ^ k" using assms by (simp flip: power_add)
  then show ?thesis using assms by (auto simp: valid_pos_def less_mult_imp_div_less)
qed

lemma dvd_rowStart: "r + k \<le> f \<Longrightarrow> 2 ^ k dvd rowStart f r"
  by (simp add: rowStart_eq_mask le_imp_power_dvd)

lemma rowStart_div:
  assumes "r + k \<le> f"
  shows "rowStart f (r + k) = (2 ^ Suc f - 2 ^ (Suc f - k)) + rowStart f r div 2 ^ k"
proof -
  have p: "(2::nat) ^ Suc f = 2 ^ (Suc f - k) * 2 ^ k" using assms by (simp flip: power_add power_Suc)
  have "rowStart f (r + k) = (2 ^ Suc f * mask k + rowStart f r) div 2 ^ k"
    unfolding rowStart_shift[OF assms, symmetric] by simp
  also have "\<dots> = 2 ^ Suc f * mask k div 2 ^ k + rowStart f r div 2 ^ k"
    using assms by (intro div_plus_div_distrib_dvd_right dvd_rowStart)
  also have "2 ^ Suc f * mask k div 2 ^ k = 2 ^ (Suc f - k) * (mask k :: nat)"
    unfolding p by (simp add: ac_simps)
  also have "\<dots> = 2 ^ Suc f - 2 ^ (Suc f - k)"
    unfolding mask_eq_exp_minus_1 diff_mult_distrib2 p[symmetric] by simp
  finally show ?thesis .
qed

lemma parentMany_posn:
  assumes "valid_pos (unat F) r o'" "r + k \<le> unat F" "unat F \<le> 63"
  shows "parentMany (posn (unat F) r o') (of_nat k) F = Inr (posn (unat F) (r + k) (o' div 2 ^ k))"
proof (cases "k = 0")
  case True then show ?thesis by (simp add: parentMany_def)
next
  case False
  let ?f = "unat F"
  let ?x = "drop_bit k (posn ?f r o')"
  have uk: "unat (of_nat k :: u8) = k" using assms by simp
  have sh: "unat (F - (of_nat k - 1)) = Suc ?f - k"
    using u8_diff[of "k - 1" F] False assms by (simp add: of_nat_diff)
  have p: "(2::nat) ^ Suc ?f = 2 ^ (Suc ?f - k) * 2 ^ k" using assms by (simp flip: power_add power_Suc)
  have x: "unat ?x = (rowStart ?f r + o') div 2 ^ k"
    using assms by (simp only: unat_drop unat_posn)
  have lt: "unat ?x < 2 ^ (Suc ?f - k)"
    using valid_pos_lt[OF assms(1)] p by (simp only: x, intro less_mult_imp_div_less) simp
  have eq: "(rowStart ?f r + o') div 2 ^ k + (2 ^ Suc ?f - 2 ^ (Suc ?f - k)) = rowStart ?f (r + k) + o' div 2 ^ k"
    using rowStart_div[OF assms(2)] assms(2)
    by (simp add: div_plus_div_distrib_dvd_left dvd_rowStart)
  have "(?x OR push_bit (Suc ?f - k) (mask (Suc ?f))) AND mask (Suc ?f) = posn ?f (r + k) (o' div 2 ^ k)"
    using shift_or_high[OF lt diff_le_self assms(3)] valid_pos_parents[OF assms(1,2)] assms(3)
    by (intro unat_word_eqI) (simp only: x unat_posn eq)
  moreover have "of_nat k \<noteq> (0::u8)" using uk False by (metis unsigned_0)
  ultimately show ?thesis using assms uk sh
    by (simp add: parentMany_def word_less_nat_alt)
qed

text \<open>
  The leaf count \<open>n\<close> is at most the number of leaf positions. The greatest position of a row
  is the last one left of the boundary \<open>n div 2 ^ r\<close>, whether or not the row has a node.
\<close>

lemma rowStart_pos: "0 < r \<Longrightarrow> r \<le> f \<Longrightarrow> 0 < rowStart f r"
  by (simp add: rowStart_eq_mask)

lemma unat_maxPositionAtRow_val:
  assumes "r \<le> unat F" "unat F \<le> 63" "unat n \<le> 2 ^ unat F"
  shows "unat (maxPositionAtRow_val (of_nat r) F n) = rowStart (unat F) r + unat n div 2 ^ r - 1"
proof (cases "r = 0")
  case True
  then show ?thesis
    by (auto simp: maxPositionAtRow_val_def maxPositionAtRow_def parentMany_def unat_minus_one)
next
  case False
  let ?f = "unat F"
  let ?x = "drop_bit r n"
  have ur: "unat (of_nat r :: u8) = r" using assms by simp
  have sh: "unat (F - (of_nat r - 1)) = Suc ?f - r"
    using u8_diff[of "r - 1" F] False assms by (simp add: of_nat_diff)
  have "unat n < 2 ^ (Suc ?f - r) * 2 ^ r" using assms by (simp flip: power_add, intro le_less_trans[OF assms(3)]) simp
  then have lt: "unat ?x < 2 ^ (Suc ?f - r)" by (simp only: unat_drop less_mult_imp_div_less)
  have "unat ((?x OR push_bit (Suc ?f - r) (mask (Suc ?f))) AND mask (Suc ?f)) = unat n div 2 ^ r + rowStart ?f r"
    using shift_or_high[OF lt diff_le_self assms(2)] by (simp only: unat_drop rowStart_def Suc_eq_plus1)
  moreover have "parentMany n (of_nat r) F = Inr ((?x OR push_bit (Suc ?f - r) (mask (Suc ?f))) AND mask (Suc ?f))"
  proof -
    have "of_nat r \<noteq> (0::u8)" using ur False by (metis unsigned_0)
    then show ?thesis using ur sh assms by (simp add: parentMany_def word_less_nat_alt Let_def)
  qed
  ultimately show ?thesis using rowStart_pos[of r ?f] False assms
    by (auto simp: maxPositionAtRow_val_def maxPositionAtRow_def unat_minus_one unat_eq_0)
qed

section \<open>Roots\<close>

lemma unat_div_le: "unat n \<le> 2 ^ f \<Longrightarrow> h \<le> f \<Longrightarrow> unat n div 2 ^ h \<le> (2::nat) ^ (f - h)"
  by (metis div_le_mono power_diff zero_neq_numeral)

lemma rootOffset_bound:
  assumes "unat (n::u64) \<le> 2 ^ f" "h \<le> f" 
  shows "2 * (unat n div 2 ^ Suc h) < 2 ^ (Suc f - h)"
proof -
  have "2 * (unat n div 2 ^ Suc h) \<le> unat n div 2 ^ h"
    by (simp add: power_Suc2 div_mult2_eq del: power_Suc)
  also have "\<dots> \<le> 2 ^ (f - h)" using assms by (rule unat_div_le)
  also have "\<dots> < 2 ^ (Suc f - h)" using assms by (simp add: Suc_diff_le)
  finally show ?thesis .
qed

lemma rootPosition_posn:
  assumes "h \<le> unat F" "unat F \<le> 63" "unat n \<le> 2 ^ unat F"
  shows "rootPosition n (of_nat h) F = posn (unat F) h (2 * (unat n div 2 ^ Suc h))"
proof -
  let ?f = "unat F"
  have uh: "unat (of_nat h :: u8) = h" using assms by simp
  have h1: "unat (of_nat h + 1 :: u8) = Suc h"
    using assms unat_u8_of_nat[of "Suc h"] by (simp add: add.commute)
  have f1: "unat (F + 1) = Suc ?f" using u8_add[of F 1] assms(2) by simp
  then have sh: "unat (F + 1 - of_nat h) = Suc ?f - h" using u8_diff[of h "F + 1"] assms by simp
  have hb: "bit n j \<Longrightarrow> j \<le> ?f" for j
  proof (rule ccontr)
    assume "bit n j" "\<not> j \<le> ?f"
    moreover have "unat n < 2 ^ Suc ?f" by (rule le_less_trans[OF assms(3)]) simp
    ultimately show False using bit_unat_ltD[of n "Suc ?f" j] by auto
  qed
  have "n AND push_bit (Suc h) (mask (Suc ?f)) = push_bit (Suc h) (drop_bit (Suc h) n)"
    by (rule bit_eqI) (simp only: bit_only, auto dest: hb)
  then have b: "drop_bit h (n AND push_bit (Suc h) (mask (Suc ?f))) = push_bit 1 (drop_bit (Suc h) n)"
    by (intro bit_eqI) (simp only: bit_only, auto simp: Suc_le_eq dest: bit_imp_le_length)
  let ?x = "push_bit 1 (drop_bit (Suc h) n)"
  have x: "unat ?x = 2 * (unat n div 2 ^ Suc h)"
  proof -
    have "unat n div 2 ^ Suc h * 2 < 2 ^ 64"
    proof -
      have "(2::nat) ^ (Suc ?f - h) \<le> 2 ^ 64" using assms by (intro power_increasing) auto
      then show ?thesis using rootOffset_bound[OF assms(3,1)] by (simp only: mult.commute)
    qed
    then show ?thesis by (simp only: unat_push unat_drop power_one_right) simp
  qed
  have "unat ((?x OR push_bit (Suc ?f - h) (mask (Suc ?f))) AND mask (Suc ?f)) 
     = unat ?x + (2 ^ Suc ?f - 2 ^ (Suc ?f - h))"
    using rootOffset_bound[OF assms(3,1)] by (intro shift_or_high[OF _ diff_le_self assms(2)]) (simp only: x)
  also have "\<dots> = rowStart ?f h + 2 * (unat n div 2 ^ Suc h)"
    by (simp only: x rowStart_def) simp
  finally show ?thesis
    unfolding rootPosition_def Let_def push_2_minus_1 h1 sh uh b posn_def by (rule of_nat_eqI)
qed

lemma rootExistsOnRow_iff: "rootExistsOnRow n h = bit n (unat h)"
  by (simp add: rootExistsOnRow_def and_one_eq bit_iff_odd_drop_bit mod_2_eq_odd)

lemma rootPresent_iff: "(n AND push_bit k 1 \<noteq> 0) = bit (n::u64) k"
  using and_exp_iff_bit[of n k] by (simp add: push_bit_eq_mult)

lemma bit_unat_iff: "bit (unat n) k = bit (n::'a::len word) k"
  by (simp add: bit_unsigned_iff)

lemma rootOffset_Suc: "bit (n::u64) h \<Longrightarrow> 2 * (unat n div 2 ^ Suc h) + 1 = unat n div 2 ^ h"
proof -
  assume "bit n h"
  then have "odd (unat n div 2 ^ h)" by (simp only: bit_iff_odd[symmetric] bit_unat_iff)
  then show ?thesis by (simp add: power_Suc2 div_mult2_eq del: power_Suc)
qed

lemma rootOffset_valid:
  assumes "bit (n::u64) h" "unat n \<le> 2 ^ f"
  shows "h \<le> f" "valid_pos f h (2 * (unat n div 2 ^ Suc h))"
proof -
  have "2 ^ h \<le> unat n"
  proof (rule ccontr)
    assume "\<not> 2 ^ h \<le> unat n" then show False using bit_unat_ltD[of n h h] assms(1) by simp
  qed
  with assms(2) show h: "h \<le> f" by (meson le_trans one_less_numeral_iff power_increasing_iff semiring_norm(76))
  show "valid_pos f h (2 * (unat n div 2 ^ Suc h))"
    using rootOffset_Suc[OF assms(1)] unat_div_le[OF assms(2) h] h by (simp add: valid_pos_def)
qed

lemma unat_lt_Len64: "unat x < 2 ^ Len64 x"
proof (induction x rule: Len64.induct)
  case (1 x)
  then show ?case 
    by (subst Len64.simps) (auto simp: unat_drop)
qed

lemma Len64_least: "unat x < 2 ^ k \<Longrightarrow> Len64 x \<le> k"
proof (induction x arbitrary: k rule: Len64.induct)
  case (1 x)
  show ?case
  proof (cases "x = 0")
    case True then show ?thesis by (simp add: Len64.simps)
  next
    case False
    with 1(2) obtain k' where k: "k = Suc k'" by (cases k) (auto simp: unat_eq_0)
    with 1(2) have "unat (drop_bit 1 x) < 2 ^ k'" by (simp add: unat_drop less_mult_imp_div_less mult.commute)
    with 1(1) False show ?thesis by (subst Len64.simps) (auto simp: k)
  qed
qed

lemma Len64_le: "Len64 x \<le> 64"
  using Len64_least[of x 64] unsigned_less[of x, where ?'a = nat] by simp

lemma unat_treeRows: "unat (treeRows n) = (if n = 0 then 0 else Len64 (n - 1))"
  using Len64_le[of "n - 1"] by (simp add: treeRows_def)

lemma le_treeRows: "unat n \<le> 2 ^ unat (treeRows n)"
proof (cases "n = 0")
  case False
  then have "unat n - 1 < 2 ^ unat (treeRows n)"
    using unat_lt_Len64[of "n - 1"] by (simp add: unat_treeRows unat_minus_one)
  then show ?thesis by simp
qed simp

lemma treeRows_least: "unat n \<le> 2 ^ k \<Longrightarrow> unat (treeRows n) \<le> k"
proof (cases "n = 0")
  case False
  assume "unat n \<le> 2 ^ k"
  moreover have "0 < unat n" using False by (simp add: unat_gt_0)
  ultimately have "unat (n - 1) < 2 ^ k" using False by (simp add: unat_minus_one)
  then show ?thesis using False by (simp add: unat_treeRows Len64_least)
qed (simp add: unat_treeRows)

lemma isRootPositionOnRow_iff:
  assumes "r \<le> unat (treeRows n)" "unat (treeRows n) \<le> 63"
  shows "isRootPositionOnRow p n (of_nat r) \<longleftrightarrow>
    bit n r \<and> p = posn (unat (treeRows n)) r (2 * (unat n div 2 ^ Suc r))"
proof -
  have "unat (of_nat r :: u8) = r" using assms by simp
  then show ?thesis
    using assms le_treeRows[of n]
    by (auto simp: isRootPositionOnRow_def Let_def and_exp_eq_0_iff_not_bit rootPosition_posn simp del: power_Suc)
qed

lemma isRootPosition_iff:
  assumes "valid_pos (unat (treeRows n)) r o'" "unat (treeRows n) \<le> 63"
  shows "isRootPosition (posn (unat (treeRows n)) r o') n \<longleftrightarrow> bit n r \<and> o' = 2 * (unat n div 2 ^ Suc r)"
proof -
  have "bit n r \<Longrightarrow> posn (unat (treeRows n)) r o' = posn (unat (treeRows n)) r (2 * (unat n div 2 ^ Suc r))
      \<longleftrightarrow> o' = 2 * (unat n div 2 ^ Suc r)"
    using posn_inject[OF assms(1) rootOffset_valid(2)[OF _ le_treeRows] assms(2)] by blast
  then show ?thesis using assms
    by (auto simp: isRootPosition_def detectRow_posn isRootPositionOnRow_iff valid_pos_def simp del: power_Suc)
qed

lemma card_bits_drop: "{k. bit (x::u64) k} = (if odd x then {0} else {}) \<union> Suc ` {k. bit (drop_bit 1 x) k}"
proof -
  have "bit x k \<longleftrightarrow> (k = 0 \<and> odd x) \<or> (\<exists>j. k = Suc j \<and> bit (drop_bit 1 x) j)" for k
    by (cases k) (auto simp: bit_0 bit_drop_bit_eq)
  then show ?thesis by auto
qed

lemma OnesCount64_card: "OnesCount64 x = card {k. bit x k}"
proof (induction x rule: OnesCount64.induct)
  case (1 x)
  show ?case
  proof (cases "x = 0")
    case True then show ?thesis by (simp add: OnesCount64.simps)
  next
    case False
    have fin: "finite {k. bit (drop_bit 1 x) k}" by (rule finite_subset[of _ "{..<64}"]) (auto dest: bit_imp_le_length)
    have "card {k. bit x k} = of_bool (odd x) + card {k. bit (drop_bit 1 x) k}"
      by (subst card_bits_drop, subst card_Un_disjoint) (auto simp: card_image fin)
    also have "\<dots> = OnesCount64 x"
      using 1 False by (subst OnesCount64.simps) (simp add: and_one_eq mod_2_eq_odd)
    finally show ?thesis by simp
  qed
qed

lemma OnesCount64_le: "OnesCount64 x \<le> 64"
proof -
  have "card {k. bit x k} \<le> card {..<64::nat}" by (intro card_mono) (auto dest: bit_imp_le_length)
  then show ?thesis by (simp add: OnesCount64_card)
qed

lemma rows_of_bits:
  assumes "unat (n::u64) \<le> 2 ^ f" shows "set (filter (bit n) [0..<Suc f]) = {k. bit n k}"
  using rootOffset_valid(1)[OF _ assms] by (auto simp: less_Suc_eq_le simp del: upt_Suc)

lemma RootPositions_eq:
  assumes "unat F \<le> 63" "unat n \<le> 2 ^ unat F"
  shows "RootPositions n F = map (\<lambda>h. posn (unat F) h (2 * (unat n div 2 ^ Suc h)))
      (rev (filter (bit n) [0..<Suc (unat F)]))"
proof -
  have "filter (\<lambda>h. rootExistsOnRow n (of_nat h)) (rev [0..<Suc (unat F)]) = rev (filter (bit n) [0..<Suc (unat F)])"
    using assms(1) by (subst rev_filter, intro filter_cong) (auto simp: rootExistsOnRow_iff)
  then show ?thesis using assms by (simp only: RootPositions_def, intro map_cong) (auto simp: rootPosition_posn simp del: power_Suc upt_Suc)
qed

lemma length_RootPositions:
  assumes "unat F \<le> 63" "unat n \<le> 2 ^ unat F"
  shows "length (RootPositions n F) = unat (numRoots n)"
proof -
  have "length (RootPositions n F) = card (set (filter (bit n) [0..<Suc (unat F)]))"
    by (subst distinct_card) (auto simp: RootPositions_eq[OF assms])
  then show ?thesis using OnesCount64_le[of n] by (simp only: rows_of_bits[OF assms(2)]) (simp add: numRoots_def OnesCount64_card)
qed

end
