(* ===== verification/PositionMoves.thy ===== *)
theory PositionMoves
  imports PositionAlgebra
begin

text \<open>
  The functions of \<open>utils.go\<close> that move a position when the forest grows or a sibling is
  deleted: \<open>translatePos\<close>, \<open>isAncestor\<close>, \<open>removeBit\<close> and \<open>addBit\<close>,
  \<open>calcNextPosition\<close> and its inverse \<open>calcPrevPosition\<close>.
\<close>

unbundle bit_operations_syntax

lemma u8_of_nat_eq_0: "r \<le> 255 \<Longrightarrow> ((of_nat r :: u8) = 0) = (r = 0)"
  using unat_u8_of_nat[of r] unat_eq_0[of "of_nat r :: u8"] by (simp only:)

lemma translatePos_posn:
  assumes "valid_pos (unat F) r o'" "unat F \<le> 63" "r \<le> unat G"
  shows "translatePos (posn (unat F) r o') F G = posn (unat G) r o'"
proof (cases "r = 0")
  case True then show ?thesis using assms detectRow_posn[OF assms(1,2)] by (simp add: translatePos_def)
next
  case False
  have r: "r \<le> unat F" using assms by (simp add: valid_pos_def)
  have "(of_nat r :: u8) \<noteq> 0" using False r assms by (simp add: u8_of_nat_eq_0)
  then show ?thesis using assms r
    by (simp add: translatePos_def Let_def detectRow_posn startPositionAtRow_posn) (simp add: posn_def)
qed

lemma detectRow_lt_iff:
  assumes "valid_pos (unat F) r o'" "valid_pos (unat F) d e" "unat F \<le> 63"
  shows "detectRow (posn (unat F) d e) F < detectRow (posn (unat F) r o') F \<longleftrightarrow> d < r"
  using assms by (simp add: detectRow_posn word_less_nat_alt valid_pos_def)

lemma isAncestor_posn:
  assumes "valid_pos (unat F) d e" "valid_pos (unat F) r o'" "unat F \<le> 63"
  shows "isAncestor (posn (unat F) d e) (posn (unat F) r o') F \<longleftrightarrow> r < d \<and> e = o' div 2 ^ (d - r)"
proof (cases "r < d")
  case True
  have ne: "posn (unat F) d e \<noteq> posn (unat F) r o'" using posn_inject[OF assms(1,2,3)] True by auto
  have df: "d \<le> unat F" using assms by (simp add: valid_pos_def)
  have p: "parentMany (posn (unat F) r o') (of_nat d - of_nat r) F = Inr (posn (unat F) d (o' div 2 ^ (d - r)))"
    using parentMany_posn[OF assms(2) _ assms(3), of "d - r"] True df by (simp add: of_nat_diff)
  have "valid_pos (unat F) d (o' div 2 ^ (d - r))" using valid_pos_parents[OF assms(2), of "d - r"] True df by simp
  then have "posn (unat F) d e = posn (unat F) d (o' div 2 ^ (d - r)) \<longleftrightarrow> e = o' div 2 ^ (d - r)"
    using posn_inject[OF assms(1)] assms(3) by blast
  then show ?thesis using True ne p detectRow_lt_iff[OF assms(2,1,3)]
    by (simp add: isAncestor_def Let_def detectRow_posn assms)
next
  case False
  show ?thesis
  proof (cases "d < r")
    case True
    then show ?thesis using detectRow_lt_iff[OF assms(2,1,3)] False by (simp add: isAncestor_def Let_def)
  next
    case False
    with \<open>\<not> r < d\<close> have "r = d" by simp
    then show ?thesis using assms by (auto simp: isAncestor_def Let_def detectRow_posn parentMany_def)
  qed
qed

definition rmBit :: "nat \<Rightarrow> nat \<Rightarrow> nat" where
  "rmBit k x = x div 2 ^ Suc k * 2 ^ k + x mod 2 ^ k"

definition insBit :: "nat \<Rightarrow> bool \<Rightarrow> nat \<Rightarrow> nat" where
  "insBit k b x = x div 2 ^ k * 2 ^ Suc k + (if b then 2 ^ k else 0) + x mod 2 ^ k"

lemma unat_or_shift:
  fixes x y :: u64
  assumes "unat x < 2 ^ k" "unat y * 2 ^ k < 2 ^ 64" "k < 64"
  shows "unat (push_bit k y OR x) = unat y * 2 ^ k + unat x"
proof -
  have u: "unat (push_bit k y) = unat y * 2 ^ k" using assms(2) by (simp only: unat_push) simp
  have "x OR push_bit k y = x + push_bit k y"
    using assms(1) by (rule or_disjoint_add) (auto intro!: bit_eqI simp: bit_simps)
  moreover have "unat x + unat (push_bit k y) < 2 ^ 64"
  proof -
    have p: "(2::nat) ^ 64 = 2 ^ (64 - k) * 2 ^ k" using assms(3) by (simp flip: power_add)
    then have "unat y < 2 ^ (64 - k)" using assms(2) by (simp only: p mult_less_cancel2)
    then have "(unat y + 1) * 2 ^ k \<le> 2 ^ 64" unfolding p by (intro mult_right_mono) auto
    then show ?thesis using assms(1) u by simp
  qed
  ultimately show ?thesis using u
    by (simp add: or.commute[of "push_bit k y"] unat_add_lem[THEN iffD1])
qed

lemma unat_take_bit: "unat (take_bit k (x::'a::len word)) = unat x mod 2 ^ k"
  by (metis take_bit_eq_mod unsigned_take_bit_eq)

lemma unat_removeBit:
  assumes "unat b < 63" shows "unat (removeBit x b) = rmBit (unat b) (unat x)"
proof -
  let ?k = "unat b"
  have "removeBit x b = push_bit ?k (drop_bit (Suc ?k) x) OR take_bit ?k x"
    by (rule bit_eqI) (simp only: removeBit_def Let_def push_2_minus_1 push_1_minus_1 bit_only bit_take_bit_iff bit_minus_1_iff, 
       auto dest: bit_imp_le_length)
  moreover have "unat (take_bit ?k x) < 2 ^ ?k" by (simp only: unat_take_bit) simp
  moreover have "unat (drop_bit (Suc ?k) x) * 2 ^ ?k < 2 ^ 64"
  proof -
    have "unat x div 2 ^ Suc ?k * 2 ^ ?k \<le> unat x div 2 ^ Suc ?k * 2 ^ Suc ?k" by simp
    also have "\<dots> \<le> unat x" by (rule div_times_less_eq_dividend)
    finally show ?thesis using unsigned_less[of x, where ?'a = nat] by (simp add: unat_drop)
  qed
  ultimately show ?thesis
    using assms by (simp only: unat_or_shift) (simp add: rmBit_def unat_drop unat_take_bit)
qed

lemma addBit_True: "addBit x b True = addBit x b False OR push_bit (unat b) 1"
  by (simp only: addBit_def Let_def if_True if_False)

lemma unat_addBit:
  assumes "unat b < 63" "unat x < 2 ^ 63" shows "unat (addBit x b c) = insBit (unat b) c (unat x)"
proof -
  let ?k = "unat b"
  have d: "unat (drop_bit ?k x) * 2 ^ Suc ?k < 2 ^ 64"
  proof -
    have "unat x div 2 ^ ?k * 2 ^ ?k \<le> unat x" by (rule div_times_less_eq_dividend)
    then have "2 * (unat x div 2 ^ ?k * 2 ^ ?k) < 2 * 2 ^ 63" using assms(2) by linarith
    also have "(2::nat) * 2 ^ 63 = 2 ^ 64" by simp
    finally have "2 * (unat x div 2 ^ ?k * 2 ^ ?k) < 2 ^ 64" .
    then show ?thesis by (simp only: unat_drop power_Suc mult.left_commute)
  qed
  have eq: "addBit x b False = push_bit (Suc ?k) (drop_bit ?k x) OR take_bit ?k x"
    by (rule bit_eqI) (simp only: addBit_def Let_def push_1_minus_1 bit_only bit_take_bit_iff bit_minus_1_iff if_False, 
       auto simp: Suc_le_eq dest: bit_imp_le_length)
  have t: "unat (take_bit ?k x) < 2 ^ ?k" by (simp only: unat_take_bit) simp
  then have "unat (take_bit ?k x) < 2 ^ Suc ?k" by simp
  from unat_or_shift[OF this d] assms(1) have F: "unat (addBit x b False) = insBit ?k False (unat x)"
    unfolding eq by (simp add: insBit_def unat_drop unat_take_bit)
  show ?thesis
  proof (cases c)
    case False with F show ?thesis by simp
  next
    case True
    have eq: "addBit x b True = push_bit (Suc ?k) (drop_bit ?k x) OR (take_bit ?k x OR 2 ^ ?k)"
      unfolding addBit_True eq by (simp only: push_bit_of_1 or.assoc)
    have "unat (take_bit ?k x OR 2 ^ ?k) = unat (take_bit ?k x) + 2 ^ ?k"
      using assms t by (intro unat_or_exp) auto
    moreover from this have "unat (take_bit ?k x OR 2 ^ ?k) < 2 ^ Suc ?k" using t by simp
    ultimately have "unat (addBit x b True) = insBit ?k True (unat x)"
      unfolding eq using unat_or_shift[OF _ d] assms(1) by (simp add: insBit_def unat_drop unat_take_bit)
    then show ?thesis using True by simp
  qed
qed

lemma rmBit_add:
  assumes "2 ^ Suc k dvd s" shows "rmBit k (s + x) = s div 2 + rmBit k x"
proof -
  obtain q where s: "s = 2 ^ Suc k * q" using assms by blast
  have "(s + x) div 2 ^ Suc k = q + x div 2 ^ Suc k" unfolding s by simp
  moreover have "(s + x) mod 2 ^ k = x mod 2 ^ k" unfolding s by (simp add: mult.left_commute[of 2] mult.assoc)
  moreover have "s div 2 = q * 2 ^ k" unfolding s by simp
  ultimately show ?thesis by (simp only: rmBit_def) (simp add: algebra_simps)
qed

lemma insBit_add:
  assumes "2 ^ k dvd s" shows "insBit k b (s + x) = 2 * s + insBit k b x"
proof -
  obtain q where s: "s = 2 ^ k * q" using assms by blast
  have "(s + x) div 2 ^ k = q + x div 2 ^ k" unfolding s by simp
  moreover have "(s + x) mod 2 ^ k = x mod 2 ^ k" unfolding s by simp
  ultimately show ?thesis by (simp only: insBit_def) (simp add: s algebra_simps)
qed

lemma rmBit_lt:
  assumes "x < 2 ^ Suc m" "k \<le> m" shows "rmBit k x < 2 ^ m"
proof -
  have p: "(2::nat) ^ Suc m = 2 ^ (m - k) * 2 ^ Suc k" using assms(2) by (simp flip: power_add)
  have "x div 2 ^ Suc k < 2 ^ (m - k)" using assms(1) unfolding p by (rule less_mult_imp_div_less)
  then have "(x div 2 ^ Suc k + 1) * 2 ^ k \<le> 2 ^ (m - k) * 2 ^ k" by (intro mult_right_mono) auto
  also have "(2::nat) ^ (m - k) * 2 ^ k = 2 ^ m" using assms(2) by (simp flip: power_add)
  finally have "x div 2 ^ Suc k * 2 ^ k + 2 ^ k \<le> 2 ^ m" by (simp add: add_mult_distrib)
  moreover have "x mod 2 ^ k < 2 ^ k" by simp
  ultimately show ?thesis unfolding rmBit_def by linarith
qed

lemma insBit_lt:
  assumes "x < 2 ^ m" "k \<le> m" shows "insBit k b x < 2 ^ Suc m"
proof -
  have p: "(2::nat) ^ m = 2 ^ (m - k) * 2 ^ k" using assms(2) by (simp flip: power_add)
  have "x div 2 ^ k < 2 ^ (m - k)" using assms(1) unfolding p by (rule less_mult_imp_div_less)
  then have "(x div 2 ^ k + 1) * 2 ^ Suc k \<le> 2 ^ (m - k) * 2 ^ Suc k" by (intro mult_right_mono) auto
  also have "(2::nat) ^ (m - k) * 2 ^ Suc k = 2 ^ Suc m" using assms(2) by (simp flip: power_add)
  finally have "x div 2 ^ k * 2 ^ Suc k + 2 ^ k + 2 ^ k \<le> 2 ^ Suc m" by (simp add: add_mult_distrib)
  moreover have "x mod 2 ^ k < 2 ^ k" by simp
  ultimately show ?thesis unfolding insBit_def by (simp only: split: if_split) linarith
qed

lemma insBit_rmBit: "odd (x div 2 ^ k) = b \<Longrightarrow> insBit k b (rmBit k x) = x"
proof -
  assume b: "odd (x div 2 ^ k) = b"
  have m: "rmBit k x mod 2 ^ k = x mod 2 ^ k" by (simp add: rmBit_def)
  have d: "rmBit k x div 2 ^ k = x div 2 ^ k div 2" by (simp add: rmBit_def div_mult2_eq power_Suc2 del: power_Suc)
  have "x div 2 ^ k = 2 * (x div 2 ^ k div 2) + of_bool b"
    using b odd_two_times_div_two_succ[of "x div 2 ^ k"] by (cases b) auto
  then have "x = (2 * (x div 2 ^ k div 2) + of_bool b) * 2 ^ k + x mod 2 ^ k" by (metis div_mult_mod_eq)
  then show ?thesis unfolding insBit_def m d by (cases b) (simp_all add: algebra_simps)
qed

lemma rmBit_insBit: "rmBit k (insBit k b x) = x"
proof -
  have "insBit k b x = (2 * (x div 2 ^ k) + of_bool b) * 2 ^ k + x mod 2 ^ k"
    by (simp add: insBit_def algebra_simps)
  then have "insBit k b x mod 2 ^ k = x mod 2 ^ k" "insBit k b x div 2 ^ k = 2 * (x div 2 ^ k) + of_bool b" by simp_all
  then have "rmBit k (insBit k b x) = x div 2 ^ k * 2 ^ k + x mod 2 ^ k"
    by (simp add: rmBit_def div_mult2_eq power_Suc2 del: power_Suc)
  then show ?thesis by (simp only: div_mult_mod_eq)
qed

lemma ucast_u8_of_nat: "k \<le> 255 \<Longrightarrow> unat (ucast (of_nat k :: u8) :: u64) = k"
  by (simp only: unsigned_ucast_eq) (simp add: take_bit_nat_eq_self)

lemma row_bit_shift: "r \<le> unat (F::u8) \<Longrightarrow> unat F \<le> 63 \<Longrightarrow>
   push_bit (unat (F - of_nat r)) (push_bit (unat (of_nat r :: u8)) 1) = (2 ^ unat F :: u64)"
  using u8_diff[of r F] by (simp add: push_bit_eq_mult flip: power_add)

lemma rmBit_valid:
  assumes "valid_pos f r o'" "r \<le> d" "d < f" shows "valid_pos f (Suc r) (rmBit (d - r) o')"
  using assms rmBit_lt[of o' "f - Suc r" "d - r"] by (simp add: valid_pos_def pow_diff_Suc diff_le_mono flip: power_Suc)

lemma insBit_valid:
  assumes "valid_pos f (Suc r) o'" "r \<le> d" "d < f" shows "valid_pos f r (insBit (d - r) b o')"
  using assms insBit_lt[of o' "f - Suc r" "d - r" b] by (simp add: valid_pos_def pow_diff_Suc diff_le_mono)

lemma calcNextPosition_posn:
  assumes "valid_pos (unat F) r o'" "valid_pos (unat F) d e" "r \<le> d" "d < unat F" "unat F \<le> 63"
  shows "calcNextPosition (posn (unat F) r o') (posn (unat F) d e) F = Inr (posn (unat F) (Suc r) (rmBit (d - r) o'))"
proof -
  let ?f = "unat F" let ?k = "d - r"
  have k: "(of_nat d - of_nat r :: u8) = of_nat ?k" using assms by (simp add: of_nat_diff)
  have kk: "unat (ucast (of_nat d - of_nat r :: u8) :: u64) = ?k" unfolding k using assms by (intro ucast_u8_of_nat) simp
  let ?x = "removeBit (posn ?f r o') (ucast (of_nat d - of_nat r :: u8))"
  have "unat ?x = rmBit ?k (rowStart ?f r + o')"
    using unat_removeBit[of "ucast (of_nat d - of_nat r :: u8)" "posn ?f r o'"] assms kk by (simp add: unat_posn)
  also have "\<dots> = rowStart ?f r div 2 + rmBit ?k o'"
    using assms by (intro rmBit_add dvd_rowStart) simp
  finally have x: "unat ?x = rowStart ?f r div 2 + rmBit ?k o'" .
  have v: "valid_pos ?f (Suc r) (rmBit ?k o')" using assms by (intro rmBit_valid)
  have rs: "rowStart ?f (Suc r) = 2 ^ ?f + rowStart ?f r div 2" using assms by (intro rowStart_Suc_div) simp
  have lt: "unat ?x < 2 ^ ?f" using valid_pos_lt[OF v] by (simp add: x rs)
  have "unat (?x OR 2 ^ ?f) = rowStart ?f (Suc r) + rmBit ?k o'"
    using assms by (subst unat_or_exp[OF lt]) (auto simp: x rs)
  then have "?x OR 2 ^ ?f = posn ?f (Suc r) (rmBit ?k o')"
    using v assms by (intro unat_word_eqI) (simp add: unat_posn)
  moreover have "push_bit (unat (F - (of_nat r + 1))) (push_bit (unat (of_nat r + 1 :: u8)) 1) = (2 ^ unat F :: u64)"
    using row_bit_shift[of "Suc r" F] assms by (simp add: add.commute)
  ultimately show ?thesis
    using detectRow_lt_iff[OF assms(1,2,5)] assms
    by (simp add: calcNextPosition_def Let_def detectRow_posn or.commute)
qed

lemma isLeftNiece_posn:
  assumes "valid_pos f r o'" "r < f" "f \<le> 63" shows "isLeftNiece (posn f r o') = even o'"
proof -
  have "isLeftNiece p = even (unat p)" for p :: u64
    by (simp add: isLeftNiece_def and_one_eq mod_2_eq_odd) (metis bit_0 bit_unat_iff)
  then show ?thesis using assms by (simp add: unat_posn even_rowStart)
qed

lemma calcPrevPosition_alt:
  "calcPrevPosition p q F = addBit (p AND NOT (push_bit (unat (F - detectRow p F)) (push_bit (unat (detectRow p F)) 1)))
     (ucast (detectRow q F - (detectRow p F - 1))) (isLeftNiece q)"
  by (simp add: calcPrevPosition_def Let_def)

lemma calcPrevPosition_posn:
  assumes "valid_pos (unat F) (Suc r) o'" "valid_pos (unat F) d e" "r \<le> d" "d < unat F" "unat F \<le> 63"
  shows "calcPrevPosition (posn (unat F) (Suc r) o') (posn (unat F) d e) F = posn (unat F) r (insBit (d - r) (even e) o')"
proof -
  let ?f = "unat F" let ?k = "d - r"
  have k: "(of_nat d - (of_nat (Suc r) - 1) :: u8) = of_nat ?k" using assms by (simp add: of_nat_diff)
  have kk: "unat (ucast (of_nat d - (of_nat (Suc r) - 1) :: u8) :: u64) = ?k" unfolding k using assms by (intro ucast_u8_of_nat) simp
  have rs: "rowStart ?f (Suc r) = 2 ^ ?f + rowStart ?f r div 2" using assms by (intro rowStart_Suc_div) simp
  let ?x = "posn ?f (Suc r) o' AND NOT (2 ^ ?f)"
  have u: "unat (posn ?f (Suc r) o') = 2 ^ ?f + (rowStart ?f r div 2 + o')" using assms by (simp add: unat_posn rs)
  have lt: "rowStart ?f r div 2 + o' < 2 ^ ?f" using valid_pos_lt[OF assms(1)] by (simp add: rs)
  have "?x = posn ?f (Suc r) o' AND mask ?f"
  proof (rule bit_eqI)
    fix j assume "possible_bit TYPE(64 word) j"
    moreover have "unat (posn ?f (Suc r) o') < 2 ^ Suc ?f" using u lt by simp
    then have "bit (posn ?f (Suc r) o') j \<Longrightarrow> j \<le> ?f" using bit_unat_ltD[of "posn ?f (Suc r) o'" "Suc ?f" j] by force
    ultimately show "bit ?x j = bit (posn ?f (Suc r) o' AND mask ?f) j"
      by (auto simp: bit_only)
  qed
  then have x: "unat ?x = rowStart ?f r div 2 + o'"
    using lt by (simp only: unat_and_mask u) simp
  have "2 ^ Suc ?k dvd rowStart ?f r" using assms by (intro dvd_rowStart) simp
  then have dv: "2 ^ ?k dvd rowStart ?f r div 2" and ev: "2 * (rowStart ?f r div 2) = rowStart ?f r" 
    by (auto simp: dvd_def)
  have "unat ?x < 2 ^ 63"
    using lt power_increasing[OF assms(5), of "2::nat"] by (simp only: x) linarith
  have b: "isLeftNiece (posn ?f d e) = even e"
    using assms by (intro isLeftNiece_posn)
  have "unat (addBit ?x (ucast (of_nat d - (of_nat (Suc r) - 1) :: u8)) (even e)) = insBit ?k (even e) (rowStart ?f r div 2 + o')"
    using unat_addBit[OF _ \<open>unat ?x < 2 ^ 63\<close>, of "ucast (of_nat d - (of_nat (Suc r) - 1) :: u8)"] assms by (simp only: kk x)
  also have "\<dots> = rowStart ?f r + insBit ?k (even e) o'"
    by (simp only: insBit_add[OF dv] ev)
  finally have "unat (addBit ?x (ucast (of_nat d - (of_nat (Suc r) - 1) :: u8)) (even e)) = rowStart ?f r + insBit ?k (even e) o'" .
  then have "addBit ?x (ucast (of_nat d - (of_nat (Suc r) - 1) :: u8)) (even e) = posn ?f r (insBit ?k (even e) o')"
    using insBit_valid[OF assms(1,3,4)] assms(5) by (intro unat_word_eqI) (simp add: unat_posn)
  then show ?thesis using b row_bit_shift[of "Suc r" F] assms
    by (simp only: calcPrevPosition_alt detectRow_posn)
qed

end
