(* ===== verification/ForestShape.thy ===== *)
theory ForestShape
  imports PositionMoves
begin

text \<open>
  Which positions exist in a forest with a given number of leaves, the tree each of them lies
  in, and the functions of \<open>utils.go\<close> that answer those questions: \<open>inForest\<close>,
  \<open>getRootPosition\<close> and \<open>detectOffset\<close>.
\<close>

unbundle bit_operations_syntax

section \<open>Which tree of the forest a node is in\<close>

definition in_forest :: "nat \<Rightarrow> nat \<Rightarrow> nat \<Rightarrow> bool" where
  "in_forest n r o' \<longleftrightarrow> (o' + 1) * 2 ^ r \<le> n"

definition in_tree :: "nat \<Rightarrow> nat \<Rightarrow> nat \<Rightarrow> nat \<Rightarrow> bool" where
  "in_tree n h r o' \<longleftrightarrow> bit n h \<and> r \<le> h \<and> o' div 2 ^ (h - r) = 2 * (n div 2 ^ Suc h)"

lemma in_forest_div: "in_forest n r o' \<longleftrightarrow> o' < n div 2 ^ r"
  using less_eq_div_iff_mult_less_eq[of "2 ^ r" "Suc o'" n] by (simp add: in_forest_def Suc_le_eq)

lemma in_tree_agree:
  assumes "in_tree n h r o'"
  shows "bit n h" "r \<le> h" "o' * 2 ^ r div 2 ^ h = n div 2 ^ h - 1" "0 < n div 2 ^ h"
    "h < j \<Longrightarrow> o' * 2 ^ r div 2 ^ j = n div 2 ^ j"
proof -
  show b: "bit n h" and r: "r \<le> h" using assms by (auto simp: in_tree_def)
  have x: "o' * 2 ^ r div 2 ^ h = o' div 2 ^ (h - r)"
  proof -
    have "(2::nat) ^ h = 2 ^ r * 2 ^ (h - r)" using r by (simp flip: power_add)
    then show ?thesis by (simp add: div_mult2_eq)
  qed
  have odd: "n div 2 ^ h = 2 * (n div 2 ^ Suc h) + 1"
    using b by (simp add: bit_iff_odd power_Suc2 div_mult2_eq del: power_Suc)
  then show "o' * 2 ^ r div 2 ^ h = n div 2 ^ h - 1" "0 < n div 2 ^ h"
    using assms x by (auto simp: in_tree_def)
  show "o' * 2 ^ r div 2 ^ j = n div 2 ^ j" if "h < j"
  proof -
    have s: "o' * 2 ^ r div 2 ^ Suc h = n div 2 ^ Suc h"
      using assms x by (simp add: in_tree_def power_Suc2 div_mult2_eq del: power_Suc)
    have "(2::nat) ^ j = 2 ^ Suc h * 2 ^ (j - Suc h)" using that by (simp only: flip: power_add) simp
    then show ?thesis using s by (simp only: div_mult2_eq)
  qed
qed

lemma in_tree_unique:
  assumes "in_tree n h r o'" "in_tree n h' r o'" shows "h = h'"
proof -
  have "\<not> h < h'" if "in_tree n h r o'" "in_tree n h' r o'" for h h'
    using in_tree_agree(5)[OF that(1), of h'] in_tree_agree(3,4)[OF that(2)] by linarith
  then show ?thesis using assms by (meson linorder_neqE_nat)
qed

lemma halves_neq: "(a::nat) div 2 = b div 2 \<Longrightarrow> a < b \<Longrightarrow> odd b \<and> a = 2 * (b div 2)"
  by presburger

lemma in_tree_exists:
  assumes "in_forest n r o'" obtains h where "in_tree n h r o'"
proof -
  let ?x = "o' * 2 ^ r"
  let ?P = "\<lambda>h. ?x div 2 ^ h \<noteq> n div 2 ^ h"
  have nr: "o' < n div 2 ^ r"
    using assms by (simp add: in_forest_div)
  have "?x \<le> (n div 2 ^ r - 1) * 2 ^ r" using nr by (intro mult_right_mono) auto
  also have "\<dots> < n div 2 ^ r * 2 ^ r" using nr by simp
  also have "\<dots> \<le> n" by (rule div_times_less_eq_dividend)
  finally have lt: "?x < n" .
  have Pr: "?P r" using nr by simp
  have bound: "?P h \<Longrightarrow> h \<le> n" for h
  proof (rule ccontr)
    assume "?P h" "\<not> h \<le> n"
    then have "n < 2 ^ h" by (meson less_exp less_trans linorder_not_le)
    then show False using lt \<open>?P h\<close> by simp
  qed
  define h where "h = (GREATEST h. ?P h)"
  have Ph: "?P h" unfolding h_def using Pr bound by (rule GreatestI_nat)
  have rh: "r \<le> h" unfolding h_def using Pr bound by (rule Greatest_le_nat)
  have "\<not> ?P (Suc h)" using Greatest_le_nat[of ?P "Suc h" n] bound unfolding h_def by fastforce
  then have S: "?x div 2 ^ Suc h = n div 2 ^ Suc h" by simp
  have le: "?x div 2 ^ h \<le> n div 2 ^ h" using lt by (intro div_le_mono) simp
  let ?a = "?x div 2 ^ h" and ?b = "n div 2 ^ h"
  have ab: "?a div 2 = ?b div 2" using S by (simp add: power_Suc2 div_mult2_eq del: power_Suc)
  have "?a < ?b" using Ph le by simp
  from halves_neq[OF ab this] have o: "odd ?b" and a: "?a = 2 * (?b div 2)" by blast+
  have xh: "?x div 2 ^ h = o' div 2 ^ (h - r)"
  proof -
    have "(2::nat) ^ h = 2 ^ r * 2 ^ (h - r)" using rh by (simp flip: power_add)
    then show ?thesis by (simp add: div_mult2_eq)
  qed
  show thesis
  proof
    show "in_tree n h r o'" unfolding in_tree_def
      using o a rh xh by (simp add: bit_iff_odd power_Suc2 div_mult2_eq del: power_Suc)
  qed
qed

lemma in_tree_in_forest:
  assumes "in_tree n h r o'" shows "in_forest n r o'"
proof -
  note a = in_tree_agree[OF assms]
  have p: "(2::nat) ^ h = 2 ^ r * 2 ^ (h - r)" using a(2) by (simp flip: power_add)
  have "o' div 2 ^ (h - r) < n div 2 ^ r div 2 ^ (h - r)"
    using a(3,4) by (simp add: p div_mult2_eq)
  then have "o' < n div 2 ^ r" by (meson div_le_mono linorder_not_less)
  then show ?thesis by (simp add: in_forest_div)
qed

lemma in_forest_iff_tree: "in_forest n r o' \<longleftrightarrow> (\<exists>h. in_tree n h r o')"
  by (auto elim: in_tree_exists intro: in_tree_in_forest)

lemma in_forest_valid:
  assumes "in_forest n r o'" "n \<le> 2 ^ f" shows "valid_pos f r o'"
proof -
  have lt: "o' < 2 ^ f div 2 ^ r" using assms div_le_mono[of n "2 ^ f" "2 ^ r"] by (simp add: in_forest_div)
  have "r \<le> f"
  proof (rule ccontr)
    assume "\<not> r \<le> f"
    then have "(2::nat) ^ f < 2 ^ r" by simp
    then show False using lt by simp
  qed
  then show ?thesis using lt by (simp add: valid_pos_def power_diff)
qed

lemma in_tree_parent:
  assumes "in_tree n h r o'" "r < h" shows "in_tree n h (Suc r) (o' div 2)"
proof -
  have "o' div 2 div 2 ^ (h - Suc r) = o' div 2 ^ (h - r)"
    using assms(2) by (simp add: pow_diff_Suc div_mult2_eq)
  then show ?thesis using assms by (simp add: in_tree_def)
qed

lemma in_tree_child:
  assumes "in_tree n h (Suc r) o'" shows "in_tree n h r (2 * o')" "in_tree n h r (2 * o' + 1)"
proof -
  have "r < h" using assms by (simp add: in_tree_def)
  then show "in_tree n h r (2 * o')" "in_tree n h r (2 * o' + 1)"
    using assms by (auto simp: in_tree_def pow_diff_Suc div_mult2_eq)
qed

lemma inForest_loop_posn:
  fixes F :: u8
  assumes "valid_pos (unat F) r o'" "unat F \<le> 63"
  shows "inForest_loop (2 ^ unat F) (mask (Suc (unat F))) (posn (unat F) r o') = Some (of_nat ((o' + 1) * 2 ^ r - 1))"
  using assms(1)
proof (induction r arbitrary: o')
  case 0
  have "\<not> bit (posn (unat F) 0 o') (unat F)" using bit_posn(2)[OF 0 assms(2)] by simp
  then show ?case by (subst inForest_loop.simps) (simp add: and_exp_eq_0_iff_not_bit)
next
  case (Suc r)
  have "bit (posn (unat F) (Suc r) o') (unat F)" using bit_posn(1)[OF Suc.prems assms(2), of "unat F"] Suc.prems
    by (simp add: valid_pos_def)
  then have "inForest_loop (2 ^ unat F) (mask (Suc (unat F))) (posn (unat F) (Suc r) o')
     = inForest_loop (2 ^ unat F) (mask (Suc (unat F))) (rightChild (posn (unat F) (Suc r) o') F)"
    by (subst inForest_loop.simps) (simp add: and_exp_eq_0_iff_not_bit rightChild_def Let_def)
  also have "\<dots> = Some (of_nat ((2 * o' + 1 + 1) * 2 ^ r - 1))"
    using Suc.IH valid_pos_child[OF Suc.prems] Suc.prems assms(2) by (simp add: rightChild_posn)
  also have "(2 * o' + 1 + 1) * 2 ^ r = (o' + 1) * 2 ^ Suc r" by simp
  finally show ?case .
qed

lemma valid_pos_last_leaf: 
  assumes "valid_pos f r o'" shows "(o' + 1) * 2 ^ r \<le> 2 ^ f"
proof -
  have "(o' + 1) * 2 ^ r \<le> 2 ^ (f - r) * 2 ^ r" using assms by (intro mult_right_mono) (auto simp: valid_pos_def)
  then show ?thesis using assms by (simp add: valid_pos_def flip: power_add)
qed

lemma inForest_posn:
  assumes "valid_pos (unat F) r o'" "unat F \<le> 63" "unat n \<le> 2 ^ unat F"
  shows "inForest (posn (unat F) r o') n F = Inr (in_forest (unat n) r o')"
proof (cases "posn (unat F) r o' < n")
  case True
  then have lt: "rowStart (unat F) r + o' < unat n" using assms by (simp add: word_less_nat_alt unat_posn)
  have "r = 0"
  proof (rule ccontr)
    assume "r \<noteq> 0"
    then have "rowStart (unat F) 1 \<le> rowStart (unat F) r" by (intro rowStart_mono) simp
    moreover have "rowStart (unat F) 1 = 2 ^ unat F" by (simp add: rowStart_def)
    ultimately show False using lt assms(3) by simp
  qed
  then show ?thesis using True lt by (simp add: inForest_def in_forest_div)
next
  case False
  let ?f = "unat F"
  have m: "push_bit 1 (push_bit ?f 1) - 1 = (mask (Suc ?f) :: u64)"
    by (simp add: push_bit_eq_mult mask_eq_exp_minus_1 mult.commute)
  have nm: "\<not> mask (Suc ?f) \<le> posn ?f r o'"
  proof -
    have "unat (mask (Suc ?f) :: u64) = 2 ^ (?f + 1) - 1"
      using assms(2) by (simp only: unat_mask) (simp add: min.absorb2 mask_eq_exp_minus_1)
    then show ?thesis
      using valid_pos_lt[OF assms(1)] assms by (simp only: word_le_nat_alt unat_posn)
  qed
  have "(o' + 1) * 2 ^ r - 1 < 2 ^ 64"
    using valid_pos_last_leaf[OF assms(1)] power_increasing[OF assms(2), of "2::nat"] by simp
  then have u: "unat (of_nat ((o' + 1) * 2 ^ r - 1) :: u64) = (o' + 1) * 2 ^ r - 1"
    by (intro unat_of_nat_lt) simp
  have "0 < (o' + 1) * 2 ^ r" by simp
  then have "of_nat ((o' + 1) * 2 ^ r - 1) < n \<longleftrightarrow> in_forest (unat n) r o'"
    unfolding word_less_nat_alt u in_forest_def by linarith
  then show ?thesis using False nm inForest_loop_posn[OF assms(1,2)] m 
    by (simp only: inForest_def Let_def) (simp add: push_bit_eq_mult)
qed

lemma posn_row_inject:
  assumes "r \<le> f" "f \<le> 63" "o' < 2 ^ (Suc f - r)" "p < 2 ^ (Suc f - r)"
  shows "posn f r o' = posn f r p \<longleftrightarrow> o' = p"
proof -
  have "rowStart f r + q < 2 ^ 64" if "q < 2 ^ (Suc f - r)" for q
    using that rowStart_le[OF assms(1)] rows_pow_le[OF assms(2)] by simp
  then have "unat (posn f r o') = rowStart f r + o'" "unat (posn f r p) = rowStart f r + p"
    using assms by (auto simp: posn_def unat_of_nat_lt simp del: of_nat_add)
  then show ?thesis by (metis add_left_cancel)
qed

lemma getRootPosition_loop_posn:
  assumes "in_tree (unat n) h r o'" "unat n \<le> 2 ^ unat F" "unat F \<le> 63" "r \<le> i" "i \<le> h"
  shows "getRootPosition_loop n F (posn (unat F) i (o' div 2 ^ (i - r))) (of_nat i) =
    Some (Some (posn (unat F) h (2 * (unat n div 2 ^ Suc h))))"
  using assms(5,4)
proof (induction rule: inc_induct)
  note a = in_tree_agree[OF assms(1)]
  have hf: "h \<le> unat F" using rootOffset_valid(1)[OF _ assms(2), of h] a(1) by (simp add: bit_unat_iff)
  { case base
    have "o' div 2 ^ (h - r) = 2 * (unat n div 2 ^ Suc h)" using assms(1) by (simp add: in_tree_def)
    moreover have "(of_nat h :: u8) \<le> F" using hf assms(3) by (simp add: word_le_nat_alt)
    ultimately show ?case using rootPosition_posn[OF hf assms(3,2)]
      by (subst getRootPosition_loop.simps) (simp del: power_Suc)
  next
    case (step i)
    let ?o = "o' div 2 ^ (i - r)"
    have iF: "i \<le> unat F" "i < unat F" using step hf by auto
    have v: "valid_pos (unat F) i ?o"
      using valid_pos_parents[of "unat F" r o' "i - r"] in_forest_valid[OF in_tree_in_forest[OF assms(1)] assms(2)] step iF by simp
    have ne: "posn (unat F) i ?o \<noteq> posn (unat F) i (2 * (unat n div 2 ^ Suc i))"
    proof
      assume "posn (unat F) i ?o = posn (unat F) i (2 * (unat n div 2 ^ Suc i))"
      moreover have "?o < 2 ^ (Suc (unat F) - i)" using v by (simp add: valid_pos_def Suc_diff_le)
      ultimately have "?o = 2 * (unat n div 2 ^ Suc i)"
        using rootOffset_bound[OF assms(2) iF(1)] posn_row_inject[OF iF(1) assms(3)] by blast
      moreover have "o' div 2 ^ (i - r) = o' * 2 ^ r div 2 ^ i"
      proof -
        have "(2::nat) ^ i = 2 ^ r * 2 ^ (i - r)" using step by (simp flip: power_add)
        then show ?thesis by (simp add: div_mult2_eq)
      qed
      ultimately have eq: "o' * 2 ^ r div 2 ^ Suc i = unat n div 2 ^ Suc i"
        by (simp add: power_Suc2 div_mult2_eq del: power_Suc)
      have "(2::nat) ^ h = 2 ^ Suc i * 2 ^ (h - Suc i)" using step by (simp only: flip: power_add) simp
      then have "o' * 2 ^ r div 2 ^ h = unat n div 2 ^ h" using eq by (simp only: div_mult2_eq)
      then show False using a(3,4) by simp
    qed
    have "(of_nat i :: u8) \<le> F" using iF assms(3) by (simp add: word_le_nat_alt)
    moreover have "?o div 2 = o' div 2 ^ (Suc i - r)" using step by (simp add: Suc_diff_le power_Suc2 div_mult2_eq del: power_Suc)
    ultimately show ?case using ne step.IH step.prems v iF rootPosition_posn[OF iF(1) assms(3,2)] parent_posn[OF v iF(2) assms(3)]
      by (subst getRootPosition_loop.simps) (auto simp: add.commute simp del: power_Suc)
  }
qed

lemma getRootPosition_posn:
  assumes "in_tree (unat n) h r o'" "unat n \<le> 2 ^ unat F" "unat F \<le> 63"
  shows "getRootPosition (posn (unat F) r o') n F = Inr (posn (unat F) h (2 * (unat n div 2 ^ Suc h)))"
proof -
  have "valid_pos (unat F) r o'" using in_forest_valid[OF in_tree_in_forest[OF assms(1)] assms(2)] .
  then show ?thesis using getRootPosition_loop_posn[OF assms order_refl] assms in_tree_agree(2)[OF assms(1)]
    by (simp add: getRootPosition_def detectRow_posn del: power_Suc)
qed

lemma unat_diff_mod:
  assumes "2 ^ m dvd unat b" "m \<le> 64" shows "unat (a - b :: u64) mod 2 ^ m = unat a mod 2 ^ m"
proof -
  have "unat ((a - b) + b) = (unat (a - b) + unat b) mod 2 ^ 64"
    by (subst unat_word_ariths(1)) simp
  then have "unat a = (unat (a - b) + unat b) mod 2 ^ 64" by (simp only: diff_add_cancel)
  then have "unat a mod 2 ^ m = (unat (a - b) + unat b) mod 2 ^ m"
    using assms(2) by (simp only: mod_mod_cancel le_imp_power_dvd)
  also have "\<dots> = unat (a - b) mod 2 ^ m" using assms(1) by (auto simp: dvd_def)
  finally show ?thesis by simp
qed

lemma mod_eq_weaken: "(a::nat) mod 2 ^ k = b mod 2 ^ k \<Longrightarrow> j \<le> k \<Longrightarrow> a mod 2 ^ j = b mod 2 ^ j"
  by (metis le_imp_power_dvd mod_mod_cancel)

lemma mod_exp_Suc_ge: "2 ^ t \<le> (x::nat) mod 2 ^ Suc t \<longleftrightarrow> odd (x div 2 ^ t)"
proof -
  have "x mod 2 ^ Suc t = 2 ^ t * (x div 2 ^ t mod 2) + x mod 2 ^ t"
    by (simp add: power_Suc2 mod_mult2_eq del: power_Suc)
  moreover have "x mod 2 ^ t < 2 ^ t" by simp
  ultimately show ?thesis by (cases "even (x div 2 ^ t)") (simp_all add: mod_2_eq_odd not_le del: power_Suc mod_less_divisor)
qed

lemma and_exp_eq: "2 ^ t AND n = (if bit n t then 2 ^ t else (0::u64))"
  by (rule bit_eqI) (auto simp: bit_simps bit_exp_iff)

definition bigger_trees :: "nat \<Rightarrow> nat \<Rightarrow> nat" where
  "bigger_trees n h = card {j. h < j \<and> bit n j}"

lemma detectOffset_loop_posn:
  assumes "in_tree (unat n) h r o'" "unat n \<le> 2 ^ f" "f \<le> 63" "h \<le> t" "t \<le> f"
    "unat p mod 2 ^ (Suc t - r) = o' mod 2 ^ (Suc t - r)"
  shows "\<exists>p'. detectOffset_loop q n (of_nat r) p (int t) b =
       Inr (b + of_nat (card {j. h < j \<and> j \<le> t \<and> bit n j}), int h, p') \<and>
     unat p' mod 2 ^ (Suc h - r) = o' mod 2 ^ (Suc h - r)"
  using assms(4,5,6)
proof (induction t arbitrary: p b rule: nat_less_induct)
  case (1 t)
  note a = in_tree_agree[OF assms(1)]
  let ?x = "o' * 2 ^ r"
  have rt: "r \<le> t" and r63: "r \<le> 63" using a(2) 1 assms by auto
  have ur: "unat (of_nat r :: u8) = r" using r63 by simp
  have ot: "(of_int (int t) :: u8) = of_nat t" by simp
  have ut: "unat (of_nat t :: u8) = t" using 1 assms by simp
  have m: "unat (push_bit r p AND mask (Suc t)) = ?x mod 2 ^ Suc t"
  proof -
    have "unat (push_bit r p AND mask (Suc t)) = unat p * 2 ^ r mod 2 ^ 64 mod 2 ^ Suc t"
      by (simp only: unat_and_mask unat_push) simp
    also have "\<dots> = unat p * 2 ^ r mod 2 ^ Suc t"
      using 1 assms by (intro rows_mod_64) simp
    also have "\<dots> = ?x mod 2 ^ Suc t"
    proof -
      have "(2::nat) ^ Suc t = 2 ^ (Suc t - r) * 2 ^ r" using rt by (simp only: flip: power_add) simp
      then show ?thesis using 1(4) by (simp only: mod_mult_mult2)
    qed
    finally show ?thesis .
  qed
  have l: "unat (2 ^ t AND n) = (if bit n t then 2 ^ t else 0)"
    using 1 assms(3) by (simp add: and_exp_eq unat_exp)
  have le: "2 ^ t AND n \<le> push_bit r p AND mask (Suc t) \<longleftrightarrow> (if bit n t then 2 ^ t else 0) \<le> ?x mod 2 ^ Suc t"
    by (simp only: word_le_nat_alt m l)
  have loop: "detectOffset_loop q n (of_nat r) p (int t) b =
     (if (if bit n t then 2 ^ t else 0) \<le> ?x mod 2 ^ Suc t
      then if bit n t then detectOffset_loop q n (of_nat r) (p - 2 ^ t) (int t - 1) (b + 1)
           else detectOffset_loop q n (of_nat r) p (int t - 1) b
      else Inr (b, int t, p))"
    by (subst detectOffset_loop.simps)
      (simp only: maxPosition_def maxLeafCount_def ot ut ur push_2_minus_1 push_bit_of_1 nat_int le Let_def, use 1 assms(3) in \<open>simp add: and_exp_eq\<close>)
  show ?case
  proof (cases "h = t")
    case True
    have "even (?x div 2 ^ t)" using a(1,3) True by (simp add: bit_iff_odd)
    then have "\<not> 2 ^ t \<le> ?x mod 2 ^ Suc t" using mod_exp_Suc_ge[of t ?x] by simp
    moreover have "bit n t" using a(1) True by (simp add: bit_unat_iff)
    ultimately have L: "detectOffset_loop q n (of_nat r) p (int t) b = Inr (b, int h, p)"
      using loop by (simp add: True del: power_Suc)
    have e: "{j. h < j \<and> j \<le> t \<and> bit n j} = {}" using True by auto
    show ?thesis unfolding e by (intro exI[of _ p] conjI) (simp add: L, use 1(4) True in simp)
  next
    case False
    then have ht: "h < t" using 1 by simp
    then obtain t' where t': "t = Suc t'" by (cases t) auto
    have cond: "(if bit n t then 2 ^ t else 0) \<le> ?x mod 2 ^ Suc t"
      using a(5)[OF ht] mod_exp_Suc_ge[of t ?x] bit_unat_iff[of n t] bit_iff_odd[of "unat n" t] by auto
    have c: "unat p mod 2 ^ (Suc t' - r) = o' mod 2 ^ (Suc t' - r)"
      using 1(4) by (rule mod_eq_weaken) (simp add: t')
    have c': "unat (p - 2 ^ t) mod 2 ^ (Suc t' - r) = o' mod 2 ^ (Suc t' - r)"
    proof -
      have "2 ^ (Suc t' - r) dvd unat (2 ^ t :: u64)"
        using 1 assms(3) by (simp add: unat_exp t' le_imp_power_dvd del: power_Suc)
      then show ?thesis using c 1 assms(3) t' by (subst unat_diff_mod) auto
    qed
    have "{j. h < j \<and> j \<le> t \<and> bit n j} = {j. h < j \<and> j \<le> t' \<and> bit n j} \<union> (if bit n t then {t} else {})"
      using ht t' by (auto simp: le_Suc_eq)
    then have card: "card {j. h < j \<and> j \<le> t \<and> bit n j} = card {j. h < j \<and> j \<le> t' \<and> bit n j} + of_bool (bit n t)"
      by (auto simp: t')
    have IH: "\<And>p b. unat p mod 2 ^ (Suc t' - r) = o' mod 2 ^ (Suc t' - r) \<Longrightarrow>
       \<exists>p'. detectOffset_loop q n (of_nat r) p (int t') b = Inr (b + of_nat (card {j. h < j \<and> j \<le> t' \<and> bit n j}), int h, p') \<and>
       unat p' mod 2 ^ (Suc h - r) = o' mod 2 ^ (Suc h - r)"
      using 1(1)[rule_format, of t'] ht t' 1(3) by simp
    have it: "int t - 1 = int t'" by (simp add: t')
    show ?thesis using loop cond IH[OF c, of b] IH[OF c', of "b + 1"] 
      by (cases "bit n t") (simp_all only: it if_True if_False card, auto simp: add_ac)
  qed
qed

lemma detectOffset_posn:
  assumes "in_tree (unat n) h r o'" "unat (treeRows n) \<le> 63"
  shows "\<exists>bits. detectOffset (posn (unat (treeRows n)) r o') n =
      Inr (of_nat (bigger_trees (unat n) h), of_nat (h - r), bits) \<and>
    (\<forall>j < h - r. bit bits j = (bit o' j = (j = 0)))"
proof -
  let ?F = "treeRows n" let ?f = "unat ?F"
  note a = in_tree_agree[OF assms(1)]
  have v: "valid_pos ?f r o'" using in_forest_valid[OF in_tree_in_forest[OF assms(1)] le_treeRows] .
  have hf: "h \<le> ?f" using rootOffset_valid(1)[OF _ le_treeRows, of n h] a(1) by (simp add: bit_unat_iff)
  have "unat (posn ?f r o') mod 2 ^ (Suc ?f - r) = o' mod 2 ^ (Suc ?f - r)"
    using v assms(2) by (simp only: unat_posn) (auto simp: rowStart_eq_mask valid_pos_def)
  then obtain p' where p': "detectOffset_loop (posn ?f r o') n (of_nat r) (posn ?f r o') (int ?f) 0 =
       Inr (0 + of_nat (card {j. h < j \<and> j \<le> ?f \<and> bit n j}), int h, p')"
     "unat p' mod 2 ^ (Suc h - r) = o' mod 2 ^ (Suc h - r)"
    using detectOffset_loop_posn[OF assms(1) le_treeRows assms(2) hf order_refl] by blast
  have "{j. h < j \<and> j \<le> ?f \<and> bit n j} = {j. h < j \<and> bit (unat n) j}"
    using rootOffset_valid(1)[OF _ le_treeRows, of n] by (auto simp: bit_unat_iff)
  then have c: "card {j. h < j \<and> j \<le> ?f \<and> bit n j} = bigger_trees (unat n) h" by (simp add: bigger_trees_def)
  have b: "bit p' j = bit o' j" if "j < h - r" for j
  proof -
    have "bit (take_bit (Suc h - r) (unat p')) j = bit (take_bit (Suc h - r) o') j"
      using p'(2) by (simp add: take_bit_eq_mod)
    moreover have "j < Suc h - r" using that by simp
    ultimately show ?thesis by (simp add: bit_take_bit_iff bit_unat_iff)
  qed
  have "bit (NOT (p' XOR 1)) j = (bit o' j = (j = 0))" if "j < h - r" for j
    using b[OF that] that hf assms(2) by (auto simp: bit_only)
  moreover have "detectOffset (posn ?f r o') n = Inr (of_nat (bigger_trees (unat n) h), of_nat (h - r), NOT (p' XOR 1))"
  proof -
    have "(of_int (int h) :: u8) - of_nat r = of_nat (h - r)" by (subst of_nat_diff[OF a(2)]) simp
    then show ?thesis
      unfolding detectOffset_def Let_def uint_nat detectRow_posn[OF v assms(2)] p'(1) c by simp
  qed
  ultimately show ?thesis by blast
qed

end
