(* ===== verification/ForestNodes.thy ===== *)
theory ForestNodes
  imports ForestShape
begin

text \<open>
  The nodes of a forest as \<open>uint64\<close> positions: \<open>node n F p\<close> says that \<open>inForest\<close> accepts the
  position, \<open>root n F p\<close> that it is the top of a tree. Every node has a place (its tree, its row,
  its offset); below the roots the parent is a larger node, the sibling a neighbouring one, and
  the order of positions is the order of rows and offsets.
\<close>

unbundle bit_operations_syntax

section \<open>The nodes of a forest\<close>

definition fits :: "u64 \<Rightarrow> u8 \<Rightarrow> bool" where
  "fits n F \<longleftrightarrow> unat F \<le> 63 \<and> unat n \<le> 2 ^ unat F"

abbreviation node :: "u64 \<Rightarrow> u8 \<Rightarrow> u64 \<Rightarrow> bool" where
  "node n F p \<equiv> inForest p n F = Inr True"

abbreviation root :: "u64 \<Rightarrow> u8 \<Rightarrow> u64 \<Rightarrow> bool" where
  "root n F p \<equiv> isRootPositionTotalRows p n F"

definition place :: "u64 \<Rightarrow> u8 \<Rightarrow> u64 \<Rightarrow> nat \<Rightarrow> nat \<Rightarrow> nat \<Rightarrow> bool" where
  "place n F p h r o' \<longleftrightarrow> in_tree (unat n) h r o' \<and> p = posn (unat F) r o'"

lemma node_posn: "fits n F \<Longrightarrow> in_forest (unat n) r o' \<Longrightarrow> node n F (posn (unat F) r o')"
  using inForest_posn[of F r o' n] in_forest_valid[of "unat n" r o' "unat F"] by (simp add: fits_def)

lemma node_place:
  assumes "fits n F" "node n F p" obtains h r o' where "place n F p h r o'"
proof -
  have f: "unat F \<le> 63" "unat n \<le> 2 ^ unat F" using assms(1) by (auto simp: fits_def)
  have "unat p < 2 ^ (unat F + 1) - 1"
  proof (rule ccontr)
    assume "\<not> ?thesis"
    then have a: "2 ^ (unat F + 1) - 1 \<le> unat p" by simp
    moreover have "2 ^ unat F \<le> 2 ^ (unat F + 1) - (1::nat)" by simp
    ultimately have "\<not> p < n" using f by (simp add: word_less_nat_alt)
    moreover have "push_bit 1 (push_bit (unat F) 1) - 1 \<le> p"
    proof -
      have "push_bit 1 (push_bit (unat F) 1) - 1 = (mask (unat F + 1) :: u64)"
        by (simp add: mask_eq_exp_minus_1 push_bit_eq_mult)
      moreover have "unat (mask (unat F + 1) :: u64) = 2 ^ (unat F + 1) - 1"
        using f by (subst unat_mask) (simp add: mask_eq_exp_minus_1 min_def)
      ultimately show ?thesis using a by (simp only: word_le_nat_alt)
    qed
    ultimately show False using assms(2) by (simp add: inForest_def Let_def)
  qed
  then obtain r o' where v: "valid_pos (unat F) r o'" "p = posn (unat F) r o'"
    using posn_exists[of p "unat F"] f by blast
  then have "in_forest (unat n) r o'" using assms(2) inForest_posn[OF v(1) f] by simp
  then show ?thesis using that v(2) by (metis in_tree_exists place_def)
qed

lemma place_row:
  assumes "fits n F" "place n F p h r o'"
  shows "r \<le> h" "h \<le> unat F" "h \<le> unat (treeRows n)" "valid_pos (unat F) r o'"
    "detectRow p F = of_nat r" "unat p = rowStart (unat F) r + o'"
    "node n F p"
proof -
  have t: "in_tree (unat n) h r o'" and p: "p = posn (unat F) r o'" using assms(2) by (auto simp: place_def)
  have f: "unat F \<le> 63" "unat n \<le> 2 ^ unat F" using assms(1) by (auto simp: fits_def)
  show "r \<le> h" using t by (simp add: in_tree_def)
  have b: "bit n h" using t by (simp add: in_tree_def bit_unat_iff)
  show "h \<le> unat F" "h \<le> unat (treeRows n)"
    using rootOffset_valid(1)[OF b f(2)] rootOffset_valid(1)[OF b le_treeRows] by auto
  show v: "valid_pos (unat F) r o'" using in_forest_valid[OF in_tree_in_forest[OF t] f(2)] .
  show "detectRow p F = of_nat r" "unat p = rowStart (unat F) r + o'"
    using detectRow_posn[OF v f(1)] unat_posn[OF v f(1)] p by auto
  show "node n F p" unfolding p by (rule node_posn[OF assms(1) in_tree_in_forest[OF t]])
qed

lemma fits_treeRows: "fits n F \<Longrightarrow> unat (treeRows n) \<le> unat F \<and> unat (treeRows n) \<le> 63"
  using treeRows_least[of n "unat F"] by (auto simp: fits_def)

lemma root_iff:
  assumes "fits n F" "place n F p h r o'"
  shows "root n F p \<longleftrightarrow> r = h" "isRootPositionOnRowTotalRows p n (of_nat r) F \<longleftrightarrow> r = h"
proof -
  note pr = place_row[OF assms]
  have t: "in_tree (unat n) h r o'" and p: "p = posn (unat F) r o'" using assms(2) by (auto simp: place_def)
  let ?G = "treeRows n"
  have g: "unat ?G \<le> 63" using fits_treeRows[OF assms(1)] by simp
  have rG: "r \<le> unat ?G" using pr(1,3) by simp
  have v: "valid_pos (unat ?G) r o'" using in_forest_valid[OF in_tree_in_forest[OF t] le_treeRows] .
  have tr: "translatePos p F ?G = posn (unat ?G) r o'"
    unfolding p using translatePos_posn[OF pr(4) _ rG] assms(1) by (simp add: fits_def)
  have "bit n r \<and> o' = 2 * (unat n div 2 ^ Suc r) \<longleftrightarrow> in_tree (unat n) r r o'"
    by (simp add: in_tree_def bit_unat_iff)
  also have "\<dots> \<longleftrightarrow> r = h" using t in_tree_unique[of "unat n" r r o' h] by auto
  finally have e: "bit n r \<and> o' = 2 * (unat n div 2 ^ Suc r) \<longleftrightarrow> r = h" .
  have 1: "isRootPosition (posn (unat ?G) r o') n \<longleftrightarrow> r = h"
    using isRootPosition_iff[OF v g] e by simp
  have "r \<le> unat ?G \<Longrightarrow> posn (unat ?G) r o' = posn (unat ?G) r (2 * (unat n div 2 ^ Suc r)) \<longleftrightarrow> o' = 2 * (unat n div 2 ^ Suc r)"
    if "bit n r" using posn_inject[OF v rootOffset_valid(2)[OF that le_treeRows] g] by blast
  then have 2: "isRootPositionOnRow (posn (unat ?G) r o') n (of_nat r) \<longleftrightarrow> r = h"
    using isRootPositionOnRow_iff[OF rG g, of "posn (unat ?G) r o'"] e rG by blast
  show "root n F p \<longleftrightarrow> r = h"
    using 1 tr p unfolding isRootPositionTotalRows_def by (cases "F = ?G") auto
  show "isRootPositionOnRowTotalRows p n (of_nat r) F \<longleftrightarrow> r = h"
    using 2 tr p unfolding isRootPositionOnRowTotalRows_def by (cases "?G = F") auto
qed

lemma node_parent:
  assumes "fits n F" "place n F p h r o'" "r < h"
  shows "place n F (parent p F) h (Suc r) (o' div 2)"
  using assms place_row[OF assms(1,2)] in_tree_parent[of "unat n" h r o'] parent_posn[of F r o']
  by (auto simp: place_def fits_def)

lemma node_sibling:
  assumes "fits n F" "place n F p h r o'" "r < h"
  shows "place n F (sibling p) h r (if even o' then o' + 1 else o' - 1)"
proof -
  have "in_tree (unat n) h (Suc r) (o' div 2)"
    using assms in_tree_parent[of "unat n" h r o'] by (simp add: place_def)
  from in_tree_child[OF this] have "in_tree (unat n) h r (if even o' then o' + 1 else o' - 1)"
    by (cases "even o'") (auto elim!: oddE evenE)
  then show ?thesis
    using assms place_row[OF assms(1,2)] sibling_posn[of "unat F" r o'] by (auto simp: place_def fits_def)
qed

lemma node_rightSib:
  assumes "fits n F" "place n F p h r o'" "r < h"
  shows "rightSib p = (if even o' then sibling p else p)" "isLeftNiece p \<longleftrightarrow> even o'"
  using assms place_row[OF assms(1,2)] rightSib_posn[of "unat F" r o'] sibling_posn[of "unat F" r o']
    isLeftNiece_posn[of "unat F" r o']
  by (auto simp: place_def fits_def)

lemma inner:
  assumes "fits n F" "node n F p" "\<not> root n F p"
  obtains h r o' where "place n F p h r o'" "r < h"
  using node_place[OF assms(1,2)] root_iff(1)[OF assms(1)] place_row(1)[OF assms(1)] assms(3)
  by (metis order_neq_le_trans)

lemma parent_node:
  assumes "fits n F" "node n F p" "\<not> root n F p"
  shows "node n F (parent p F)" "p < parent p F"
proof -
  obtain h r o' where a: "place n F p h r o'" "r < h" using inner[OF assms] .
  note b = node_parent[OF assms(1) a]
  show "node n F (parent p F)" using place_row(7)[OF assms(1) b] .
  have "o' < 2 ^ (unat F - r)" using place_row(4)[OF assms(1) a(1)] by (simp add: valid_pos_def)
  then show "p < parent p F"
    using place_row(1,2,6)[OF assms(1) a(1)] place_row(6)[OF assms(1) b] a(2)
    by (simp add: word_less_nat_alt rowStart_Suc)
qed

lemma sibling_node:
  assumes "fits n F" "node n F p" "\<not> root n F p"
  shows "node n F (sibling p)" "\<not> root n F (sibling p)" "parent (sibling p) F = parent p F"
    "isLeftNiece (sibling p) \<longleftrightarrow> \<not> isLeftNiece p"
    "isLeftNiece p \<Longrightarrow> unat (sibling p) = unat p + 1 \<and> rightSib p = sibling p"
    "\<not> isLeftNiece p \<Longrightarrow> unat p = unat (sibling p) + 1 \<and> rightSib p = p"
proof -
  obtain h r o' where a: "place n F p h r o'" "r < h" using inner[OF assms] .
  note s = node_sibling[OF assms(1) a]
  show "node n F (sibling p)" using place_row(7)[OF assms(1) s] .
  show "\<not> root n F (sibling p)" using root_iff(1)[OF assms(1) s] a(2) by simp
  show "parent (sibling p) F = parent p F"
    using node_parent[OF assms(1) s a(2)] node_parent[OF assms(1) a]
    by (cases "even o'") (auto simp: place_def elim!: evenE oddE)
  show "isLeftNiece (sibling p) \<longleftrightarrow> \<not> isLeftNiece p"
    using node_rightSib(2)[OF assms(1) s a(2)] node_rightSib(2)[OF assms(1) a] by auto
  show "isLeftNiece p \<Longrightarrow> unat (sibling p) = unat p + 1 \<and> rightSib p = sibling p"
    "\<not> isLeftNiece p \<Longrightarrow> unat p = unat (sibling p) + 1 \<and> rightSib p = p"
    using place_row(6)[OF assms(1) a(1)] place_row(6)[OF assms(1) s] node_rightSib[OF assms(1) a]
    by (auto split: if_splits elim!: oddE)
qed

lemma sibling_sibling [simp]: "sibling (sibling p) = p"
  by (simp add: sibling_def xor.assoc)

lemma sibling_neq [simp]: "sibling p \<noteq> p"
proof
  assume "sibling p = p"
  then have "bit (p XOR 1) 0 = bit p 0" unfolding sibling_def by (rule arg_cong)
  then show False by (simp only: bit_xor_iff bit_1_iff) simp
qed

lemma node_less_iff:
  assumes "fits n F" "place n F p h r o'" "place n F q h' s o''"
  shows "p < q \<longleftrightarrow> r < s \<or> (r = s \<and> o' < o'')"
proof -
  note a = place_row(4,6)[OF assms(1,2)] place_row(4,6)[OF assms(1,3)]
  have le: "rowStart (unat F) r + o' < rowStart (unat F) s + o''"
    if "r < s" "valid_pos (unat F) r o'" for r s o' o''
  proof -
    have "rowStart (unat F) r + o' < rowStart (unat F) (Suc r)"
      using that by (simp add: rowStart_Suc valid_pos_def)
    also have "\<dots> \<le> rowStart (unat F) s" using that by (intro rowStart_mono) simp
    finally show ?thesis by simp
  qed
  show ?thesis using a le[of r s o' o''] le[of s r o'' o']
    by (cases r s rule: linorder_cases) (auto simp: word_less_nat_alt)
qed

lemma parent_mono:
  assumes "fits n F" "node n F p" "\<not> root n F p" "node n F q" "\<not> root n F q" "p < q"
  shows "parent p F < parent q F \<or> (parent p F = parent q F \<and> q = sibling p \<and> isLeftNiece p)"
proof -
  obtain h r o' where a: "place n F p h r o'" "r < h" using inner[OF assms(1-3)] .
  obtain h' s u where b: "place n F q h' s u" "s < h'" using inner[OF assms(1,4,5)] .
  have l: "r < s \<or> (r = s \<and> o' < u)" using node_less_iff[OF assms(1) a(1) b(1)] assms(6) by simp
  note pa = node_parent[OF assms(1) a] and pb = node_parent[OF assms(1) b]
  have i: "parent p F < parent q F \<longleftrightarrow> r < s \<or> (r = s \<and> o' div 2 < u div 2)"
    using node_less_iff[OF assms(1) pa pb] by auto
  show ?thesis
  proof (cases "r = s \<and> o' div 2 = u div 2")
    case True
    then have e: "even o'" "u = o' + 1" using l by presburger+
    then have "q = sibling p" using node_sibling[OF assms(1) a] b(1) True by (simp add: place_def)
    moreover have "parent p F = parent q F" using pa pb True by (simp add: place_def)
    ultimately show ?thesis using node_rightSib(2)[OF assms(1) a] e(1) by simp
  next
    case False
    then show ?thesis using l i by (auto intro: div_le_mono order_neq_le_trans simp: less_imp_le)
  qed
qed

lemma detectRow_mono:
  assumes "fits n F" "node n F p" "node n F q" "p \<le> q" shows "detectRow p F \<le> detectRow q F"
proof -
  obtain h r o' where a: "place n F p h r o'" using node_place[OF assms(1,2)] .
  obtain h' s u where b: "place n F q h' s u" using node_place[OF assms(1,3)] .
  have "r \<le> s" using node_less_iff[OF assms(1) b a] assms(4) by (auto simp: not_less)
  moreover have "s \<le> 63" using place_row(1,2)[OF assms(1) b] assms(1) by (simp add: fits_def)
  ultimately show ?thesis
    using place_row(5)[OF assms(1) a] place_row(5)[OF assms(1) b] by (simp add: word_le_nat_alt)
qed

end
