(* ===== verification/Slices.thy ===== *)
theory Slices
  imports Positions
begin

text \<open>
  The slice helpers of \<open>utils.go\<close> and \<open>prove.go\<close>: comparison functions, sorted copies, the
  merge and the difference of sorted slices, insertion into a sorted slice and \<open>deTwin\<close>, which
  replaces pairs of siblings by their parent.

  A loop over a slice by an index that only moves forward is a recursion on the part of the
  slice not yet visited. \<open>deTwin\<close> inserts ahead of its index and is modelled with the index.
  A sorted copy is the library's \<^const>\<open>sort\<close> on \<open>uint64\<close> values, where every sorted
  permutation is the same list.
\<close>

section \<open>Comparison and sorted copies\<close>

definition uint64Cmp :: "u64 \<Rightarrow> u64 \<Rightarrow> int" where
  "uint64Cmp a b = (if a < b then - 1 else if a > b then 1 else 0)"

definition uint64Less :: "u64 \<Rightarrow> u64 \<Rightarrow> bool" where
  "uint64Less a b \<longleftrightarrow> a < b"

definition copySortedFunc :: "u64 list \<Rightarrow> u64 list" where
  "copySortedFunc xs = sort xs"

section \<open>Merge and difference of sorted slices\<close>

fun mergeSortedSlicesFunc_loop :: "('e \<Rightarrow> 'e \<Rightarrow> int) \<Rightarrow> 'e list \<Rightarrow> 'e list \<Rightarrow> 'e list" where
  "mergeSortedSlicesFunc_loop cmp [] b = b"
| "mergeSortedSlicesFunc_loop cmp (vala # a) [] = vala # a"
| "mergeSortedSlicesFunc_loop cmp (vala # a) (valb # b) =
     (if cmp vala valb = - 1 then vala # mergeSortedSlicesFunc_loop cmp a (valb # b)
      else if cmp vala valb = 1 then valb # mergeSortedSlicesFunc_loop cmp (vala # a) b
      else vala # mergeSortedSlicesFunc_loop cmp a b)"

definition mergeSortedSlicesFunc :: "'e list \<Rightarrow> 'e list \<Rightarrow> ('e \<Rightarrow> 'e \<Rightarrow> int) \<Rightarrow> 'e list" where
  "mergeSortedSlicesFunc a b cmp =
     (if length a = 0 then b
      else if length b = 0 then a
      else mergeSortedSlicesFunc_loop cmp a b)"

fun subtractSortedSlice_loop :: "('e \<Rightarrow> 'f \<Rightarrow> int) \<Rightarrow> 'e list \<Rightarrow> 'f list \<Rightarrow> 'e list" where
  "subtractSortedSlice_loop cmp [] b = []"
| "subtractSortedSlice_loop cmp (x # a) [] = x # a"
| "subtractSortedSlice_loop cmp (x # a) (y # b) =
     (let res = cmp x y
      in if res = 0 then subtractSortedSlice_loop cmp a b
         else if res = - 1 then x # subtractSortedSlice_loop cmp a (y # b)
         else if res = 1 then subtractSortedSlice_loop cmp (x # a) b
         else x # subtractSortedSlice_loop cmp a (y # b))"

definition subtractSortedSlice :: "'e list \<Rightarrow> 'f list \<Rightarrow> ('e \<Rightarrow> 'f \<Rightarrow> int) \<Rightarrow> 'e list" where
  "subtractSortedSlice a b cmp = subtractSortedSlice_loop cmp a b"

fun removeDuplicateUint64Func_loop :: "('e \<Rightarrow> u64) \<Rightarrow> u64 list \<Rightarrow> 'e list \<Rightarrow> 'e list" where
  "removeDuplicateUint64Func_loop get allKeys [] = []"
| "removeDuplicateUint64Func_loop get allKeys (item # xs) =
     (if get item \<in> set allKeys then removeDuplicateUint64Func_loop get allKeys xs
      else item # removeDuplicateUint64Func_loop get (get item # allKeys) xs)"

definition removeDuplicateUint64Func :: "'e list \<Rightarrow> ('e \<Rightarrow> u64) \<Rightarrow> 'e list" where
  "removeDuplicateUint64Func xs get = removeDuplicateUint64Func_loop get [] xs"

section \<open>Insertion and detwinning\<close>

text \<open>\<open>sort.Search\<close> of Go's library: binary search on the indices \<open>i\<close> to \<open>j\<close>.\<close>

function sort_Search_loop :: "(nat \<Rightarrow> bool) \<Rightarrow> nat \<Rightarrow> nat \<Rightarrow> nat" where
  "sort_Search_loop f i j =
     (if i < j then
        (let h = (i + j) div 2
         in if \<not> f h then sort_Search_loop f (h + 1) j else sort_Search_loop f i h)
      else i)"
  by pat_completeness auto
termination
  by (relation "measure (\<lambda>(f, i, j). j - i)") auto

declare sort_Search_loop.simps [simp del]

definition sort_Search :: "nat \<Rightarrow> (nat \<Rightarrow> bool) \<Rightarrow> nat" where
  "sort_Search n f = sort_Search_loop f 0 n"

definition insertInOrder :: "u64 list \<Rightarrow> u64 \<Rightarrow> u64 list" where
  "insertInOrder dels el =
     (let index = sort_Search (length dels) (\<lambda>i. dels ! i > el)
      in take index dels @ [el] @ drop index dels)"

lemma length_insertInOrder [simp]: "length (insertInOrder dels el) = Suc (length dels)"
  by (simp add: insertInOrder_def Let_def)

function deTwin_loop :: "u64 list \<Rightarrow> u8 \<Rightarrow> nat \<Rightarrow> u64 list" where
  "deTwin_loop dels forestRows i =
     (if i < length dels then
        (if i + 1 < length dels \<and> rightSib (dels ! i) = dels ! (i + 1)
         then (let pos = dels ! i;
                   dels1 = take i dels @ drop (i + 2) dels;
                   dels2 = insertInOrder dels1 (parent pos forestRows)
               in deTwin_loop dels2 forestRows i)
         else deTwin_loop dels forestRows (i + 1))
      else dels)"
  by pat_completeness auto
termination
  by (relation "measure (\<lambda>(dels, forestRows, i). 2 * length dels - i)") auto

declare deTwin_loop.simps [simp del]

definition deTwin :: "u64 list \<Rightarrow> u8 \<Rightarrow> u64 list" where
  "deTwin dels forestRows = deTwin_loop dels forestRows 0"

section \<open>Merging keyed lists\<close>

text \<open>
  The contract the merges of \<open>prove.go\<close> share: a merge by a key that keeps the left element
  when the keys are equal. \<open>mergeSortedSlicesFunc\<close> meets it with the elements as keys,
  \<open>mergeSortedHashAndPos\<close> with the positions as keys.
\<close>

abbreviation ascending :: "u64 list \<Rightarrow> bool" where
  "ascending \<equiv> sorted_wrt (<)"

locale keyed_merge =
  fixes key :: "'e \<Rightarrow> u64" and merge :: "'e list \<Rightarrow> 'e list \<Rightarrow> 'e list"
  assumes merge_Nil: "merge [] b = b"
    and merge_Nil2: "merge a [] = a"
    and merge_Cons: "merge (x # a) (y # b) =
      (if key x < key y then x # merge a (y # b)
       else if key y < key x then y # merge (x # a) b
       else x # merge a b)"
begin

lemma merge_keys:
  "ascending (map key a) \<Longrightarrow> ascending (map key b) \<Longrightarrow>
   key ` set (merge a b) = key ` set a \<union> key ` set b \<and> ascending (map key (merge a b))"
proof (induction "length a + length b" arbitrary: a b rule: less_induct)
  case less
  show ?case
  proof (cases a)
    case Nil then show ?thesis using less by (simp add: merge_Nil)
  next
    case a: (Cons x a')
    show ?thesis
    proof (cases b)
      case Nil then show ?thesis using less by (simp add: merge_Nil2)
    next
      case b: (Cons y b')
      note IH = less(1)[of a' b] less(1)[of a b'] less(1)[of a' b']
      show ?thesis using IH less(2,3) unfolding a b
        by (cases "key x" "key y" rule: linorder_cases) (auto simp: merge_Cons)
    qed
  qed
qed

lemma merge_set:
  "ascending (map key a) \<Longrightarrow> ascending (map key b) \<Longrightarrow>
   set (merge a b) = set a \<union> {y \<in> set b. key y \<notin> key ` set a}"
proof (induction "length a + length b" arbitrary: a b rule: less_induct)
  case less
  show ?case
  proof (cases a)
    case Nil then show ?thesis using less by (simp add: merge_Nil)
  next
    case a: (Cons x a')
    show ?thesis
    proof (cases b)
      case Nil then show ?thesis using less by (simp add: merge_Nil2)
    next
      case b: (Cons y b')
      note IH = less(1)[of a' b] less(1)[of a b'] less(1)[of a' b']
      show ?thesis using IH less(2,3) unfolding a b
        by (cases "key x" "key y" rule: linorder_cases) (auto simp: merge_Cons)
    qed
  qed
qed

end

lemma uint64Cmp_cases [simp]:
  "uint64Cmp a b = - 1 \<longleftrightarrow> a < b" "uint64Cmp a b = 1 \<longleftrightarrow> b < a" "uint64Cmp a b = 0 \<longleftrightarrow> a = b"
  by (auto simp: uint64Cmp_def)

lemma mergeSortedSlicesFunc_eq: "mergeSortedSlicesFunc a b cmp = mergeSortedSlicesFunc_loop cmp a b"
  by (cases a; cases b) (auto simp: mergeSortedSlicesFunc_def)

interpretation msl: keyed_merge "\<lambda>x. x" "\<lambda>a b. mergeSortedSlicesFunc a b uint64Cmp"
proof
  show "mergeSortedSlicesFunc a [] uint64Cmp = a" for a
    by (cases a) (auto simp: mergeSortedSlicesFunc_eq)
qed (auto simp: mergeSortedSlicesFunc_eq)

lemma mergeSortedSlicesFunc_set:
  assumes "ascending a" "ascending b"
  shows "set (mergeSortedSlicesFunc a b uint64Cmp) = set a \<union> set b"
    "ascending (mergeSortedSlicesFunc a b uint64Cmp)"
  using msl.merge_keys[of a b] assms by auto

section \<open>Differences of sorted lists\<close>

text \<open>
  The contract of \<open>subtractSortedSlice\<close> and \<open>subtractSortedHashAndPos\<close>: both walk the two
  sorted slices once and drop the elements whose key occurs in the second.
\<close>

locale keyed_difference =
  fixes key :: "'e \<Rightarrow> u64" and subtract :: "'e list \<Rightarrow> u64 list \<Rightarrow> 'e list"
  assumes subtract_Nil: "subtract [] b = []"
    and subtract_Nil2: "subtract a [] = a"
    and subtract_Cons: "subtract (x # a) (y # b) =
      (if key x = y then subtract a b
       else if key x < y then x # subtract a (y # b)
       else subtract (x # a) b)"
begin

lemma subtract_filter:
  "ascending (map key a) \<Longrightarrow> sorted b \<Longrightarrow> subtract a b = filter (\<lambda>x. key x \<notin> set b) a"
proof (induction "length a + length b" arbitrary: a b rule: less_induct)
  case less
  show ?case
  proof (cases a)
    case Nil then show ?thesis using less by (simp add: subtract_Nil)
  next
    case a: (Cons x a')
    show ?thesis
    proof (cases b)
      case Nil then show ?thesis using less by (simp add: subtract_Nil2)
    next
      case b: (Cons y b')
      note IH = less(1)[of a' b] less(1)[of a b'] less(1)[of a' b']
      show ?thesis using IH less(2,3) unfolding a b
        by (cases "key x" y rule: linorder_cases) (auto simp: subtract_Cons intro!: filter_cong)
    qed
  qed
qed

end

interpretation sbs: keyed_difference "\<lambda>x. x" "\<lambda>a b. subtractSortedSlice a b uint64Cmp"
proof
  show "subtractSortedSlice a [] uint64Cmp = a" for a
    by (cases a) (auto simp: subtractSortedSlice_def)
qed (auto simp: subtractSortedSlice_def Let_def)

lemma subtractSortedSlice_filter:
  "ascending a \<Longrightarrow> sorted b \<Longrightarrow> subtractSortedSlice a b uint64Cmp = filter (\<lambda>x. x \<notin> set b) a"
  using sbs.subtract_filter[of a b] by simp

section \<open>Duplicates, binary search and ordered insertion\<close>

lemma removeDuplicateUint64Func_loop_keys:
  "get ` set (removeDuplicateUint64Func_loop get ks xs) = get ` set xs - set ks"
  by (induction xs arbitrary: ks) auto

lemma removeDuplicateUint64Func_loop_distinct:
  "distinct (map get (removeDuplicateUint64Func_loop get ks xs))"
  by (induction xs arbitrary: ks) (auto simp: removeDuplicateUint64Func_loop_keys)

lemma sort_Search_loop_spec:
  assumes "i \<le> j" "j \<le> n" "\<forall>a b. a \<le> b \<longrightarrow> b < n \<longrightarrow> f a \<longrightarrow> f b"
    "\<forall>a<i. \<not> f a" "\<forall>a. j \<le> a \<longrightarrow> a < n \<longrightarrow> f a"
  shows "sort_Search_loop f i j \<le> n \<and> (\<forall>a < sort_Search_loop f i j. \<not> f a) \<and>
    (\<forall>a. sort_Search_loop f i j \<le> a \<longrightarrow> a < n \<longrightarrow> f a)"
  using assms
proof (induction f i j rule: sort_Search_loop.induct)
  case (1 f i j)
  show ?case
  proof (cases "i < j")
    case False
    then have e: "sort_Search_loop f i j = i" by (subst sort_Search_loop.simps) simp
    have ij: "i = j" using 1(3) False by simp
    show ?thesis unfolding e using 1(4,6,7) unfolding ij by simp
  next
    case True
    define h where "h = (i + j) div 2"
    have h: "i \<le> h" "h < j" using True by (auto simp: h_def)
    have eq: "sort_Search_loop f i j = (if \<not> f h then sort_Search_loop f (h + 1) j else sort_Search_loop f i h)"
      using True by (subst sort_Search_loop.simps) (simp add: h_def Let_def)
    show ?thesis
    proof (cases "f h")
      case f: True
      then have e: "sort_Search_loop f i j = sort_Search_loop f i h" using eq by simp
      have "\<forall>a. h \<le> a \<longrightarrow> a < n \<longrightarrow> f a" using f 1(5) by blast
      moreover have "h \<le> n" using h 1(4) by simp
      ultimately show ?thesis unfolding e using 1(2)[OF True h_def _ h(1) _ 1(5,6)] f by blast
    next
      case f: False
      then have e: "sort_Search_loop f i j = sort_Search_loop f (h + 1) j" using eq by simp
      have hn: "h < n" and hj: "h + 1 \<le> j" using h 1(4) by simp_all
      have "\<forall>a<h + 1. \<not> f a" using f 1(5) hn by (auto simp: less_Suc_eq_le)
      then show ?thesis unfolding e using 1(1)[OF True h_def f hj 1(4,5) _ 1(7)] by blast
    qed
  qed
qed

lemma sort_Search_spec:
  assumes "\<forall>a b. a \<le> b \<longrightarrow> b < n \<longrightarrow> f a \<longrightarrow> f b"
  shows "sort_Search n f \<le> n" "a < sort_Search n f \<Longrightarrow> \<not> f a" "sort_Search n f \<le> a \<Longrightarrow> a < n \<Longrightarrow> f a"
  using sort_Search_loop_spec[of 0 n n f] assms by (auto simp: sort_Search_def)

lemma insertInOrder_parts:
  assumes "sorted dels"
  obtains xs ys where "dels = xs @ ys" "insertInOrder dels el = xs @ el # ys"
    "\<forall>x \<in> set xs. x \<le> el" "\<forall>y \<in> set ys. el < y"
proof -
  define k where "k = sort_Search (length dels) (\<lambda>i. dels ! i > el)"
  have mono: "\<forall>a b. a \<le> b \<longrightarrow> b < length dels \<longrightarrow> el < dels ! a \<longrightarrow> el < dels ! b"
    using sorted_nth_mono[OF assms] by (meson order_less_le_trans)
  note sp = sort_Search_spec[OF mono, folded k_def]
  have "\<forall>x \<in> set (take k dels). x \<le> el" using sp(1,2) by (auto simp: in_set_conv_nth not_less)
  moreover have "\<forall>y \<in> set (drop k dels). el < y" using sp(1,3) by (auto simp: in_set_conv_nth)
  moreover have "insertInOrder dels el = take k dels @ el # drop k dels"
    by (simp add: insertInOrder_def k_def Let_def)
  ultimately show ?thesis using that[of "take k dels" "drop k dels"] by simp
qed

lemma insertInOrder_sorted:
  assumes "sorted dels" shows "sorted (insertInOrder dels el)" "set (insertInOrder dels el) = insert el (set dels)"
proof -
  obtain xs ys where "dels = xs @ ys" "insertInOrder dels el = xs @ el # ys"
    "\<forall>x \<in> set xs. x \<le> el" "\<forall>y \<in> set ys. el < y" using insertInOrder_parts[OF assms] by blast
  then show "sorted (insertInOrder dels el)" "set (insertInOrder dels el) = insert el (set dels)"
    using assms by (auto simp: sorted_append intro: order_less_imp_le)
qed

lemma insertInOrder_ascending:
  assumes "ascending dels" "el \<notin> set dels" shows "ascending (insertInOrder dels el)"
proof -
  have "sorted dels" using assms(1) by (simp add: strict_sorted_iff)
  then obtain xs ys where "dels = xs @ ys" "insertInOrder dels el = xs @ el # ys"
    "\<forall>x \<in> set xs. x \<le> el" "\<forall>y \<in> set ys. el < y" using insertInOrder_parts by blast
  moreover have "x \<noteq> el" if "x \<in> set dels" for x using that assms(2) by blast
  ultimately show ?thesis using assms(1) by (auto simp: sorted_wrt_append order_less_le)
qed

end
