(* ===== verification/ProofPositions.thy ===== *)
theory ProofPositions
  imports ForestShape Slices
begin

text \<open>
  Which positions a proof needs: \<open>getNextPos\<close> and \<open>nextLeastSlice\<close> of \<open>prove.go\<close>,
  \<open>proofPosition\<close> and \<open>proofPositions\<close> of \<open>utils.go\<close>.

  \<open>proofPositions\<close> climbs from the sorted targets to the roots, keeping the parents it has
  reached in a second sorted slice and taking the smaller head of the two. The theory \<open>Climb\<close>
  shows that it visits exactly the targets and their ancestors (\<open>climbs\<close>), in ascending order,
  two siblings at a time, and returns the siblings that are not among them.
\<close>

section \<open>The functions\<close>

definition getNextLeast :: "'e list \<Rightarrow> 'e list \<Rightarrow> ('e \<Rightarrow> 'e \<Rightarrow> bool) \<Rightarrow> int" where
  "getNextLeast xs ys lt =
     (if length xs > 0 \<and> length ys > 0 then (if lt (xs ! 0) (ys ! 0) then 0 else 1)
      else if length xs > 0 \<and> length ys = 0 then 0
      else if length xs = 0 \<and> length ys > 0 then 1
      else - 1)"

definition nextLeastSlice :: "u64 list \<Rightarrow> u64 list \<Rightarrow> nat \<Rightarrow> nat \<Rightarrow> int" where
  "nextLeastSlice xs ys idx1 idx2 =
     (if length xs > idx1 \<and> length ys > idx2 then (if xs ! idx1 < ys ! idx2 then 0 else 1)
      else if length xs > idx1 \<and> length ys \<le> idx2 then 0
      else if length xs \<le> idx1 \<and> length ys > idx2 then 1
      else - 1)"

text \<open>The sibling of \<open>getNextPos\<close>, looked for after the position itself is consumed.\<close>

definition getNextSib :: "u64 \<Rightarrow> u64 list \<Rightarrow> u64 list \<Rightarrow> nat \<Rightarrow> nat \<Rightarrow> int" where
  "getNextSib pos xs ys idx1 idx2 =
     (let sibIdx = nextLeastSlice xs ys idx1 idx2
      in if sibIdx = 0 then (if rightSib pos \<noteq> xs ! idx1 then - 1 else sibIdx)
         else if sibIdx = 1 then (if rightSib pos \<noteq> ys ! idx2 then - 1 else sibIdx)
         else sibIdx)"

definition getNextPos :: "u64 list \<Rightarrow> u64 list \<Rightarrow> nat \<Rightarrow> nat \<Rightarrow> u64 \<times> int \<times> int" where
  "getNextPos xs ys idx1 idx2 =
     (let idx = nextLeastSlice xs ys idx1 idx2
      in if idx = 0 then (xs ! idx1, idx, getNextSib (xs ! idx1) xs ys (idx1 + 1) idx2)
         else if idx = 1 then (ys ! idx2, idx, getNextSib (ys ! idx2) xs ys idx1 (idx2 + 1))
         else (0, - 1, - 1))"

partial_function (option) proofPosition_loop ::
  "u64 \<Rightarrow> u8 \<Rightarrow> u64 \<Rightarrow> u8 \<Rightarrow> u64 list \<Rightarrow> u64 list option" where
  [code]: "proofPosition_loop numLeaves totalRows pos h proofs =
     (if h \<le> totalRows then
        (if isRootPositionTotalRows pos numLeaves totalRows then Some proofs
         else proofPosition_loop numLeaves totalRows (parent pos totalRows) (h + 1)
                (proofs @ [sibling pos]))
      else Some proofs)"

definition proofPosition :: "u64 \<Rightarrow> u64 \<Rightarrow> u8 \<Rightarrow> u64 list result" where
  "proofPosition target numLeaves totalRows =
     returns (proofPosition_loop numLeaves totalRows target (detectRow target totalRows) [])"

partial_function (option) possibleRow_loop :: "u64 \<Rightarrow> u8 \<Rightarrow> u8 \<Rightarrow> u8 option" where
  [code]: "possibleRow_loop target totalRows row =
     (if target > maxPossiblePosAtRow row totalRows \<and> row \<le> totalRows
      then possibleRow_loop target totalRows (row + 1)
      else Some row)"

partial_function (option) proofPositions_loop ::
  "u64 list \<Rightarrow> u64 \<Rightarrow> u8 \<Rightarrow> u8 \<Rightarrow> nat \<Rightarrow> nat \<Rightarrow> u64 list \<Rightarrow> u64 list \<Rightarrow> (u64 list \<times> u64 list) option" where
  [code]: "proofPositions_loop targets numLeaves totalRows row targetsIdx nextTargetsIdx nextTargets proofs =
     (if row \<le> totalRows then
        (let (target, idx, sibIdx) = getNextPos targets nextTargets targetsIdx nextTargetsIdx
         in if idx = - 1 then Some (proofs, nextTargets)
            else (let targetsIdx1 = (if idx = 0 then targetsIdx + 1 else targetsIdx);
                      nextTargetsIdx1 = (if idx = 0 then nextTargetsIdx else nextTargetsIdx + 1)
                  in Option.bind (possibleRow_loop target totalRows row) (\<lambda>row1.
                     if row1 > totalRows then Some (proofs, nextTargets)
                     else if isRootPositionOnRowTotalRows target numLeaves row1 totalRows
                     then proofPositions_loop targets numLeaves totalRows row1 targetsIdx1 nextTargetsIdx1
                            nextTargets proofs
                     else (let sibPresent = sibIdx \<noteq> - 1
                           in proofPositions_loop targets numLeaves totalRows row1
                                (if sibPresent \<and> sibIdx = 0 then targetsIdx1 + 1 else targetsIdx1)
                                (if sibPresent \<and> sibIdx \<noteq> 0 \<and> sibIdx = 1 then nextTargetsIdx1 + 1 else nextTargetsIdx1)
                                (nextTargets @ [parent target totalRows])
                                (if sibPresent then proofs else proofs @ [sibling target])))))
      else Some (proofs, nextTargets))"

definition proofPositions :: "u64 list \<Rightarrow> u64 \<Rightarrow> u8 \<Rightarrow> (u64 list \<times> u64 list) result" where
  "proofPositions targets numLeaves totalRows =
     returns (proofPositions_loop targets numLeaves totalRows 0 0 0 [] [])"

end
