(* ===== verification/Climb.thy ===== *)
theory Climb
  imports ForestNodes ProofPositions
begin

text \<open>
  The climb from a set of targets to the roots. The functions that compute proofs walk through
  the targets and their ancestors (\<open>climbs\<close>) in ascending order, with two slices and two
  indices. Their state is determined by a cut: the positions below the cut are done. The lemmas
  give the next position at a cut (\<open>climb_next\<close>), the next cut (\<open>climb_advance\<close>) and how the
  slices and indices change (\<open>climb_lists\<close>, \<open>climb_counts\<close>); \<open>proofPositions_eq\<close> is their first
  use.
\<close>

unbundle bit_operations_syntax

section \<open>Indices into ascending lists\<close>

definition cnt :: "u64 list \<Rightarrow> nat \<Rightarrow> nat" where
  "cnt xs x = length (filter (\<lambda>t. unat t < x) xs)"

lemma cnt_simps [simp]: "cnt [] x = 0" "cnt (t # xs) x = of_bool (unat t < x) + cnt xs x"
  "cnt (xs @ ys) x = cnt xs x + cnt ys x" "cnt xs 0 = 0"
  by (auto simp: cnt_def)

lemma cnt_le: "cnt xs x \<le> length xs"
  by (simp add: cnt_def)

lemma cnt_mono: "x \<le> y \<Longrightarrow> cnt xs x \<le> cnt xs y"
  by (induction xs) auto

lemma cnt_0I: "\<forall>t \<in> set xs. x \<le> unat t \<Longrightarrow> cnt xs x = 0"
  by (auto simp: cnt_def filter_empty_conv)

lemma cnt_nth:
  assumes "ascending xs" "t \<in> set xs" shows "xs ! cnt xs (unat t) = t" "cnt xs (unat t) < length xs"
proof -
  have "xs ! cnt xs (unat t) = t \<and> cnt xs (unat t) < length xs" using assms
  proof (induction xs)
    case (Cons u xs)
    show ?case
    proof (cases "t = u")
      case True
      then have "cnt xs (unat t) = 0" using Cons.prems by (intro cnt_0I) (auto simp: word_less_nat_alt less_imp_le)
      then show ?thesis using True by simp
    next
      case False then show ?thesis using Cons by (auto simp: word_less_nat_alt)
    qed
  qed simp
  then show "xs ! cnt xs (unat t) = t" "cnt xs (unat t) < length xs" by auto
qed

lemma cnt_of_nth:
  assumes "ascending xs" "k < length xs" shows "cnt xs (unat (xs ! k)) = k"
proof -
  have "distinct xs" using assms(1) by (simp add: strict_sorted_iff)
  then show ?thesis
    using cnt_nth[OF assms(1), of "xs ! k"] assms(2) nth_eq_iff_index_eq[of xs _ k] by simp
qed

lemma cnt_gap: "\<forall>t \<in> set xs. unat t < x \<or> y \<le> unat t \<Longrightarrow> x \<le> y \<Longrightarrow> cnt xs x = cnt xs y"
  unfolding cnt_def by (intro arg_cong[of _ _ length] filter_cong) auto

lemma cnt_Suc: "ascending xs \<Longrightarrow> cnt xs (Suc (unat t)) = cnt xs (unat t) + of_bool (t \<in> set xs)"
proof (induction xs)
  case (Cons u xs)
  have "unat u = unat t \<longleftrightarrow> u = t" by (auto intro: unat_word_eqI)
  then show ?case using Cons by (cases "u = t") (auto simp: less_Suc_eq)
qed simp

lemma cnt_all: "\<forall>t \<in> set xs. unat t < x \<Longrightarrow> cnt xs x = length xs"
  by (auto simp: cnt_def)

lemma cnt_least:
  assumes "ascending xs" "p \<in> set xs" "x \<le> unat p" "\<forall>a \<in> set xs. x \<le> unat a \<longrightarrow> p \<le> a"
  shows "xs ! cnt xs x = p" "cnt xs x < length xs"
proof -
  have "cnt xs x = cnt xs (unat p)" using assms(3,4)
    by (intro cnt_gap) (auto simp: word_le_nat_alt not_less[symmetric])
  then show "xs ! cnt xs x = p" "cnt xs x < length xs" using cnt_nth[OF assms(1,2)] by auto
qed

section \<open>The next position\<close>

lemma nextLeastSlice_none:
  assumes "\<forall>a \<in> set xs \<union> set ys. unat a < x" shows "nextLeastSlice xs ys (cnt xs x) (cnt ys x) = - 1"
  using assms by (simp add: nextLeastSlice_def cnt_all)

lemma nextLeastSlice_some:
  assumes "ascending xs" "ascending ys" "set xs \<inter> set ys = {}" "p \<in> set xs \<union> set ys" "x \<le> unat p"
    "\<forall>a \<in> set xs \<union> set ys. x \<le> unat a \<longrightarrow> p \<le> a"
  shows "nextLeastSlice xs ys (cnt xs x) (cnt ys x) = (if p \<in> set xs then 0 else 1)"
    "p \<in> set xs \<Longrightarrow> xs ! cnt xs x = p" "p \<in> set ys \<Longrightarrow> ys ! cnt ys x = p"
proof -
  show a: "p \<in> set xs \<Longrightarrow> xs ! cnt xs x = p" and b: "p \<in> set ys \<Longrightarrow> ys ! cnt ys x = p"
    using cnt_least[of _ p x] assms by auto
  have al: "p \<in> set xs \<Longrightarrow> cnt xs x < length xs" and bl: "p \<in> set ys \<Longrightarrow> cnt ys x < length ys"
    using cnt_least[of _ p x] assms by auto
  have other: "zs ! cnt zs x > p" if "ascending zs" "p \<notin> set zs" "set zs \<subseteq> set xs \<union> set ys" "cnt zs x < length zs" for zs
  proof -
    have m: "zs ! cnt zs x \<in> set zs" using that(4) by simp
    have "x \<le> unat (zs ! cnt zs x)"
    proof (rule ccontr)
      assume "\<not> ?thesis"
      then have l: "unat (zs ! cnt zs x) < x" by simp
      have "cnt zs (Suc (unat (zs ! cnt zs x))) \<le> cnt zs x"
        using l by (intro cnt_mono) simp
      then show False
        using cnt_Suc[OF that(1), of "zs ! cnt zs x"] m cnt_of_nth[OF that(1,4)] by simp
    qed
    then show ?thesis using assms(6) m that(2,3) by (metis order_neq_le_trans subsetD)
  qed
  show "nextLeastSlice xs ys (cnt xs x) (cnt ys x) = (if p \<in> set xs then 0 else 1)"
  proof (cases "p \<in> set xs")
    case True
    then have "p \<notin> set ys" using assms(3) by auto
    then show ?thesis using True a al other[of ys] assms(2) by (auto simp: nextLeastSlice_def)
  next
    case False
    then have "p \<in> set ys" using assms(4) by auto
    then show ?thesis using False b bl other[of xs] assms(1) by (auto simp: nextLeastSlice_def)
  qed
qed

lemma rightSib_cases: "rightSib p = p \<or> unat (rightSib p) = Suc (unat p)"
  by (cases "even (unat p)") (auto simp: rightSib_def unat_or_1 intro: unat_word_eqI)

lemma getNextSib_eq:
  assumes "ascending xs" "ascending ys" "set xs \<inter> set ys = {}"
  shows "getNextSib p xs ys (cnt xs (Suc (unat p))) (cnt ys (Suc (unat p))) =
    (if rightSib p \<noteq> p \<and> rightSib p \<in> set xs \<union> set ys then (if rightSib p \<in> set xs then 0 else 1) else - 1)"
proof -
  let ?y = "Suc (unat p)" and ?A = "set xs \<union> set ys"
  have big: "?y \<le> unat (rightSib p)" if "rightSib p \<noteq> p" using rightSib_cases[of p] that by auto
  show ?thesis
  proof (cases "\<exists>a \<in> ?A. ?y \<le> unat a")
    case False
    then have "nextLeastSlice xs ys (cnt xs ?y) (cnt ys ?y) = - 1"
      by (intro nextLeastSlice_none) (auto simp: not_le)
    moreover have "rightSib p \<noteq> p \<longrightarrow> rightSib p \<notin> ?A" using False big by auto
    ultimately show ?thesis by (auto simp: getNextSib_def)
  next
    case True
    let ?B = "{a \<in> ?A. ?y \<le> unat a}"
    have fin: "finite ?B" "?B \<noteq> {}" using True by auto
    define q where "q = Min ?B"
    have q: "q \<in> ?A" "?y \<le> unat q" using Min_in[OF fin] by (auto simp: q_def)
    have least: "\<forall>a \<in> ?A. ?y \<le> unat a \<longrightarrow> q \<le> a" using Min_le[OF fin(1)] by (auto simp: q_def)
    note nls = nextLeastSlice_some[OF assms q least]
    have iff: "rightSib p = q \<longleftrightarrow> rightSib p \<noteq> p \<and> rightSib p \<in> ?A"
    proof
      assume "rightSib p = q" then show "rightSib p \<noteq> p \<and> rightSib p \<in> ?A" using q by auto
    next
      assume r: "rightSib p \<noteq> p \<and> rightSib p \<in> ?A"
      then have "q \<le> rightSib p" using least big by blast
      moreover have "unat (rightSib p) = ?y" using rightSib_cases[of p] r by auto
      ultimately show "rightSib p = q" using q(2) by (auto simp: word_le_nat_alt intro: unat_word_eqI)
    qed
    show ?thesis
    proof (cases "q \<in> set xs")
      case True then show ?thesis using nls iff by (auto simp: getNextSib_def)
    next
      case False
      then have "q \<in> set ys" using q by auto
      then show ?thesis using False nls iff by (auto simp: getNextSib_def)
    qed
  qed
qed

lemma getNextPos_none:
  "\<forall>a \<in> set xs \<union> set ys. unat a < x \<Longrightarrow> getNextPos xs ys (cnt xs x) (cnt ys x) = (0, - 1, - 1)"
  using nextLeastSlice_none[of xs ys x] by (simp add: getNextPos_def Let_def)

lemma cnt_step:
  assumes "ascending xs" "x \<le> unat p" "\<forall>a \<in> set xs. x \<le> unat a \<longrightarrow> p \<le> a"
  shows "cnt xs (Suc (unat p)) = cnt xs x + of_bool (p \<in> set xs)"
proof -
  have "cnt xs x = cnt xs (unat p)" using assms by (intro cnt_gap) (auto simp: word_le_nat_alt not_less[symmetric])
  then show ?thesis using cnt_Suc[OF assms(1), of p] by simp
qed

lemma getNextPos_some:
  assumes "ascending xs" "ascending ys" "set xs \<inter> set ys = {}" "p \<in> set xs \<union> set ys" "x \<le> unat p"
    "\<forall>a \<in> set xs \<union> set ys. x \<le> unat a \<longrightarrow> p \<le> a"
  shows "getNextPos xs ys (cnt xs x) (cnt ys x) = (p, if p \<in> set xs then 0 else 1,
     if rightSib p \<noteq> p \<and> rightSib p \<in> set xs \<union> set ys then (if rightSib p \<in> set xs then 0 else 1) else - 1)"
proof -
  note nls = nextLeastSlice_some[OF assms]
  have c: "cnt xs (Suc (unat p)) = cnt xs x + of_bool (p \<in> set xs)"
    "cnt ys (Suc (unat p)) = cnt ys x + of_bool (p \<in> set ys)"
    using cnt_step[OF assms(1,5)] cnt_step[OF assms(2,5)] assms(6) by auto
  note sib = getNextSib_eq[OF assms(1-3), of p, unfolded c]
  show ?thesis
  proof (cases "p \<in> set xs")
    case True
    then have "p \<notin> set ys" using assms(3) by auto
    then show ?thesis using True nls sib by (simp add: getNextPos_def)
  next
    case False
    then have "p \<in> set ys" using assms(4) by auto
    then show ?thesis using False nls sib by (simp add: getNextPos_def)
  qed
qed

section \<open>Climbing from the targets to the roots\<close>

inductive_set climbs :: "u64 \<Rightarrow> u8 \<Rightarrow> u64 set \<Rightarrow> u64 set" for n F T where
  target: "t \<in> T \<Longrightarrow> t \<in> climbs n F T"
| up: "p \<in> climbs n F T \<Longrightarrow> \<not> root n F p \<Longrightarrow> parent p F \<in> climbs n F T"

text \<open>What a proof assumes of its targets: they are nodes of the forest, sorted, and none lies
  under another.\<close>

definition targets_ok :: "u64 \<Rightarrow> u8 \<Rightarrow> u64 list \<Rightarrow> bool" where
  "targets_ok n F T \<longleftrightarrow> fits n F \<and> (\<forall>t \<in> set T. node n F t) \<and>
     (\<forall>s \<in> set T. \<forall>t \<in> set T. \<not> isAncestor s t F)"

lemma climbs_node:
  assumes "fits n F" "\<forall>t \<in> T. node n F t" "c \<in> climbs n F T" shows "node n F c"
  using assms(3) by induction (auto simp: assms(2) intro: parent_node[OF assms(1)])

lemma climbs_cases:
  "c \<in> climbs n F T \<longleftrightarrow> c \<in> T \<or> (\<exists>d \<in> climbs n F T. \<not> root n F d \<and> c = parent d F)"
  by (subst climbs.simps) auto

lemma place_ancestor:
  assumes "fits n F" "place n F p h r o'" "place n F q h' s u"
  shows "isAncestor q p F \<longleftrightarrow> r < s \<and> u = o' div 2 ^ (s - r)"
  using assms place_row(4)[OF assms(1,2)] place_row(4)[OF assms(1,3)]
    isAncestor_posn[of F s u r o'] by (auto simp: place_def fits_def)

lemma parent_ancestor:
  assumes "fits n F" "node n F t" "node n F d" "\<not> root n F d" "d = t \<or> isAncestor d t F"
  shows "isAncestor (parent d F) t F"
proof -
  obtain h r o' where d: "place n F d h r o'" "r < h" using inner[OF assms(1,3,4)] .
  obtain h' s u where t: "place n F t h' s u" using node_place[OF assms(1,2)] .
  note pd = node_parent[OF assms(1) d]
  show ?thesis
  proof (cases "d = t")
    case True
    then have "posn (unat F) s u = posn (unat F) r o'" using d(1) t by (simp only: place_def)
    then have "s = r \<and> u = o'"
      by (rule posn_inject[OF place_row(4)[OF assms(1) t] place_row(4)[OF assms(1) d(1)], rotated])
        (use assms(1) in \<open>simp add: fits_def\<close>)
    then show ?thesis using place_ancestor[OF assms(1) t pd] by simp
  next
    case False
    then have "s < r" "o' = u div 2 ^ (r - s)" using assms(5) place_ancestor[OF assms(1) t d(1)] by auto
    then have "o' div 2 = u div 2 ^ (Suc r - s)"
      by (simp add: Suc_diff_le div_mult2_eq[symmetric] mult.commute)
    then show ?thesis using place_ancestor[OF assms(1) t pd] \<open>s < r\<close> by simp
  qed
qed

lemma climbs_ancestor:
  assumes "fits n F" "\<forall>t \<in> T. node n F t" "c \<in> climbs n F T"
  shows "\<exists>t \<in> T. c = t \<or> isAncestor c t F"
  using assms(3)
proof induction
  case (up p)
  then obtain t where t: "t \<in> T" "p = t \<or> isAncestor p t F" by auto
  then show ?case
    using parent_ancestor[OF assms(1), of t p] climbs_node[OF assms(1,2) up(1)] up(2) assms(2) by blast
qed auto

lemma target_not_parent:
  assumes "targets_ok n F T" "d \<in> climbs n F (set T)" "\<not> root n F d" shows "parent d F \<notin> set T"
proof
  assume a: "parent d F \<in> set T"
  have f: "fits n F" "\<forall>t \<in> set T. node n F t" using assms(1) by (auto simp: targets_ok_def)
  obtain t where t: "t \<in> set T" "d = t \<or> isAncestor d t F" using climbs_ancestor[OF f assms(2)] by blast
  then have "isAncestor (parent d F) t F"
    using parent_ancestor[OF f(1), of t d] f(2) climbs_node[OF f assms(2)] assms(3) by blast
  then show False using a t(1) assms(1) by (auto simp: targets_ok_def)
qed

definition climbL :: "u64 \<Rightarrow> u8 \<Rightarrow> u64 list \<Rightarrow> u64 list" where
  "climbL n F T = sorted_list_of_set (climbs n F (set T))"

definition heads :: "u64 \<Rightarrow> u8 \<Rightarrow> u64 set \<Rightarrow> u64 list \<Rightarrow> u64 list" where
  "heads n F C cs = filter (\<lambda>c. \<not> root n F c \<and> (isLeftNiece c \<or> sibling c \<notin> C)) cs"

definition nexts :: "u64 \<Rightarrow> u8 \<Rightarrow> u64 set \<Rightarrow> u64 list \<Rightarrow> u64 list" where
  "nexts n F C cs = map (\<lambda>c. parent c F) (heads n F C cs)"

definition needs :: "u64 \<Rightarrow> u8 \<Rightarrow> u64 set \<Rightarrow> u64 list \<Rightarrow> u64 list" where
  "needs n F C cs = map sibling (filter (\<lambda>c. \<not> root n F c \<and> sibling c \<notin> C) cs)"

abbreviation below :: "nat \<Rightarrow> u64 list \<Rightarrow> u64 list" where
  "below x cs \<equiv> filter (\<lambda>c. unat c < x) cs"

definition cut :: "u64 \<Rightarrow> u8 \<Rightarrow> u64 set \<Rightarrow> nat \<Rightarrow> bool" where
  "cut n F C x \<longleftrightarrow> (\<forall>c \<in> C. \<not> root n F c \<longrightarrow> unat c < x \<longrightarrow> sibling c \<in> C \<longrightarrow> unat (sibling c) < x)"

lemma climbL_set [simp]: "set (climbL n F T) = climbs n F (set T)" "ascending (climbL n F T)"
  by (simp_all add: climbL_def)

lemma ascending_filter: "ascending xs \<Longrightarrow> ascending (filter P xs)"
  by (rule sorted_wrt_filter)

lemma below_Suc:
  assumes "ascending cs" "p \<in> set cs" "x \<le> unat p" "\<forall>c \<in> set cs. x \<le> unat c \<longrightarrow> p \<le> c"
  shows "below (Suc (unat p)) cs = below x cs @ [p]"
proof (rule strict_sorted_equal)
  show "ascending (below (Suc (unat p)) cs)" using assms(1) by (rule ascending_filter)
  show "ascending (below x cs @ [p])" using assms(1,3)
    by (auto simp: sorted_wrt_append ascending_filter word_less_nat_alt)
  have "unat c < Suc (unat p) \<longleftrightarrow> unat c < x \<or> c = p" if "c \<in> set cs" for c
    using assms(3,4) that unat_word_eqI[of c p] by (force simp: word_le_nat_alt)
  then show "set (below (Suc (unat p)) cs) = set (below x cs @ [p])" using assms(2) by auto
qed

lemma below_all: "\<forall>c \<in> set cs. unat c < x \<Longrightarrow> below x cs = cs"
  by simp

lemma set_nexts:
  assumes "targets_ok n F T" "C = climbs n F (set T)"
  shows "set (nexts n F C (below x (climbL n F T))) = (\<lambda>c. parent c F) ` {d \<in> C. \<not> root n F d \<and> unat d < x}"
proof -
  have f: "fits n F" "\<forall>t \<in> set T. node n F t" using assms(1) by (auto simp: targets_ok_def)
  have "\<exists>e. e \<in> C \<and> \<not> root n F e \<and> unat e < x \<and> (isLeftNiece e \<or> sibling e \<notin> C) \<and> parent d F = parent e F"
    if d: "d \<in> C" "\<not> root n F d" "unat d < x" for d
  proof (cases "isLeftNiece d \<or> sibling d \<notin> C")
    case True then show ?thesis using d by blast
  next
    case False
    have "node n F d" using climbs_node[OF f] d(1) assms(2) by blast
    note s = sibling_node[OF f(1) this d(2)]
    have "unat (sibling d) < x" using s(6) False d(3) by auto
    then show ?thesis using False s d by (intro exI[of _ "sibling d"]) auto
  qed
  then show ?thesis using assms(2) by (auto simp: nexts_def heads_def)
qed

lemma ascending_nexts:
  assumes "targets_ok n F T" "C = climbs n F (set T)"
  shows "ascending (nexts n F C (below x (climbL n F T)))"
proof -
  have f: "fits n F" "\<forall>t \<in> set T. node n F t" using assms(1) by (auto simp: targets_ok_def)
  have "parent c F < parent d F" if "c < d" "c \<in> C" "d \<in> C" "\<not> root n F c" "\<not> root n F d"
    "isLeftNiece d \<or> sibling d \<notin> C" for c d
    using parent_mono[OF f(1) _ that(4) _ that(5,1)] climbs_node[OF f] that(2,3,6) assms(2)
      sibling_node(4)[OF f(1) _ that(4)] by auto
  then show ?thesis unfolding nexts_def heads_def sorted_wrt_map
    by (intro sorted_wrt_mono_rel[OF _ ascending_filter[OF ascending_filter[OF climbL_set(2)]]])
      (auto simp: assms(2))
qed

lemma nexts_disjoint:
  assumes "targets_ok n F T" "C = climbs n F (set T)"
  shows "set T \<inter> set (nexts n F C (below x (climbL n F T))) = {}"
  unfolding set_nexts[OF assms] using target_not_parent[OF assms(1)] assms(2) by auto

lemma least_above:
  assumes "\<exists>c \<in> C. x \<le> unat (c::u64)"
  obtains p where "p \<in> C" "x \<le> unat p" "\<forall>c \<in> C. x \<le> unat c \<longrightarrow> p \<le> c"
proof -
  let ?B = "{c \<in> C. x \<le> unat c}"
  have B: "finite ?B" "?B \<noteq> {}" using assms by auto
  define q where "q = Min ?B"
  have "q \<in> ?B" unfolding q_def using B by (rule Min_in)
  then have "q \<in> C" "x \<le> unat q" by auto
  moreover have "\<forall>c \<in> C. x \<le> unat c \<longrightarrow> q \<le> c" unfolding q_def using B(1) by (auto intro: Min_le)
  ultimately show ?thesis by (rule that)
qed

lemma pending_member:
  assumes "targets_ok n F T" "C = climbs n F (set T)" "c \<in> C"
    "\<And>d. d \<in> C \<Longrightarrow> \<not> root n F d \<Longrightarrow> c = parent d F \<Longrightarrow> unat d < x"
  shows "c \<in> set T \<union> set (nexts n F C (below x (climbL n F T)))"
proof (cases "c \<in> set T")
  case False
  then obtain d where d: "d \<in> C" "\<not> root n F d" "c = parent d F"
    using assms(3) climbs_cases[of c n F "set T"] by (auto simp: assms(2))
  then have "d \<in> {d \<in> C. \<not> root n F d \<and> unat d < x}" using assms(4) by simp
  then show ?thesis unfolding set_nexts[OF assms(1,2)] using d(3) by (intro UnI2 image_eqI)
qed simp

lemma least_sibling:
  assumes "targets_ok n F T" "C = climbs n F (set T)" "cut n F C x"
    "p \<in> C" "x \<le> unat p" "\<forall>c \<in> C. x \<le> unat c \<longrightarrow> p \<le> c" "\<not> root n F p"
  shows "node n F p" "sibling p \<in> C \<Longrightarrow> isLeftNiece p"
proof -
  have f: "fits n F" "\<forall>t \<in> set T. node n F t" using assms(1) by (auto simp: targets_ok_def)
  show nd: "node n F p" using climbs_node[OF f] assms(2,4) by blast
  note s = sibling_node[OF f(1) nd assms(7)]
  assume a: "sibling p \<in> C"
  show "isLeftNiece p"
  proof (rule ccontr)
    assume r: "\<not> isLeftNiece p"
    then have "unat (sibling p) < unat p" using s(6) by simp
    then have "unat (sibling p) < x" using assms(6) a by (auto simp: word_le_nat_alt not_less[symmetric])
    then have "unat (sibling (sibling p)) < x" using assms(3,4) a s(2) by (auto simp: cut_def)
    then show False using assms(5) by simp
  qed
qed

lemma climb_next:
  assumes "targets_ok n F T" "ascending T" "C = climbs n F (set T)" "cut n F C x"
    "p \<in> C" "x \<le> unat p" "\<forall>c \<in> C. x \<le> unat c \<longrightarrow> p \<le> c"
    "N = nexts n F C (below x (climbL n F T))"
  shows "\<exists>s. getNextPos T N (cnt T x) (cnt N x) = (p, if p \<in> set T then 0 else 1, s) \<and>
    (\<not> root n F p \<longrightarrow> s = (if sibling p \<in> C then (if sibling p \<in> set T then 0 else 1) else - 1))"
    "p \<in> set T \<union> set N" "set T \<inter> set N = {}"
    "\<not> root n F p \<Longrightarrow> sibling p \<in> C \<Longrightarrow> sibling p \<in> set T \<union> set N"
proof -
  have f: "fits n F" "\<forall>t \<in> set T. node n F t" using assms(1) by (auto simp: targets_ok_def)
  have nd: "\<And>c. c \<in> C \<Longrightarrow> node n F c" using climbs_node[OF f] assms(3) by blast
  have TN: "set T \<union> set N \<subseteq> C"
    using assms(3) unfolding assms(8) set_nexts[OF assms(1,3)] by (auto intro: climbs.intros)
  show dj: "set T \<inter> set N = {}" unfolding assms(8) by (rule nexts_disjoint[OF assms(1,3)])
  show p: "p \<in> set T \<union> set N" unfolding assms(8)
  proof (rule pending_member[OF assms(1,3,5)])
    fix d assume d: "d \<in> C" "\<not> root n F d" "p = parent d F"
    then have "d < p" using parent_node(2)[OF f(1) nd[OF d(1)] d(2)] by simp
    then show "unat d < x" using assms(7) d(1) by (auto simp: not_le[symmetric])
  qed
  show sib: "sibling p \<in> set T \<union> set N" if r: "\<not> root n F p" "sibling p \<in> C"
    unfolding assms(8)
  proof (rule pending_member[OF assms(1,3) r(2)])
    fix d assume d: "d \<in> C" "\<not> root n F d" "sibling p = parent d F"
    note l = least_sibling[OF assms(1,3,4,5,6,7) r(1)]
    note s = sibling_node[OF f(1) l(1) r(1)]
    have "d < sibling p" using parent_node(2)[OF f(1) nd[OF d(1)] d(2)] d(3) by simp
    then have le: "unat d \<le> unat p" using s(5) l(2)[OF r(2)] by (simp add: word_less_nat_alt)
    moreover have "sibling p < parent p F" using parent_node(2)[OF f(1) s(1,2)] s(3) by simp
    then have "d \<noteq> p" using d(3) by auto
    ultimately have "d < p" using unat_word_eqI[of d p] by (auto simp: word_less_nat_alt order_le_less)
    then show "unat d < x" using assms(7) d(1) by (auto simp: not_le[symmetric])
  qed
  have N: "ascending N" unfolding assms(8) by (rule ascending_nexts[OF assms(1,3)])
  have least: "\<forall>a \<in> set T \<union> set N. x \<le> unat a \<longrightarrow> p \<le> a" using assms(7) TN by blast
  have "(if rightSib p \<noteq> p \<and> rightSib p \<in> set T \<union> set N then (if rightSib p \<in> set T then 0 else 1) else - 1 :: int) =
     (if sibling p \<in> C then (if sibling p \<in> set T then 0 else 1) else - 1)" if r: "\<not> root n F p"
  proof -
    note l = least_sibling[OF assms(1,3,4,5,6,7) r]
    note s = sibling_node[OF f(1) l(1) r]
    show ?thesis using sib[OF r] l(2) s(5,6) TN by (cases "isLeftNiece p") auto
  qed
  then show "\<exists>s. getNextPos T N (cnt T x) (cnt N x) = (p, if p \<in> set T then 0 else 1, s) \<and>
    (\<not> root n F p \<longrightarrow> s = (if sibling p \<in> C then (if sibling p \<in> set T then 0 else 1) else - 1))"
    using getNextPos_some[OF assms(2) N dj p assms(6) least] by auto
qed

text \<open>The cut after the position \<open>p\<close> is processed, together with its sibling if that is visited too.\<close>

definition advance :: "u64 \<Rightarrow> u8 \<Rightarrow> u64 set \<Rightarrow> u64 \<Rightarrow> nat" where
  "advance n F C p = (if \<not> root n F p \<and> sibling p \<in> C then Suc (Suc (unat p)) else Suc (unat p))"

lemma climb_advance:
  assumes "targets_ok n F T" "C = climbs n F (set T)" "cut n F C x"
    "p \<in> C" "x \<le> unat p" "\<forall>c \<in> C. x \<le> unat c \<longrightarrow> p \<le> c"
  shows "cut n F C (advance n F C p)"
    "below (advance n F C p) (climbL n F T) =
       below x (climbL n F T) @ (if \<not> root n F p \<and> sibling p \<in> C then [p, sibling p] else [p])"
proof -
  let ?cs = "climbL n F T"
  have f: "fits n F" "\<forall>t \<in> set T. node n F t" using assms(1) by (auto simp: targets_ok_def)
  have old: "unat (sibling c) < x" if "c \<in> C" "\<not> root n F c" "unat c < x" "sibling c \<in> C" for c
    using assms(3) that by (auto simp: cut_def)
  have lt: "unat c < Suc (unat p) \<Longrightarrow> c \<in> C \<Longrightarrow> unat c < x \<or> c = p" for c
    using assms(6) unat_word_eqI[of c p] by (fastforce simp: word_le_nat_alt)
  have b1: "below (Suc (unat p)) ?cs = below x ?cs @ [p]"
    using assms by (intro below_Suc) auto
  have "cut n F C (advance n F C p) \<and> below (advance n F C p) ?cs =
       below x ?cs @ (if \<not> root n F p \<and> sibling p \<in> C then [p, sibling p] else [p])"
  proof (cases "\<not> root n F p \<and> sibling p \<in> C")
    case False
    have "cut n F C (Suc (unat p))"
      unfolding cut_def using lt old False assms(5) by (metis less_SucI order_less_le_trans)
    then show ?thesis using False b1 by (auto simp: advance_def)
  next
    case True
    note l = least_sibling[OF assms(1,2,3,4,5,6) conjunct1[OF True]]
    note s = sibling_node[OF f(1) l(1) conjunct1[OF True]]
    have q: "unat (sibling p) = Suc (unat p)" using s(5) l(2) True by simp
    have b2: "below (Suc (unat (sibling p))) ?cs = below (Suc (unat p)) ?cs @ [sibling p]"
      using True assms(2) q by (intro below_Suc) (auto simp: word_le_nat_alt)
    have "unat (sibling c) < Suc (Suc (unat p))" if c: "c \<in> C" "\<not> root n F c" "unat c < Suc (Suc (unat p))" "sibling c \<in> C" for c
    proof (cases "c = sibling p")
      case False
      then have "unat c < Suc (unat p)" using c(3) q unat_word_eqI[of c "sibling p"] by (auto simp: less_Suc_eq)
      then show ?thesis using lt[of c] c old[of c] assms(5) q by fastforce
    qed simp
    then have "cut n F C (Suc (Suc (unat p)))" by (simp add: cut_def)
    then show ?thesis using True b1 b2 q by (simp add: advance_def)
  qed
  then show "cut n F C (advance n F C p)"
    "below (advance n F C p) ?cs = below x ?cs @ (if \<not> root n F p \<and> sibling p \<in> C then [p, sibling p] else [p])"
    by auto
qed

lemma climb_lists:
  assumes "targets_ok n F T" "C = climbs n F (set T)" "cut n F C x"
    "p \<in> C" "x \<le> unat p" "\<forall>c \<in> C. x \<le> unat c \<longrightarrow> p \<le> c"
    and cs: "bx = below x (climbL n F T)" "bx' = below (advance n F C p) (climbL n F T)"
  shows "root n F p \<Longrightarrow> nexts n F C bx' = nexts n F C bx"
    "\<not> root n F p \<Longrightarrow> nexts n F C bx' = nexts n F C bx @ [parent p F]"
    "root n F p \<Longrightarrow> needs n F C bx' = needs n F C bx"
    "\<not> root n F p \<Longrightarrow> sibling p \<in> C \<Longrightarrow> needs n F C bx' = needs n F C bx"
    "\<not> root n F p \<Longrightarrow> sibling p \<notin> C \<Longrightarrow> needs n F C bx' = needs n F C bx @ [sibling p]"
    "root n F p \<Longrightarrow> filter (root n F) bx' = filter (root n F) bx @ [p]"
    "\<not> root n F p \<Longrightarrow> filter (root n F) bx' = filter (root n F) bx"
proof -
  note a = climb_advance(2)[OF assms(1-6), folded cs]
  have f: "fits n F" using assms(1) by (auto simp: targets_ok_def)
  have s: "sibling p \<in> C \<longrightarrow> isLeftNiece p" "\<not> root n F (sibling p)" "isLeftNiece (sibling p) \<longleftrightarrow> \<not> isLeftNiece p"
    if "\<not> root n F p"
    using least_sibling[OF assms(1-6) that] sibling_node[OF f _ that] by auto
  show "root n F p \<Longrightarrow> nexts n F C bx' = nexts n F C bx"
    "\<not> root n F p \<Longrightarrow> nexts n F C bx' = nexts n F C bx @ [parent p F]"
    "root n F p \<Longrightarrow> needs n F C bx' = needs n F C bx"
    "\<not> root n F p \<Longrightarrow> sibling p \<in> C \<Longrightarrow> needs n F C bx' = needs n F C bx"
    "\<not> root n F p \<Longrightarrow> sibling p \<notin> C \<Longrightarrow> needs n F C bx' = needs n F C bx @ [sibling p]"
    "root n F p \<Longrightarrow> filter (root n F) bx' = filter (root n F) bx @ [p]"
    "\<not> root n F p \<Longrightarrow> filter (root n F) bx' = filter (root n F) bx"
    using a s assms(4) by (auto simp: nexts_def needs_def heads_def)
qed

lemma climb_counts:
  assumes "targets_ok n F T" "ascending T" "C = climbs n F (set T)" "cut n F C x"
    "p \<in> C" "x \<le> unat p" "\<forall>c \<in> C. x \<le> unat c \<longrightarrow> p \<le> c"
    and N: "N = nexts n F C (below x (climbL n F T))" "N' = nexts n F C (below x' (climbL n F T))"
    and x': "x' = advance n F C p"
  shows "cnt T x' = cnt T x + of_bool (p \<in> set T) + of_bool (\<not> root n F p \<and> sibling p \<in> C \<and> sibling p \<in> set T)" (is ?A)
    and "cnt N' x' = cnt N x + of_bool (p \<notin> set T) + of_bool (\<not> root n F p \<and> sibling p \<in> C \<and> sibling p \<notin> set T)" (is ?B)
proof -
  have f: "fits n F" "\<forall>t \<in> set T. node n F t" using assms(1) by (auto simp: targets_ok_def)
  have TN: "set T \<union> set N \<subseteq> C"
    using assms(3) unfolding N set_nexts[OF assms(1,3)] by (auto intro: climbs.intros)
  note nx = climb_next[OF assms(1-7) N(1)]
  have asc: "ascending N" unfolding N by (rule ascending_nexts[OF assms(1,3)])
  have one: "cnt T (Suc (unat p)) = cnt T x + of_bool (p \<in> set T)" "cnt N (Suc (unat p)) = cnt N x + of_bool (p \<in> set N)"
    by (rule cnt_step[OF assms(2,6)], use assms(7) TN in blast, rule cnt_step[OF asc assms(6)], use assms(7) TN in blast)
  have pn: "p \<in> set N \<longleftrightarrow> p \<notin> set T" using nx(2,3) by auto
  have N': "N' = N @ (if root n F p then [] else [parent p F])"
    using climb_lists(1,2)[OF assms(1,3-7) refl refl] N x' by simp
  have "?A \<and> ?B"
  proof (cases "\<not> root n F p \<and> sibling p \<in> C")
    case True
    note l = least_sibling[OF assms(1,3-7) conjunct1[OF True]]
    note s = sibling_node[OF f(1) l(1) conjunct1[OF True]]
    have q: "unat (sibling p) = Suc (unat p)" using s(5) l(2) True by simp
    have x2: "x' = Suc (unat (sibling p))" using True q by (simp add: x' advance_def)
    have sn: "sibling p \<in> set N \<longleftrightarrow> sibling p \<notin> set T" using nx(3,4) True by auto
    have "sibling p < parent p F" using parent_node(2)[OF f(1) s(1,2)] s(3) by simp
    then have "\<not> unat (parent p F) < x'" using x2 by (simp add: word_less_nat_alt)
    then show ?thesis
      using one cnt_Suc[OF assms(2), of "sibling p"] cnt_Suc[OF asc, of "sibling p"] True N' pn sn
      by (auto simp: x2 q)
  next
    case False
    then have x1: "x' = Suc (unat p)" by (auto simp: x' advance_def)
    have "\<not> root n F p \<longrightarrow> \<not> unat (parent p F) < x'"
      using parent_node(2)[OF f(1) climbs_node[OF f], of p] assms(3,5) x1 by (auto simp: word_less_nat_alt)
    then show ?thesis
      using one False N' pn x1 by auto
  qed
  then show ?A ?B by auto
qed

section \<open>proofPositions\<close>

lemma unat_maxPossiblePosAtRow:
  assumes "k \<le> unat F" "unat F \<le> 63"
  shows "Suc (unat (maxPossiblePosAtRow (of_nat k) F)) = rowStart (unat F) (Suc k)"
proof -
  have p: "(0::nat) < 2 ^ (unat F - k)" by simp
  then have v: "valid_pos (unat F) k (2 ^ (unat F - k) - 1)" using assms by (simp add: valid_pos_def)
  then show ?thesis
    using p by (simp only: maxPossiblePosAtRow_posn[OF assms] unat_posn[OF v assms(2)] rowStart_Suc[OF assms(1)])
qed

lemma possibleRow_loop_eq:
  assumes "fits n F" "place n F p h r o'" "k \<le> r"
  shows "possibleRow_loop p F (of_nat k) = Some (of_nat r)"
proof -
  note pr = place_row[OF assms(1,2)]
  have f: "unat F \<le> 63" "r \<le> unat F" using assms(1) pr by (auto simp: fits_def)
  have max: "Suc (unat (maxPossiblePosAtRow (of_nat k) F)) = rowStart (unat F) (Suc k)" if "k \<le> r" for k
    using unat_maxPossiblePosAtRow[of k F] f that by simp
  show ?thesis using assms(3)
  proof (induction rule: inc_induct)
    case base
    have "unat p < rowStart (unat F) (Suc r)" using pr(4,6) f by (simp add: valid_pos_def rowStart_Suc)
    then have "p \<le> maxPossiblePosAtRow (of_nat r) F" using max[of r] by (simp add: word_le_nat_alt)
    then show ?case by (subst possibleRow_loop.simps) (auto simp: not_less)
  next
    case (step k)
    have "rowStart (unat F) (Suc k) \<le> unat p" using rowStart_mono[of "Suc k" r "unat F"] pr(6) step by simp
    then have "maxPossiblePosAtRow (of_nat k) F < p" using max[of k] step by (simp add: word_less_nat_alt)
    moreover have "(of_nat k :: u8) \<le> F" using step f by (simp add: word_le_nat_alt)
    ultimately show ?case using step by (subst possibleRow_loop.simps) (simp add: add.commute)
  qed
qed

lemma possibleRow_loop_node:
  assumes "fits n F" "node n F p" "row \<le> detectRow p F"
  shows "possibleRow_loop p F row = Some (detectRow p F)" "detectRow p F \<le> F"
    "isRootPositionOnRowTotalRows p n (detectRow p F) F \<longleftrightarrow> root n F p"
proof -
  obtain h r o' where a: "place n F p h r o'" using node_place[OF assms(1,2)] .
  note pr = place_row[OF assms(1) a]
  have r: "r \<le> unat F" "unat F \<le> 63" using pr assms(1) by (auto simp: fits_def)
  have "unat row \<le> r" using assms(3) pr(5) r by (simp add: word_le_nat_alt)
  then show "possibleRow_loop p F row = Some (detectRow p F)"
    using possibleRow_loop_eq[OF assms(1) a, of "unat row"] pr(5) by simp
  show "detectRow p F \<le> F" using pr(5) r by (simp add: word_le_nat_alt)
  show "isRootPositionOnRowTotalRows p n (detectRow p F) F \<longleftrightarrow> root n F p"
    using root_iff[OF assms(1) a] pr(5) by simp
qed

lemma above_decreases:
  assumes "p \<in> C" "x \<le> unat (p::u64)" "unat p < x'"
  shows "card {c \<in> C. x' \<le> unat c} < card {c \<in> C. x \<le> unat c}"
proof (rule psubset_card_mono)
  have "p \<in> {c \<in> C. x \<le> unat c}" "p \<notin> {c \<in> C. x' \<le> unat c}" using assms by auto
  moreover have "{c \<in> C. x' \<le> unat c} \<subseteq> {c \<in> C. x \<le> unat c}" using assms by auto
  ultimately show "{c \<in> C. x' \<le> unat c} \<subset> {c \<in> C. x \<le> unat c}" by blast
qed simp

lemma proofPositions_loop_eq:
  assumes "targets_ok n F T" "ascending T" "C = climbs n F (set T)" "cut n F C x"
    "row \<le> F" "\<forall>c \<in> C. x \<le> unat c \<longrightarrow> row \<le> detectRow c F"
    "N = nexts n F C (below x (climbL n F T))"
  shows "proofPositions_loop T n F row (cnt T x) (cnt N x) N (needs n F C (below x (climbL n F T))) =
    Some (needs n F C (climbL n F T), nexts n F C (climbL n F T))"
  using assms(4-7)
proof (induction "card {c \<in> C. x \<le> unat c}" arbitrary: x row N rule: less_induct)
  case less
  let ?cs = "climbL n F T"
  have f: "fits n F" "\<forall>t \<in> set T. node n F t" using assms(1) by (auto simp: targets_ok_def)
  show ?case
  proof (cases "\<exists>c \<in> C. x \<le> unat c")
    case False
    then have b: "below x ?cs = ?cs" by (intro below_all) (auto simp: assms(3) not_le)
    have "set T \<union> set N \<subseteq> C" using assms(3) unfolding less.prems(4) set_nexts[OF assms(1,3)] by (auto intro: climbs.intros)
    then have "getNextPos T N (cnt T x) (cnt N x) = (0, - 1, - 1)"
      using False by (intro getNextPos_none) (auto simp: not_le)
    then show ?thesis using less.prems(2) b by (subst proofPositions_loop.simps) (simp add: less.prems(4))
  next
    case True
    then obtain p where p: "p \<in> C" "x \<le> unat p" "\<forall>c \<in> C. x \<le> unat c \<longrightarrow> p \<le> c"
      by (rule least_above)
    define x' where "x' = advance n F C p"
    define N' where "N' = nexts n F C (below x' ?cs)"
    have nd: "node n F p" using climbs_node[OF f] assms(3) p(1) by blast
    have row: "row \<le> detectRow p F" using less.prems(3) p by blast
    note rl = possibleRow_loop_node[OF f(1) nd row]
    obtain s where g: "getNextPos T N (cnt T x) (cnt N x) = (p, if p \<in> set T then 0 else 1, s)"
      "\<not> root n F p \<longrightarrow> s = (if sibling p \<in> C then (if sibling p \<in> set T then 0 else 1) else - 1)"
      using climb_next(1)[OF assms(1-3) less.prems(1) p less.prems(4)] by blast
    note c = climb_counts[OF assms(1-3) less.prems(1) p less.prems(4) N'_def x'_def]
    note l = climb_lists[OF assms(1,3) less.prems(1) p refl refl, folded x'_def, folded N'_def less.prems(4)]
    have xx: "unat p < x'" by (simp add: x'_def advance_def)
    note m = above_decreases[OF p(1,2) xx]
    have rows: "\<forall>c \<in> C. x' \<le> unat c \<longrightarrow> detectRow p F \<le> detectRow c F"
      using detectRow_mono[OF f(1) nd] climbs_node[OF f] assms(3) xx by (auto simp: word_le_nat_alt)
    note IH = less.hyps[OF m climb_advance(1)[OF assms(1,3) less.prems(1) p, folded x'_def] rl(2) rows N'_def]
    show ?thesis using IH c l g less.prems(2) rl
      by (subst proofPositions_loop.simps) (cases "root n F p"; cases "sibling p \<in> C"; cases "p \<in> set T"; cases "sibling p \<in> set T"; simp add: Let_def leD)
  qed
qed

lemma proofPositions_eq:
  assumes "targets_ok n F T" "ascending T"
  shows "proofPositions T n F =
    Inr (needs n F (climbs n F (set T)) (climbL n F T), nexts n F (climbs n F (set T)) (climbL n F T))"
proof -
  have "nexts n F (climbs n F (set T)) (below 0 (climbL n F T)) = []"
    "needs n F (climbs n F (set T)) (below 0 (climbL n F T)) = []"
    by (simp_all add: nexts_def needs_def heads_def)
  then show ?thesis
    using proofPositions_loop_eq[OF assms refl, of 0 0, OF _ _ _ refl] by (simp add: proofPositions_def cut_def)
qed

end
