(* ===== verification/Hashes.thy ===== *)
theory Hashes
  imports Positions
begin

text \<open>
  Hashes (\<open>Hash\<close> and \<open>Leaf\<close> of \<open>pollard.go\<close> and \<open>polnode.go\<close>), the hash of a parent
  (\<open>parentHash\<close> of \<open>utils.go\<close>) and the hash that moves to the parent position
  (\<open>getNextHash\<close> of \<open>prove.go\<close>).

  A \<open>Hash\<close> is a \<open>[32]byte\<close>, read here as the big-endian number of its bytes.
  \<open>parentHash\<close> is \<open>sha512.New512_256\<close> of Go's library applied to the 64 bytes of the two
  hashes: with its padding that message is a single block of SHA-512/256 (FIPS 180-4), so
  the model runs the compression function once. No proof unfolds it.
\<close>

unbundle bit_operations_syntax

type_synonym Hash = "256 word"

definition empty :: Hash where
  "empty = 0"

record Leaf =
  leaf_Hash :: Hash
  Remember :: bool

text \<open>The first 12 bytes of a hash.\<close>

type_synonym miniHash = "96 word"

definition mini :: "Hash \<Rightarrow> miniHash" where
  "mini h = ucast (drop_bit 160 h)"

section \<open>SHA-512/256 of one block\<close>

definition sha512_K :: "u64 list" where
  "sha512_K =
   [0x428A2F98D728AE22, 0x7137449123EF65CD, 0xB5C0FBCFEC4D3B2F, 0xE9B5DBA58189DBBC,
    0x3956C25BF348B538, 0x59F111F1B605D019, 0x923F82A4AF194F9B, 0xAB1C5ED5DA6D8118,
    0xD807AA98A3030242, 0x12835B0145706FBE, 0x243185BE4EE4B28C, 0x550C7DC3D5FFB4E2,
    0x72BE5D74F27B896F, 0x80DEB1FE3B1696B1, 0x9BDC06A725C71235, 0xC19BF174CF692694,
    0xE49B69C19EF14AD2, 0xEFBE4786384F25E3, 0x0FC19DC68B8CD5B5, 0x240CA1CC77AC9C65,
    0x2DE92C6F592B0275, 0x4A7484AA6EA6E483, 0x5CB0A9DCBD41FBD4, 0x76F988DA831153B5,
    0x983E5152EE66DFAB, 0xA831C66D2DB43210, 0xB00327C898FB213F, 0xBF597FC7BEEF0EE4,
    0xC6E00BF33DA88FC2, 0xD5A79147930AA725, 0x06CA6351E003826F, 0x142929670A0E6E70,
    0x27B70A8546D22FFC, 0x2E1B21385C26C926, 0x4D2C6DFC5AC42AED, 0x53380D139D95B3DF,
    0x650A73548BAF63DE, 0x766A0ABB3C77B2A8, 0x81C2C92E47EDAEE6, 0x92722C851482353B,
    0xA2BFE8A14CF10364, 0xA81A664BBC423001, 0xC24B8B70D0F89791, 0xC76C51A30654BE30,
    0xD192E819D6EF5218, 0xD69906245565A910, 0xF40E35855771202A, 0x106AA07032BBD1B8,
    0x19A4C116B8D2D0C8, 0x1E376C085141AB53, 0x2748774CDF8EEB99, 0x34B0BCB5E19B48A8,
    0x391C0CB3C5C95A63, 0x4ED8AA4AE3418ACB, 0x5B9CCA4F7763E373, 0x682E6FF3D6B2B8A3,
    0x748F82EE5DEFB2FC, 0x78A5636F43172F60, 0x84C87814A1F0AB72, 0x8CC702081A6439EC,
    0x90BEFFFA23631E28, 0xA4506CEBDE82BDE9, 0xBEF9A3F7B2C67915, 0xC67178F2E372532B,
    0xCA273ECEEA26619C, 0xD186B8C721C0C207, 0xEADA7DD6CDE0EB1E, 0xF57D4F7FEE6ED178,
    0x06F067AA72176FBA, 0x0A637DC5A2C898A6, 0x113F9804BEF90DAE, 0x1B710B35131C471B,
    0x28DB77F523047D84, 0x32CAAB7B40C72493, 0x3C9EBE0A15C9BEBC, 0x431D67C49C100D4C,
    0x4CC5D4BECB3E42B6, 0x597F299CFC657E2A, 0x5FCB6FAB3AD6FAEC, 0x6C44198C4A475817]"

type_synonym sha512_state = "u64 \<times> u64 \<times> u64 \<times> u64 \<times> u64 \<times> u64 \<times> u64 \<times> u64"

definition sha512_256_IV :: sha512_state where
  "sha512_256_IV =
   (0x22312194FC2BF72C, 0x9F555FA3C84C64C2, 0x2393B86B6F53B151, 0x963877195940EABD,
    0x96283EE2A88EFFE3, 0xBE5E1E2553863992, 0x2B0199FC2C85B8AA, 0x0EB72DDC81C52CA2)"

definition rotr64 :: "nat \<Rightarrow> u64 \<Rightarrow> u64" where
  "rotr64 k x = drop_bit k x OR push_bit (64 - k) x"

definition sha512_step :: "u64 \<Rightarrow> u64 \<Rightarrow> sha512_state \<Rightarrow> sha512_state" where
  "sha512_step k w s =
     (let (a, b, c, d, e, f, g, h) = s;
          t1 = h + (rotr64 14 e XOR rotr64 18 e XOR rotr64 41 e) + ((e AND f) XOR (NOT e AND g)) + k + w;
          t2 = (rotr64 28 a XOR rotr64 34 a XOR rotr64 39 a) + ((a AND b) XOR (a AND c) XOR (b AND c))
      in (t1 + t2, a, b, c, d + t1, e, f, g))"

text \<open>The next word of the message schedule from the window of the last sixteen.\<close>

definition sha512_next :: "u64 list \<Rightarrow> u64" where
  "sha512_next w =
     (let v1 = w ! 14; v2 = w ! 1
      in (rotr64 19 v1 XOR rotr64 61 v1 XOR drop_bit 6 v1) + w ! 9 +
         (rotr64 1 v2 XOR rotr64 8 v2 XOR drop_bit 7 v2) + w ! 0)"

fun sha512_rounds :: "u64 list \<Rightarrow> u64 list \<Rightarrow> sha512_state \<Rightarrow> sha512_state" where
  "sha512_rounds [] w s = s"
| "sha512_rounds (k # ks) w s = sha512_rounds ks (tl w @ [sha512_next w]) (sha512_step k (hd w) s)"

definition hash_words :: "Hash \<Rightarrow> u64 list" where
  "hash_words h = map (\<lambda>k. ucast (drop_bit k h)) [192, 128, 64, 0]"

definition words_hash :: "u64 \<Rightarrow> u64 \<Rightarrow> u64 \<Rightarrow> u64 \<Rightarrow> Hash" where
  "words_hash a b c d =
     push_bit 192 (ucast a) OR push_bit 128 (ucast b) OR push_bit 64 (ucast c) OR ucast d"

definition sha512_256_64 :: "u64 list \<Rightarrow> Hash" where
  "sha512_256_64 msg =
     (let (a, b, c, d, _) = sha512_rounds sha512_K (msg @ [push_bit 63 1, 0, 0, 0, 0, 0, 0, 512]) sha512_256_IV;
          (a', b', c', d', _) = sha512_256_IV
      in words_hash (a + a') (b + b') (c + c') (d + d'))"

section \<open>Parent hashes\<close>

definition parentHash :: "Hash \<Rightarrow> Hash \<Rightarrow> Hash" where
  "parentHash l r = sha512_256_64 (hash_words l @ hash_words r)"

definition getNextHash :: "u64 \<Rightarrow> Hash \<Rightarrow> Hash \<Rightarrow> Hash" where
  "getNextHash pos hash sibHash =
     (if hash = empty then sibHash
      else if sibHash = empty then hash
      else if isLeftNiece pos then parentHash hash sibHash
      else parentHash sibHash hash)"

end
