(* ===== verification/HashAndPos.thy ===== *)
theory HashAndPos
  imports Hashes Slices
begin

text \<open>
  The type \<open>hashAndPos\<close> of \<open>prove.go\<close>, a slice of positions next to a slice of hashes, with its
  methods and the functions that merge, subtract, intersect and detwin such values.

  Nothing in the code keeps the two slices at the same length, so the operations are given on
  slices of any lengths, with the panics of an index out of range. \<open>hnp_ok\<close> is the invariant
  that the lengths agree; under it the operations are operations on lists of pairs
  (\<open>pairs\<close>).

  \<open>sort.Sort\<close> of Go's library is the stable sort by the position. It leaves slices with more
  hashes than positions alone beyond the positions. With fewer hashes than positions it panics
  when it swaps an entry without a hash; the model lets every sort of such an unsorted value
  panic.
\<close>

record hashAndPos =
  positions :: "u64 list"
  hashes :: "Hash list"

definition hnp_empty :: hashAndPos where
  "hnp_empty = \<lparr>positions = [], hashes = []\<rparr>"

definition hnp_Len :: "hashAndPos \<Rightarrow> nat" where
  "hnp_Len hnp = length (positions hnp)"

definition sort_hnp :: "hashAndPos \<Rightarrow> hashAndPos result" where
  "sort_hnp hnp =
     (let n = length (positions hnp)
      in if n \<le> length (hashes hnp)
         then (let ps = sort_key fst (zip (positions hnp) (hashes hnp))
               in Inr \<lparr>positions = map fst ps, hashes = map snd ps @ drop n (hashes hnp)\<rparr>)
         else if sorted (positions hnp) then Inr hnp
         else Inl Panic)"

definition toHashAndPos :: "u64 list \<Rightarrow> Hash list \<Rightarrow> hashAndPos result" where
  "toHashAndPos origTargets origHashes = sort_hnp \<lparr>positions = origTargets, hashes = origHashes\<rparr>"

definition hnp_Append :: "hashAndPos \<Rightarrow> u64 \<Rightarrow> Hash \<Rightarrow> hashAndPos" where
  "hnp_Append hnp pos hash = \<lparr>positions = positions hnp @ [pos], hashes = hashes hnp @ [hash]\<rparr>"

definition hnp_AppendMany :: "hashAndPos \<Rightarrow> u64 list \<Rightarrow> Hash list \<Rightarrow> hashAndPos" where
  "hnp_AppendMany hnp ps hs = \<lparr>positions = positions hnp @ ps, hashes = hashes hnp @ hs\<rparr>"

definition hnp_Delete :: "hashAndPos \<Rightarrow> nat \<Rightarrow> hashAndPos result" where
  "hnp_Delete hnp i =
     (if i < length (positions hnp) \<and> i < length (hashes hnp)
      then Inr \<lparr>positions = take i (positions hnp) @ drop (i + 1) (positions hnp),
                hashes = take i (hashes hnp) @ drop (i + 1) (hashes hnp)\<rparr>
      else Inl Panic)"

definition hnp_PopFront :: "hashAndPos \<Rightarrow> (u64 \<times> Hash \<times> hashAndPos) result" where
  "hnp_PopFront hnp =
     (case (positions hnp, hashes hnp) of
        (p # ps, h # hs) \<Rightarrow> Inr (p, h, \<lparr>positions = ps, hashes = hs\<rparr>)
      | _ \<Rightarrow> Inl Panic)"

definition hnp_Pop :: "hashAndPos \<Rightarrow> (u64 \<times> Hash \<times> hashAndPos) result" where
  "hnp_Pop hnp =
     (if positions hnp \<noteq> [] \<and> hashes hnp \<noteq> []
      then Inr (last (positions hnp), last (hashes hnp),
                \<lparr>positions = butlast (positions hnp), hashes = butlast (hashes hnp)\<rparr>)
      else Inl Panic)"

definition hnp_Reset :: "hashAndPos \<Rightarrow> hashAndPos" where
  "hnp_Reset hnp = hnp_empty"

section \<open>Merge\<close>

text \<open>
  The loop of \<open>mergeSortedHashAndPos\<close>: \<open>c\<close> is the part of the result written so far, \<open>room\<close> the
  length of the part of the allocated result that is still zero.
\<close>

definition copyRest :: "hashAndPos \<Rightarrow> hashAndPos \<Rightarrow> nat \<Rightarrow> nat \<Rightarrow> hashAndPos result" where
  "copyRest c b idx room =
     (if idx \<le> length (hashes b) then
        (let n = min room (length (hashes b) - idx)
         in Inr \<lparr>positions = positions c @ take n (drop idx (positions b) @ replicate n 0),
                 hashes = hashes c @ take n (drop idx (hashes b))\<rparr>)
      else Inl Panic)"

function mergeSortedHashAndPos_loop ::
  "hashAndPos \<Rightarrow> hashAndPos \<Rightarrow> nat \<Rightarrow> nat \<Rightarrow> nat \<Rightarrow> hashAndPos \<Rightarrow> hashAndPos result" where
  "mergeSortedHashAndPos_loop a b idxa idxb room c =
     (if room = 0 then Inr c
      else if idxa \<ge> hnp_Len a then copyRest c b idxb room
      else if idxb \<ge> hnp_Len b then copyRest c a idxa room
      else (let vala = positions a ! idxa; valb = positions b ! idxb
            in if vala < valb then
                 bindR (nthR (hashes a) idxa) (\<lambda>h.
                   mergeSortedHashAndPos_loop a b (idxa + 1) idxb (room - 1) (hnp_Append c vala h))
               else if vala > valb then
                 bindR (nthR (hashes b) idxb) (\<lambda>h.
                   mergeSortedHashAndPos_loop a b idxa (idxb + 1) (room - 1) (hnp_Append c valb h))
               else
                 bindR (nthR (hashes a) idxa) (\<lambda>h.
                   mergeSortedHashAndPos_loop a b (idxa + 1) (idxb + 1) (room - 1) (hnp_Append c vala h))))"
  by pat_completeness auto
termination
  by (relation "measure (\<lambda>(a, b, idxa, idxb, room, c). room)") auto

declare mergeSortedHashAndPos_loop.simps [simp del]

text \<open>\<open>make([]Hash, n)\<close> followed by \<open>copy\<close>.\<close>

definition makeCopy :: "nat \<Rightarrow> Hash list \<Rightarrow> Hash list" where
  "makeCopy n hs = take n (hs @ replicate n empty)"

definition mergeSortedHashAndPos :: "hashAndPos \<Rightarrow> hashAndPos \<Rightarrow> hashAndPos result" where
  "mergeSortedHashAndPos a b =
     (if hnp_Len a = 0 then Inr \<lparr>positions = positions b, hashes = makeCopy (hnp_Len b) (hashes b)\<rparr>
      else if hnp_Len b = 0 then Inr \<lparr>positions = positions a, hashes = makeCopy (hnp_Len a) (hashes a)\<rparr>
      else mergeSortedHashAndPos_loop a b 0 0 (hnp_Len a + hnp_Len b) hnp_empty)"

section \<open>Differences and intersections\<close>

definition consHnp :: "u64 \<Rightarrow> Hash list \<Rightarrow> hashAndPos \<Rightarrow> hashAndPos" where
  "consHnp p hs c = \<lparr>positions = p # positions c, hashes = hs @ hashes c\<rparr>"

fun subtractSortedHashAndPos_loop ::
  "(u64 \<Rightarrow> 'e \<Rightarrow> int) \<Rightarrow> u64 list \<Rightarrow> Hash list \<Rightarrow> 'e list \<Rightarrow> hashAndPos result" where
  "subtractSortedHashAndPos_loop cmp [] hs b = Inr \<lparr>positions = [], hashes = hs\<rparr>"
| "subtractSortedHashAndPos_loop cmp (p # ps) hs [] = Inr \<lparr>positions = p # ps, hashes = hs\<rparr>"
| "subtractSortedHashAndPos_loop cmp (p # ps) hs (y # b) =
     (let res = cmp p y
      in if res = 0 then
           (case hs of [] \<Rightarrow> Inl Panic | h # hs' \<Rightarrow> subtractSortedHashAndPos_loop cmp ps hs' b)
         else if res = 1 then subtractSortedHashAndPos_loop cmp (p # ps) hs b
         else bindR (subtractSortedHashAndPos_loop cmp ps (tl hs) (y # b)) (\<lambda>c.
                Inr (consHnp p (take 1 hs) c)))"

definition subtractSortedHashAndPos :: "hashAndPos \<Rightarrow> 'e list \<Rightarrow> (u64 \<Rightarrow> 'e \<Rightarrow> int) \<Rightarrow> hashAndPos result" where
  "subtractSortedHashAndPos a b cmp = subtractSortedHashAndPos_loop cmp (positions a) (hashes a) b"

fun keepHashAndPos :: "(Hash \<Rightarrow> bool) \<Rightarrow> u64 list \<Rightarrow> Hash list \<Rightarrow> hashAndPos result" where
  "keepHashAndPos P [] hs = Inr hnp_empty"
| "keepHashAndPos P (p # ps) [] = Inl Panic"
| "keepHashAndPos P (p # ps) (h # hs) =
     bindR (keepHashAndPos P ps hs) (\<lambda>c. Inr (if P h then consHnp p [h] c else c))"

definition removeHashesFromHashAndPos :: "hashAndPos \<Rightarrow> 'e list \<Rightarrow> ('e \<Rightarrow> Hash) \<Rightarrow> hashAndPos result" where
  "removeHashesFromHashAndPos xs ys getHash =
     (let allKeys = set (map getHash ys)
      in keepHashAndPos (\<lambda>h. h \<notin> allKeys) (positions xs) (hashes xs))"

definition removeHashes :: "'e list \<Rightarrow> 'e list \<Rightarrow> ('e \<Rightarrow> Hash) \<Rightarrow> 'e list" where
  "removeHashes xs ys getHash =
     (let allKeys = set (map getHash ys)
      in filter (\<lambda>elem. getHash elem \<notin> allKeys) xs)"

definition getHashAndPosHashSubset :: "hashAndPos \<Rightarrow> Hash list \<Rightarrow> hashAndPos result" where
  "getHashAndPosHashSubset a b =
     (let allKeys = set b
      in keepHashAndPos (\<lambda>h. h \<in> allKeys) (positions a) (hashes a))"

fun getHashAndPosSubset_loop :: "u64 list \<Rightarrow> Hash list \<Rightarrow> u64 list \<Rightarrow> hashAndPos result" where
  "getHashAndPosSubset_loop [] hs b = Inr hnp_empty"
| "getHashAndPosSubset_loop (p # ps) hs [] = Inr hnp_empty"
| "getHashAndPosSubset_loop (p # ps) hs (y # b) =
     (if p = y then
        (case hs of [] \<Rightarrow> Inl Panic
         | h # hs' \<Rightarrow> bindR (getHashAndPosSubset_loop ps hs' b) (\<lambda>c. Inr (consHnp p [h] c)))
      else if p > y then getHashAndPosSubset_loop (p # ps) hs b
      else getHashAndPosSubset_loop ps (tl hs) (y # b))"

definition getHashAndPosSubset :: "hashAndPos \<Rightarrow> u64 list \<Rightarrow> hashAndPos result" where
  "getHashAndPosSubset a b = getHashAndPosSubset_loop (positions a) (hashes a) b"

section \<open>Detwinning\<close>

lemma hnp_Delete_len: "hnp_Delete h i = Inr h' \<Longrightarrow> hnp_Len h = Suc (hnp_Len h')"
  by (auto simp: hnp_Delete_def hnp_Len_def split: if_splits)

lemma copyRest_len:
  "copyRest c b idx room = Inr d \<Longrightarrow> hnp_Len d \<le> hnp_Len c + room"
  by (auto simp: copyRest_def hnp_Len_def Let_def split: if_splits)

lemma mergeSortedHashAndPos_loop_len:
  "mergeSortedHashAndPos_loop a b i j room c = Inr d \<Longrightarrow> hnp_Len d \<le> hnp_Len c + room"
proof (induction room arbitrary: i j c)
  case 0
  then show ?case by (subst (asm) mergeSortedHashAndPos_loop.simps) simp
next
  case (Suc room)
  have app: "hnp_Len (hnp_Append c p h) = Suc (hnp_Len c)" for p h
    by (simp add: hnp_Len_def hnp_Append_def)
  note e = Suc.prems[unfolded mergeSortedHashAndPos_loop.simps[of a b i j "Suc room" c] Let_def]
  consider "copyRest c b j (Suc room) = Inr d" | "copyRest c a i (Suc room) = Inr d"
    | i' j' p h where "mergeSortedHashAndPos_loop a b i' j' room (hnp_Append c p h) = Inr d"
    using e by (auto simp: bindR_Inr_iff split: if_splits)
  then show ?case
  proof cases
    case 3 then show ?thesis using Suc.IH[OF 3] by (simp add: app)
  qed (auto dest: copyRest_len)
qed

lemma mergeSortedHashAndPos_len:
  "mergeSortedHashAndPos a b = Inr d \<Longrightarrow> hnp_Len d \<le> hnp_Len a + hnp_Len b"
  using mergeSortedHashAndPos_loop_len[of a b 0 0 "hnp_Len a + hnp_Len b" hnp_empty d]
  by (auto simp: mergeSortedHashAndPos_def hnp_empty_def hnp_Len_def split: if_splits)

function deTwinHashAndPos_loop :: "hashAndPos \<Rightarrow> u8 \<Rightarrow> nat \<Rightarrow> hashAndPos result" where
  "deTwinHashAndPos_loop hnp forestRows i =
     (if i < hnp_Len hnp then
        (if i + 1 < hnp_Len hnp \<and> rightSib (positions hnp ! i) = positions hnp ! (i + 1)
         then bindR (nthR (hashes hnp) i) (\<lambda>nodeHash.
              bindR (nthR (hashes hnp) (i + 1)) (\<lambda>sibHash.
              bindR (hnp_Delete hnp i) (\<lambda>hnp1.
              bindR (hnp_Delete hnp1 i) (\<lambda>hnp2.
              bindR (mergeSortedHashAndPos hnp2
                       \<lparr>positions = [parent (positions hnp ! i) forestRows],
                        hashes = [parentHash nodeHash sibHash]\<rparr>) (\<lambda>hnp3.
                deTwinHashAndPos_loop hnp3 forestRows i)))))
         else deTwinHashAndPos_loop hnp forestRows (i + 1))
      else Inr hnp)"
  by pat_completeness auto
termination
proof (relation "measure (\<lambda>(hnp, forestRows, i). 2 * hnp_Len hnp - i)", goal_cases)
  case (2 hnp rows i h sib hnp1 hnp2 hnp3)
  then have "hnp_Len hnp = Suc (hnp_Len hnp1)" "hnp_Len hnp1 = Suc (hnp_Len hnp2)"
    "hnp_Len hnp3 \<le> hnp_Len hnp2 + 1"
    by (auto dest!: hnp_Delete_len mergeSortedHashAndPos_len simp: hnp_Len_def)
  then show ?case using 2(1) by simp
qed auto

declare deTwinHashAndPos_loop.simps [simp del]

definition deTwinHashAndPos :: "hashAndPos \<Rightarrow> u8 \<Rightarrow> hashAndPos result" where
  "deTwinHashAndPos hnp forestRows = deTwinHashAndPos_loop hnp forestRows 0"

section \<open>Lists of pairs\<close>

definition hnp_ok :: "hashAndPos \<Rightarrow> bool" where
  "hnp_ok h \<longleftrightarrow> length (positions h) = length (hashes h)"

definition pairs :: "hashAndPos \<Rightarrow> (u64 \<times> Hash) list" where
  "pairs h = zip (positions h) (hashes h)"

definition of_pairs :: "(u64 \<times> Hash) list \<Rightarrow> hashAndPos" where
  "of_pairs ps = \<lparr>positions = map fst ps, hashes = map snd ps\<rparr>"

lemma of_pairs_simps [simp]:
  "positions (of_pairs ps) = map fst ps" "hashes (of_pairs ps) = map snd ps"
  "hnp_Len (of_pairs ps) = length ps" "hnp_ok (of_pairs ps)" "pairs (of_pairs ps) = ps"
  "of_pairs [] = hnp_empty"
  by (simp_all add: of_pairs_def hnp_Len_def hnp_ok_def pairs_def zip_map_fst_snd hnp_empty_def)

lemma of_pairs_pairs: "hnp_ok h \<Longrightarrow> of_pairs (pairs h) = h"
  by (simp add: of_pairs_def pairs_def hnp_ok_def)

lemma of_pairs_zip: "length ps = length hs \<Longrightarrow> of_pairs (zip ps hs) = \<lparr>positions = ps, hashes = hs\<rparr>"
  by (simp add: of_pairs_def)

lemma hnp_Append_of_pairs [simp]: "hnp_Append (of_pairs c) p h = of_pairs (c @ [(p, h)])"
  by (simp add: hnp_Append_def of_pairs_def)

lemma consHnp_of_pairs [simp]: "consHnp p [h] (of_pairs c) = of_pairs ((p, h) # c)"
  by (simp add: consHnp_def of_pairs_def)

definition merge_pairs :: "(u64 \<times> Hash) list \<Rightarrow> (u64 \<times> Hash) list \<Rightarrow> (u64 \<times> Hash) list" where
  "merge_pairs = mergeSortedSlicesFunc_loop (\<lambda>x y. uint64Cmp (fst x) (fst y))"

lemma merge_pairs_simps [simp]:
  "merge_pairs [] b = b" "merge_pairs a [] = a"
  "merge_pairs (x # a) (y # b) =
     (if fst x < fst y then x # merge_pairs a (y # b)
      else if fst y < fst x then y # merge_pairs (x # a) b
      else x # merge_pairs a b)"
proof -
  show "merge_pairs a [] = a" by (cases a) (simp_all add: merge_pairs_def)
qed (simp_all add: merge_pairs_def)

interpretation mhp: keyed_merge fst merge_pairs
  by unfold_locales auto

lemma copyRest_of_pairs:
  "length b - i \<le> room \<Longrightarrow> i \<le> length b \<Longrightarrow> copyRest (of_pairs c) (of_pairs b) i room = Inr (of_pairs (c @ drop i b))"
  by (simp add: copyRest_def of_pairs_def min_def drop_map)

lemma mergeSortedHashAndPos_loop_pairs:
  "length a - i + (length b - j) \<le> room \<Longrightarrow> i \<le> length a \<Longrightarrow> j \<le> length b \<Longrightarrow>
   mergeSortedHashAndPos_loop (of_pairs a) (of_pairs b) i j room (of_pairs c) =
     Inr (of_pairs (c @ merge_pairs (drop i a) (drop j b)))"
proof (induction room arbitrary: i j c)
  case 0
  then show ?case by (subst mergeSortedHashAndPos_loop.simps) simp
next
  case (Suc room)
  show ?case
  proof (cases "i < length a \<and> j < length b")
    case False
    then show ?thesis using Suc.prems
      by (subst mergeSortedHashAndPos_loop.simps) (auto simp: copyRest_of_pairs)
  next
    case True
    then have "drop i a = a ! i # drop (i + 1) a" "drop j b = b ! j # drop (j + 1) b"
      by (simp_all add: Cons_nth_drop_Suc)
    then show ?thesis using Suc.prems True
      by (subst mergeSortedHashAndPos_loop.simps) (auto simp: Suc.IH Let_def)
  qed
qed

lemma makeCopy_exact [simp]: "makeCopy (length ps) (map snd ps) = map snd ps"
  by (simp add: makeCopy_def)

lemma mergeSortedHashAndPos_pairs:
  "mergeSortedHashAndPos (of_pairs a) (of_pairs b) = Inr (of_pairs (merge_pairs a b))"
proof -
  have "\<lparr>positions = map fst ps, hashes = map snd ps\<rparr> = of_pairs ps" for ps by (simp add: of_pairs_def)
  then show ?thesis
    using mergeSortedHashAndPos_loop_pairs[of a 0 b 0 "length a + length b" "[]"]
    by (auto simp: mergeSortedHashAndPos_def)
qed

definition subtract_pairs :: "(u64 \<times> Hash) list \<Rightarrow> u64 list \<Rightarrow> (u64 \<times> Hash) list" where
  "subtract_pairs = subtractSortedSlice_loop (\<lambda>x. uint64Cmp (fst x))"

interpretation shp: keyed_difference fst subtract_pairs
proof
  show "subtract_pairs a [] = a" for a by (cases a) (auto simp: subtract_pairs_def)
qed (auto simp: subtract_pairs_def Let_def)

lemma subtractSortedHashAndPos_pairs:
  "subtractSortedHashAndPos (of_pairs a) b uint64Cmp = Inr (of_pairs (subtract_pairs a b))"
proof -
  have "subtractSortedHashAndPos_loop uint64Cmp (map fst a) (map snd a) b =
      Inr (of_pairs (subtract_pairs a b))"
  proof (induction "length a + length b" arbitrary: a b rule: less_induct)
    case less
    show ?case
    proof (cases a)
      case Nil then show ?thesis by (simp add: shp.subtract_Nil hnp_empty_def)
    next
      case a: (Cons x a')
      show ?thesis
      proof (cases b)
        case Nil then show ?thesis by (simp add: a shp.subtract_Nil2 of_pairs_def)
      next
        case b: (Cons y b')
        note IH = less[of a' b'] less[of a' b] less[of a b']
        show ?thesis using IH unfolding a b
          by (cases "fst x" y rule: linorder_cases) (auto simp: shp.subtract_Cons uint64Cmp_def)
      qed
    qed
  qed
  then show ?thesis by (simp add: subtractSortedHashAndPos_def)
qed

lemma subtractSortedHashAndPos_filter:
  assumes "ascending (map fst a)" "sorted b"
  shows "subtractSortedHashAndPos (of_pairs a) b uint64Cmp = Inr (of_pairs (filter (\<lambda>x. fst x \<notin> set b) a))"
  by (simp only: subtractSortedHashAndPos_pairs shp.subtract_filter[OF assms])

lemma keepHashAndPos_pairs:
  "keepHashAndPos P (map fst a) (map snd a) = Inr (of_pairs (filter (\<lambda>x. P (snd x)) a))"
  by (induction a) auto

lemma getHashAndPosHashSubset_pairs:
  "getHashAndPosHashSubset (of_pairs a) b = Inr (of_pairs (filter (\<lambda>x. snd x \<in> set b) a))"
  by (simp add: getHashAndPosHashSubset_def keepHashAndPos_pairs)

lemma removeHashesFromHashAndPos_pairs:
  "removeHashesFromHashAndPos (of_pairs a) b g = Inr (of_pairs (filter (\<lambda>x. snd x \<notin> g ` set b) a))"
  by (simp add: removeHashesFromHashAndPos_def keepHashAndPos_pairs)

lemma getHashAndPosSubset_filter:
  assumes "ascending (map fst a)" "ascending b"
  shows "getHashAndPosSubset (of_pairs a) b = Inr (of_pairs (filter (\<lambda>x. fst x \<in> set b) a))"
proof -
  have "getHashAndPosSubset_loop (map fst a) (map snd a) b = Inr (of_pairs (filter (\<lambda>x. fst x \<in> set b) a))"
    using assms
  proof (induction "length a + length b" arbitrary: a b rule: less_induct)
    case less
    show ?case
    proof (cases "a = [] \<or> b = []")
      case True then show ?thesis by (cases a) auto
    next
      case False
      then obtain x a' y b' where ab: "a = x # a'" "b = y # b'" by (cases a; cases b) auto
      have f2: "filter (\<lambda>z. fst z = y \<or> fst z \<in> set b') a' = filter (\<lambda>z. fst z \<in> set b') a'" if "y \<le> fst x"
        using that less.prems by (intro filter_cong) (auto simp: ab)
      have f3: "fst x \<notin> set b'" if "fst x \<le> y" using that less.prems by (auto simp: ab)
      note IH = less(1)[of a' b'] less(1)[of a' b] less(1)[of a b']
      show ?thesis using IH less.prems f2 f3 unfolding ab
        by (cases "fst x" y rule: linorder_cases) auto
    qed
  qed
  then show ?thesis by (simp add: getHashAndPosSubset_def)
qed

lemma sort_hnp_pairs: "sort_hnp (of_pairs a) = Inr (of_pairs (sort_key fst a))"
  by (simp add: sort_hnp_def zip_map_fst_snd of_pairs_def Let_def)

text \<open>A list of positions with the hashes a labelling gives them.\<close>

definition labelled :: "(u64 \<Rightarrow> Hash) \<Rightarrow> u64 list \<Rightarrow> (u64 \<times> Hash) list" where
  "labelled H ps = map (\<lambda>p. (p, H p)) ps"

lemma labelled_simps [simp]:
  "map fst (labelled H ps) = ps" "map snd (labelled H ps) = map H ps" "length (labelled H ps) = length ps"
  "labelled H [] = []" "labelled H (p # ps) = (p, H p) # labelled H ps"
  "labelled H (ps @ qs) = labelled H ps @ labelled H qs"
  by (simp_all add: labelled_def comp_def)

lemma labelled_eq: "of_pairs (labelled H ps) = \<lparr>positions = ps, hashes = map H ps\<rparr>"
  by (simp add: of_pairs_def)

lemma sort_labelled: "sort_key fst (labelled H ps) = labelled H (sort ps)"
proof (induction ps)
  case (Cons p ps)
  have "insort_key fst (p, H p) (labelled H qs) = labelled H (insort p qs)" for qs
    by (induction qs) auto
  then show ?case using Cons by simp
qed simp

lemma toHashAndPos_labelled: "toHashAndPos ps (map H ps) = Inr (of_pairs (labelled H (sort ps)))"
  by (simp add: toHashAndPos_def sort_hnp_pairs sort_labelled flip: labelled_eq)

lemma set_labelled [simp]: "set (labelled H ps) = (\<lambda>p. (p, H p)) ` set ps"
  by (simp add: labelled_def)

lemma filter_labelled: "filter (\<lambda>x. P (fst x)) (labelled H ps) = labelled H (filter P ps)"
  by (induction ps) auto

lemma merge_labelled:
  "merge_pairs (labelled H ps) (labelled H qs) = labelled H (mergeSortedSlicesFunc ps qs uint64Cmp)"
  unfolding mergeSortedSlicesFunc_eq
  by (induction uint64Cmp ps qs rule: mergeSortedSlicesFunc_loop.induct) auto

end
