(* ===== verification/CalculateHashes.thy ===== *)
theory CalculateHashes
  imports Climb HashAndPos
begin

text \<open>
  \<open>calculateHashes\<close> of \<open>prove.go\<close>, which hashes from the targets of a proof up to the roots.

  The inner loop that looks for the row of a position runs for ever on a position that lies in
  no row, and the read of the next proof hash panics when the proof is too short, so the model
  is a partial function into results. The main lemma (\<open>calculateHashes_labelled\<close>) says what it
  computes when the hashes it is given come from a labelling of the positions that obeys the law
  of \<open>getNextHash\<close>: the labels of all the positions it climbs through and of the roots it
  reaches.
\<close>

unbundle bit_operations_syntax

record Proof =
  Targets :: "u64 list"
  proofHashes :: "Hash list"

partial_function (option) maxRow_loop :: "u64 \<Rightarrow> u8 \<Rightarrow> u64 \<Rightarrow> u8 \<Rightarrow> u8 option" where
  [code]: "maxRow_loop provePos totalRows numLeaves row =
     (if provePos > maxPositionAtRow_val row totalRows numLeaves
      then maxRow_loop provePos totalRows numLeaves (row + 1)
      else Some row)"

partial_function (option) calculateHashes_loop ::
  "u64 \<Rightarrow> u8 \<Rightarrow> hashAndPos \<Rightarrow> Hash list \<Rightarrow> u8 \<Rightarrow> nat \<Rightarrow> hashAndPos \<Rightarrow> nat \<Rightarrow> nat \<Rightarrow> Hash list \<Rightarrow>
     (hashAndPos \<times> Hash list) result option" where
  [code]: "calculateHashes_loop numLeaves totalRows toProve pf row toProveIdx nextProves nextProvesIdx proofHashIdx roots =
     (if row \<le> totalRows then
        (let (provePos, idx, sibIdx) = getNextPos (positions toProve) (positions nextProves) toProveIdx nextProvesIdx
         in if idx = - 1 then Some (Inr (nextProves, roots))
            else (case (if idx = 0 then nthR (hashes toProve) toProveIdx else nthR (hashes nextProves) nextProvesIdx) of
                    Inl e \<Rightarrow> Some (Inl e)
                  | Inr proveHash \<Rightarrow>
                     (let toProveIdx1 = (if idx = 0 then toProveIdx + 1 else toProveIdx);
                          nextProvesIdx1 = (if idx = 0 then nextProvesIdx else nextProvesIdx + 1)
                      in Option.bind (maxRow_loop provePos totalRows numLeaves row) (\<lambda>row1.
                         if isRootPositionOnRow provePos numLeaves row1
                         then calculateHashes_loop numLeaves totalRows toProve pf row1 toProveIdx1 nextProves
                                nextProvesIdx1 proofHashIdx (roots @ [proveHash])
                         else (case (if sibIdx = 0 then nthR (hashes toProve) toProveIdx1
                                     else if sibIdx \<noteq> - 1 then nthR (hashes nextProves) nextProvesIdx1
                                     else nthR pf proofHashIdx) of
                                 Inl e \<Rightarrow> Some (Inl e)
                               | Inr sibHash \<Rightarrow>
                                   calculateHashes_loop numLeaves totalRows toProve pf row1
                                     (if sibIdx = 0 then toProveIdx1 + 1 else toProveIdx1)
                                     (hnp_Append nextProves (parent provePos totalRows)
                                        (getNextHash provePos proveHash sibHash))
                                     (if sibIdx \<noteq> 0 \<and> sibIdx \<noteq> - 1 then nextProvesIdx1 + 1 else nextProvesIdx1)
                                     (if sibIdx = - 1 then proofHashIdx + 1 else proofHashIdx)
                                     roots)))))
      else Some (Inr (nextProves, roots)))"

text \<open>\<open>None\<close> for \<open>delHashes\<close> is Go's \<open>nil\<close>: the hashes of the targets are taken to be empty.\<close>

definition calculateHashes :: "u64 \<Rightarrow> Hash list option \<Rightarrow> Proof \<Rightarrow> (hashAndPos \<times> Hash list) result" where
  "calculateHashes numLeaves delHashes pr =
     (let totalRows = treeRows numLeaves;
          dels = (case delHashes of None \<Rightarrow> replicate (length (Targets pr)) empty | Some hs \<Rightarrow> hs)
      in bindR (toHashAndPos (Targets pr) dels) (\<lambda>toProve.
         bindR (returns (calculateHashes_loop numLeaves totalRows toProve (proofHashes pr) 0 0 hnp_empty 0 0 [])) (\<lambda>res.
         bindR res (\<lambda>(nextProves, roots).
         bindR (mergeSortedHashAndPos nextProves toProve) (\<lambda>merged.
         Inr (merged, roots))))))"

section \<open>Rows\<close>

lemma maxRow_loop_eq:
  assumes "fits n F" "place n F p h r o'" "k \<le> r"
  shows "maxRow_loop p F n (of_nat k) = Some (of_nat r)"
proof -
  note pr = place_row[OF assms(1,2)]
  have f: "unat F \<le> 63" "r \<le> unat F" "unat n \<le> 2 ^ unat F" using assms(1) pr by (auto simp: fits_def)
  have max: "unat (maxPositionAtRow_val (of_nat k) F n) = rowStart (unat F) k + unat n div 2 ^ k - 1" if "k \<le> r" for k
    using unat_maxPositionAtRow_val[of k F n] f that by simp
  have "(o' + 1) * 2 ^ r \<le> unat n" using assms(2) in_tree_in_forest by (auto simp: place_def in_forest_def)
  then have o': "o' < unat n div 2 ^ r" by (simp add: less_eq_div_iff_mult_less_eq Suc_le_eq[symmetric])
  show ?thesis using assms(3)
  proof (induction rule: inc_induct)
    case base
    have "p \<le> maxPositionAtRow_val (of_nat r) F n"
      using max[of r] o' pr(6) unfolding word_le_nat_alt by linarith
    then show ?case by (subst maxRow_loop.simps) (auto simp: not_less)
  next
    case (step k)
    have "unat n div 2 ^ k \<le> 2 ^ (unat F - k)"
      using f(2,3) step by (simp add: div_le_dividend less_mult_imp_div_less power_diff div_le_mono)
    then have "rowStart (unat F) k + unat n div 2 ^ k \<le> rowStart (unat F) (Suc k)"
      using rowStart_Suc[of k "unat F"] f step by simp
    moreover have "rowStart (unat F) (Suc k) \<le> unat p" using rowStart_mono[of "Suc k" r "unat F"] pr(6) step by simp
    moreover have "0 < rowStart (unat F) (Suc k)" using rowStart_Suc[of k "unat F"] f step by simp
    ultimately have "maxPositionAtRow_val (of_nat k) F n < p"
      using max[of k] step unfolding word_less_nat_alt by linarith
    then show ?case using step by (subst maxRow_loop.simps) (simp add: add.commute)
  qed
qed

lemma maxRow_loop_node:
  assumes "fits n F" "node n F p" "row \<le> detectRow p F"
  shows "maxRow_loop p F n row = Some (detectRow p F)"
proof -
  obtain h r o' where a: "place n F p h r o'" using node_place[OF assms(1,2)] .
  note pr = place_row[OF assms(1) a]
  have "unat row \<le> r" using assms(3) pr assms(1) by (simp add: word_le_nat_alt fits_def)
  then show ?thesis using maxRow_loop_eq[OF assms(1) a, of "unat row"] pr(5) by simp
qed

lemma root_treeRows:
  assumes "fits n F" "node n F p" "F = treeRows n"
  shows "isRootPositionOnRow p n (detectRow p F) \<longleftrightarrow> root n F p"
  using possibleRow_loop_node(3)[OF assms(1,2) order_refl] assms(3)
  by (simp add: isRootPositionOnRowTotalRows_def)

section \<open>What calculateHashes computes\<close>

text \<open>
  A labelling of the positions by hashes that obeys the law of \<open>getNextHash\<close> at every position
  the climb passes below the roots.
\<close>

definition labels :: "u64 \<Rightarrow> u8 \<Rightarrow> u64 set \<Rightarrow> (u64 \<Rightarrow> Hash) \<Rightarrow> bool" where
  "labels n F C H \<longleftrightarrow>
     (\<forall>c \<in> C. \<not> root n F c \<longrightarrow> H (parent c F) = getNextHash c (H c) (H (sibling c)))"

lemma below_prefix:
  assumes "ascending cs" obtains ds where "cs = below x cs @ ds"
proof -
  have "below x cs = takeWhile (\<lambda>c. unat c < x) cs" using assms
  proof (induction cs)
    case (Cons c cs)
    then have "unat c < unat d" if "d \<in> set cs" for d using that by (simp add: word_less_nat_alt)
    then have "\<not> unat c < x \<Longrightarrow> below x cs = []" by (force simp: filter_empty_conv)
    then show ?case using Cons by auto
  qed simp
  then show ?thesis using that[of "dropWhile (\<lambda>c. unat c < x) cs"] by (metis takeWhile_dropWhile_id)
qed

lemma next_need:
  assumes "needs n F C (below x' cs) = needs n F C (below x cs) @ [s]" "ascending cs"
    "take (length (needs n F C cs)) pf = map H (needs n F C cs)"
  shows "nthR pf (length (needs n F C (below x cs))) = Inr (H s)"
proof -
  obtain ds where "cs = below x' cs @ ds" using below_prefix[OF assms(2)] .
  then have "needs n F C cs = needs n F C (below x' cs) @ needs n F C ds"
    by (metis (no_types, lifting) filter_append map_append needs_def)
  then have cs: "needs n F C cs = (needs n F C (below x cs) @ [s]) @ needs n F C ds" using assms(1) by simp
  let ?k = "length (needs n F C (below x cs))"
  have lt: "?k < length (needs n F C cs)" "needs n F C cs ! ?k = s" using cs by (simp_all add: nth_append)
  have "length (take (length (needs n F C cs)) pf) = length (needs n F C cs)" using assms(3) by simp
  then have "?k < length pf" using lt(1) by simp
  moreover have "pf ! ?k = H s"
    using lt assms(3) by (metis nth_map nth_take)
  ultimately show ?thesis by simp
qed

lemma climb_hash:
  assumes "targets_ok n F T" "ascending T" "C = climbs n F (set T)" "cut n F C x"
    "p \<in> C" "x \<le> unat p" "\<forall>c \<in> C. x \<le> unat c \<longrightarrow> p \<le> c"
    "N = nexts n F C (below x (climbL n F T))"
  shows "p \<in> set T \<Longrightarrow> nthR (map H T) (cnt T x) = Inr (H p)"
    "p \<notin> set T \<Longrightarrow> nthR (map H N) (cnt N x) = Inr (H p)"
    "\<not> root n F p \<Longrightarrow> sibling p \<in> C \<Longrightarrow> sibling p \<in> set T \<Longrightarrow>
       nthR (map H T) (cnt T x + of_bool (p \<in> set T)) = Inr (H (sibling p))"
    "\<not> root n F p \<Longrightarrow> sibling p \<in> C \<Longrightarrow> sibling p \<notin> set T \<Longrightarrow>
       nthR (map H N) (cnt N x + of_bool (p \<notin> set T)) = Inr (H (sibling p))"
proof -
  have TN: "set T \<subseteq> C" "set N \<subseteq> C"
    using assms(3) unfolding assms(8) set_nexts[OF assms(1,3)] by (auto intro: climbs.intros)
  have N: "ascending N" unfolding assms(8) by (rule ascending_nexts[OF assms(1,3)])
  have f: "fits n F" using assms(1) by (auto simp: targets_ok_def)
  note nx = climb_next(2-4)[OF assms]
  have leastT: "\<forall>a \<in> set T. x \<le> unat a \<longrightarrow> p \<le> a" and leastN: "\<forall>a \<in> set N. x \<le> unat a \<longrightarrow> p \<le> a"
    using assms(7) TN by blast+
  show "p \<in> set T \<Longrightarrow> nthR (map H T) (cnt T x) = Inr (H p)"
    using cnt_least[OF assms(2) _ assms(6) leastT] by simp
  show "p \<notin> set T \<Longrightarrow> nthR (map H N) (cnt N x) = Inr (H p)"
    using cnt_least[OF N _ assms(6) leastN] nx by auto
  have pN: "p \<in> set N \<longleftrightarrow> p \<notin> set T" using nx by auto
  {
    assume r: "\<not> root n F p" "sibling p \<in> C"
    note l = least_sibling[OF assms(1,3-7) r(1)]
    have q: "unat (sibling p) = Suc (unat p)" using sibling_node(5)[OF f l(1) r(1)] l(2) r(2) by simp
    note ct = cnt_step[OF assms(2,6) leastT, folded q] and cn = cnt_step[OF N assms(6) leastN, folded q, unfolded pN]
    show "sibling p \<in> set T \<Longrightarrow> nthR (map H T) (cnt T x + of_bool (p \<in> set T)) = Inr (H (sibling p))"
      using cnt_nth[OF assms(2), of "sibling p"] ct by simp
    show "sibling p \<notin> set T \<Longrightarrow> nthR (map H N) (cnt N x + of_bool (p \<notin> set T)) = Inr (H (sibling p))"
      using cnt_nth[OF N, of "sibling p"] cn nx(3) r by simp
  }
qed

lemma calculateHashes_loop_labelled:
  assumes "targets_ok n F T" "ascending T" "C = climbs n F (set T)" "F = treeRows n"
    "labels n F C H" "take (length (needs n F C (climbL n F T))) pf = map H (needs n F C (climbL n F T))"
    "cut n F C x" "row \<le> F" "\<forall>c \<in> C. x \<le> unat c \<longrightarrow> row \<le> detectRow c F"
    "N = nexts n F C (below x (climbL n F T))"
  shows "calculateHashes_loop n F (of_pairs (labelled H T)) pf row (cnt T x) (of_pairs (labelled H N)) (cnt N x)
      (length (needs n F C (below x (climbL n F T)))) (map H (filter (root n F) (below x (climbL n F T)))) =
    Some (Inr (of_pairs (labelled H (nexts n F C (climbL n F T))), map H (filter (root n F) (climbL n F T))))"
  using assms(7-10)
proof (induction "card {c \<in> C. x \<le> unat c}" arbitrary: x row N rule: less_induct)
  case less
  let ?cs = "climbL n F T"
  have f: "fits n F" "\<forall>t \<in> set T. node n F t" using assms(1) by (auto simp: targets_ok_def)
  have TN: "set T \<union> set N \<subseteq> C" using assms(3) unfolding less.prems(4) set_nexts[OF assms(1,3)] by (auto intro: climbs.intros)
  show ?case
  proof (cases "\<exists>c \<in> C. x \<le> unat c")
    case False
    then have b: "below x ?cs = ?cs" by (intro below_all) (auto simp: assms(3) not_le)
    have "getNextPos T N (cnt T x) (cnt N x) = (0, - 1, - 1)"
      using False TN by (intro getNextPos_none) (auto simp: not_le)
    then show ?thesis using less.prems(2) b by (subst calculateHashes_loop.simps) (simp add: less.prems(4))
  next
    case True
    then obtain p where p: "p \<in> C" "x \<le> unat p" "\<forall>c \<in> C. x \<le> unat c \<longrightarrow> p \<le> c"
      by (rule least_above)
    define x' where "x' = advance n F C p"
    define N' where "N' = nexts n F C (below x' ?cs)"
    have nd: "node n F p" using climbs_node[OF f] assms(3) p(1) by blast
    have row: "row \<le> detectRow p F" using less.prems(3) p by blast
    note rl = possibleRow_loop_node(2)[OF f(1) nd row] maxRow_loop_node[OF f(1) nd row]
      root_treeRows[OF f(1) nd assms(4)]
    obtain s where g: "getNextPos T N (cnt T x) (cnt N x) = (p, if p \<in> set T then 0 else 1, s)"
      "\<not> root n F p \<longrightarrow> s = (if sibling p \<in> C then (if sibling p \<in> set T then 0 else 1) else - 1)"
      using climb_next(1)[OF assms(1-3) less.prems(1) p less.prems(4)] by blast
    note c = climb_counts[OF assms(1-3) less.prems(1) p less.prems(4) N'_def x'_def]
    note l = climb_lists[OF assms(1,3) less.prems(1) p refl refl, folded x'_def, folded N'_def less.prems(4)]
    have xx: "unat p < x'" by (simp add: x'_def advance_def)
    have rows: "\<forall>c \<in> C. x' \<le> unat c \<longrightarrow> detectRow p F \<le> detectRow c F"
      using detectRow_mono[OF f(1) nd] climbs_node[OF f] assms(3) xx by (auto simp: word_le_nat_alt)
    note IH = less.hyps[OF above_decreases[OF p(1,2) xx] climb_advance(1)[OF assms(1,3) less.prems(1) p, folded x'_def] rl(1) rows N'_def]
    note h = climb_hash[OF assms(1-3) less.prems(1) p less.prems(4), of H]
    have pfh: "nthR pf (length (needs n F C (below x ?cs))) = Inr (H (sibling p))" if "\<not> root n F p" "sibling p \<notin> C"
      using next_need[OF l(5)[OF that] _ assms(6)] by simp
    have law: "\<not> root n F p \<Longrightarrow> getNextHash p (H p) (H (sibling p)) = H (parent p F)"
      using assms(5) p(1) by (simp add: labels_def)
    show ?thesis
    proof (cases "root n F p")
      case True
      then show ?thesis using IH c l g less.prems(2) rl h
        by (subst calculateHashes_loop.simps) (cases "p \<in> set T"; simp add: Let_def)
    next
      case False
      then show ?thesis using IH c l g less.prems(2) rl h pfh law
        by (subst calculateHashes_loop.simps)
          (cases "sibling p \<in> C"; cases "p \<in> set T"; cases "sibling p \<in> set T"; simp add: Let_def)
    qed
  qed
qed

text \<open>The positions whose hashes a proof of the targets has to bring.\<close>

definition needed :: "u64 \<Rightarrow> u8 \<Rightarrow> u64 list \<Rightarrow> u64 list" where
  "needed n F ts = needs n F (climbs n F (set ts)) (climbL n F ts)"

lemma climbL_merge:
  assumes "targets_ok n F T" "ascending T" "C = climbs n F (set T)"
  shows "mergeSortedSlicesFunc (nexts n F C (climbL n F T)) T uint64Cmp = climbL n F T"
proof -
  obtain x where x: "\<forall>c \<in> C. unat c < x" using finite_nat_set_iff_bounded[of "unat ` C"] by auto
  have b: "below x (climbL n F T) = climbL n F T" using x by (intro below_all) (simp add: assms(3))
  note N = ascending_nexts[OF assms(1,3), of x, unfolded b] and sN = set_nexts[OF assms(1,3), of x, unfolded b]
  show ?thesis
  proof (rule strict_sorted_equal)
    show "ascending (mergeSortedSlicesFunc (nexts n F C (climbL n F T)) T uint64Cmp)"
      by (rule mergeSortedSlicesFunc_set(2)[OF N assms(2)])
    show "set (mergeSortedSlicesFunc (nexts n F C (climbL n F T)) T uint64Cmp) = set (climbL n F T)"
      unfolding mergeSortedSlicesFunc_set(1)[OF N assms(2)] sN climbL_set
    proof (intro set_eqI)
      fix c
      show "c \<in> (\<lambda>c. parent c F) ` {d \<in> C. \<not> root n F d \<and> unat d < x} \<union> set T \<longleftrightarrow> c \<in> climbs n F (set T)"
        using x climbs_cases[of c n F "set T"] by (auto simp: assms(3))
    qed
  qed simp
qed

lemma calculateHashes_labelled:
  assumes "targets_ok n F ts" "distinct ts" "F = treeRows n" "labels n F (climbs n F (set ts)) H"
    "take (length (needed n F ts)) pf = map H (needed n F ts)"
    "dels = Some (map H ts) \<or> dels = None \<and> (\<forall>t \<in> set ts. H t = empty)"
  shows "calculateHashes n dels \<lparr>Targets = ts, proofHashes = pf\<rparr> =
    Inr (of_pairs (labelled H (climbL n F ts)), map H (filter (root n F) (climbL n F ts)))"
proof -
  let ?T = "sort ts" let ?C = "climbs n F (set ts)"
  have asc: "ascending ?T" using assms(2) by (simp add: strict_sorted_iff)
  have ok: "targets_ok n F ?T" using assms(1) by (simp add: targets_ok_def)
  have cl: "climbL n F ?T = climbL n F ts" by (simp add: climbL_def)
  have d: "(case dels of None \<Rightarrow> replicate (length ts) empty | Some hs \<Rightarrow> hs) = map H ts"
    using assms(6) by (auto simp: map_replicate_const[symmetric] cong: map_cong split: option.splits)
  have z: "nexts n F ?C (below 0 (climbL n F ?T)) = []" "needs n F ?C (below 0 (climbL n F ?T)) = []"
    by (simp_all add: nexts_def needs_def heads_def)
  have loop: "calculateHashes_loop n F (of_pairs (labelled H ?T)) pf 0 0 hnp_empty 0 0 [] =
    Some (Inr (of_pairs (labelled H (nexts n F ?C (climbL n F ?T))), map H (filter (root n F) (climbL n F ?T))))"
    using calculateHashes_loop_labelled[OF ok asc _ assms(3), of ?C H pf 0 0 "[]"] assms(4,5) z
    by (simp add: needed_def cl cut_def)
  have mg: "merge_pairs (labelled H (nexts n F ?C (climbL n F ?T))) (labelled H ?T) = labelled H (climbL n F ?T)"
    using climbL_merge[OF ok asc refl] by (simp add: merge_labelled)
  show ?thesis
    unfolding calculateHashes_def Let_def Proof.select_convs d toHashAndPos_labelled
    using loop mg by (simp add: assms(3)[symmetric] mergeSortedHashAndPos_pairs cl)
qed

end
