(* ===== verification/Forest.thy ===== *)
theory Forest
  imports CalculateHashes
begin

text \<open>
  The accumulator as the code means it: a forest with one tree for each set bit of the number
  of leaves, the tree of row \<open>h\<close> below the root position of that row. A tree has hashes at its
  leaves; when a leaf is deleted its sibling takes the place of their parent, so the leaves of a
  tree lie at any row below its root. A tree all of whose leaves are deleted is empty
  (\<open>None\<close>) and its root hash is the zero hash.

  This theory is the specification: it uses no code but \<open>parentHash\<close> and the position
  functions. The labels of the positions of such a forest obey the law of \<open>getNextHash\<close>
  (\<open>labels_forest\<close>), also after a deletion (\<open>labels_prune\<close>), which is what
  \<open>calculateHashes_labelled\<close> asks for.
\<close>

unbundle bit_operations_syntax

section \<open>Trees\<close>

datatype utree = Tip Hash | Node utree utree

primrec thash :: "utree \<Rightarrow> Hash" where
  "thash (Tip h) = h"
| "thash (Node l r) = parentHash (thash l) (thash r)"

primrec rhash :: "utree option \<Rightarrow> Hash" where
  "rhash None = empty"
| "rhash (Some t) = thash t"

primrec leaves :: "utree \<Rightarrow> Hash list" where
  "leaves (Tip h) = [h]"
| "leaves (Node l r) = leaves l @ leaves r"

primrec height :: "utree \<Rightarrow> nat" where
  "height (Tip h) = 0"
| "height (Node l r) = Suc (max (height l) (height r))"

text \<open>No node of the tree has the zero hash, which the code reserves for empty roots.\<close>

primrec nonzero :: "utree \<Rightarrow> bool" where
  "nonzero (Tip h) \<longleftrightarrow> h \<noteq> empty"
| "nonzero (Node l r) \<longleftrightarrow> parentHash (thash l) (thash r) \<noteq> empty \<and> nonzero l \<and> nonzero r"

lemma nonzero_thash: "nonzero t \<Longrightarrow> thash t \<noteq> empty"
  by (cases t) auto

fun join :: "utree option \<Rightarrow> utree option \<Rightarrow> utree option" where
  "join None t = t"
| "join t None = t"
| "join (Some l) (Some r) = Some (Node l r)"

text \<open>The subtree \<open>d\<close> rows down, at an offset of which the low \<open>d\<close> bits matter.\<close>

fun child :: "bool \<Rightarrow> utree \<Rightarrow> utree option" where
  "child left (Tip h) = None"
| "child left (Node l r) = Some (if left then l else r)"

primrec sub :: "utree \<Rightarrow> nat \<Rightarrow> nat \<Rightarrow> utree option" where
  "sub t 0 k = Some t"
| "sub t (Suc d) k = Option.bind (sub t d (k div 2)) (child (even k))"

text \<open>The tree below position \<open>p\<close> after the positions of \<open>D\<close> are deleted.\<close>

primrec prune :: "u64 set \<Rightarrow> u8 \<Rightarrow> u64 \<Rightarrow> utree \<Rightarrow> utree option" where
  "prune D F p (Tip h) = (if p \<in> D then None else Some (Tip h))"
| "prune D F p (Node l r) =
     (if p \<in> D then None else join (prune D F (leftChild p F) l) (prune D F (rightChild p F) r))"

definition nonzeroO :: "utree option \<Rightarrow> bool" where
  "nonzeroO t = (case t of None \<Rightarrow> True | Some u \<Rightarrow> nonzero u)"

lemma sub_nonzero: "nonzero t \<Longrightarrow> sub t d k = Some u \<Longrightarrow> nonzero u"
proof (induction d arbitrary: k u)
  case (Suc d)
  then obtain v where "sub t d (k div 2) = Some v" "child (even k) v = Some u"
    by (auto simp: bind_eq_Some_conv)
  then show ?case using Suc.IH[of "k div 2" v] Suc.prems(1) by (cases v) (auto split: if_splits)
qed simp

section \<open>Forests\<close>

type_synonym forest = "nat \<Rightarrow> utree option"

text \<open>The rows that have a tree, the highest first, as \<open>RootPositions\<close> lists them.\<close>

definition rows :: "u64 \<Rightarrow> nat list" where
  "rows n = rev (filter (bit n) [0..<64])"

definition tree_row :: "u64 \<Rightarrow> nat \<Rightarrow> nat \<Rightarrow> nat" where
  "tree_row n r k = (case find (\<lambda>h. in_tree (unat n) h r k) [0..<64] of None \<Rightarrow> 0 | Some h \<Rightarrow> h)"

definition subtree_at :: "u64 \<Rightarrow> u8 \<Rightarrow> forest \<Rightarrow> u64 \<Rightarrow> utree option" where
  "subtree_at n F Fo p =
     (let r = unat (detectRow p F);
          k = unat p - rowStart (unat F) r;
          h = tree_row n r k
      in Option.bind (Fo h) (\<lambda>t. sub t (h - r) k))"

definition label :: "u64 \<Rightarrow> u8 \<Rightarrow> forest \<Rightarrow> u64 \<Rightarrow> Hash" where
  "label n F Fo p = rhash (subtree_at n F Fo p)"

definition delete :: "u64 \<Rightarrow> u8 \<Rightarrow> u64 set \<Rightarrow> forest \<Rightarrow> forest" where
  "delete n F D Fo = (\<lambda>h. Option.bind (Fo h) (prune D F (rootPosition n (of_nat h) F)))"

definition forest_nonzero :: "u64 \<Rightarrow> forest \<Rightarrow> bool" where
  "forest_nonzero n Fo \<longleftrightarrow> list_all (\<lambda>h. nonzeroO (Fo h)) (rows n)"

text \<open>The leaves of a forest from left to right.\<close>

definition forest_leaves :: "u64 \<Rightarrow> forest \<Rightarrow> Hash list" where
  "forest_leaves n Fo = concat (map (\<lambda>h. case Fo h of None \<Rightarrow> [] | Some t \<Rightarrow> leaves t) (rows n))"

section \<open>Subtrees and places\<close>

lemma tree_row_place:
  assumes "in_tree (unat n) h r k" "h < 64" shows "tree_row n r k = h"
proof -
  have "find (\<lambda>h. in_tree (unat n) h r k) [0..<64] \<noteq> None" using assms by (auto simp: find_None_iff)
  then obtain g where g: "find (\<lambda>h. in_tree (unat n) h r k) [0..<64] = Some g" by auto
  then have "in_tree (unat n) g r k" by (auto simp: find_Some_iff)
  then show ?thesis using g in_tree_unique[OF assms(1)] by (simp add: tree_row_def)
qed

lemma place_63: "fits n F \<Longrightarrow> place n F p h r k \<Longrightarrow> h \<le> 63 \<and> r \<le> 63"
  using place_row[of n F p h r k] by (auto simp: fits_def)

lemma subtree_at_place:
  assumes "fits n F" "place n F p h r k"
  shows "subtree_at n F Fo p = Option.bind (Fo h) (\<lambda>t. sub t (h - r) k)"
proof -
  note pr = place_row[OF assms] and h = place_63[OF assms]
  have "unat (detectRow p F) = r" using pr(5) h by simp
  moreover have "tree_row n r k = h" using assms(2) h by (intro tree_row_place) (auto simp: place_def)
  ultimately show ?thesis using pr(6) by (simp add: subtree_at_def Let_def)
qed

lemma subtree_at_parent:
  assumes "fits n F" "node n F p" "\<not> root n F p"
  shows "subtree_at n F Fo p = Option.bind (subtree_at n F Fo (parent p F)) (child (isLeftNiece p))"
    "subtree_at n F Fo (sibling p) = Option.bind (subtree_at n F Fo (parent p F)) (child (\<not> isLeftNiece p))"
proof -
  obtain h r k where a: "place n F p h r k" "r < h" using inner[OF assms] .
  note pp = node_parent[OF assms(1) a] and ps = node_sibling[OF assms(1) a]
  have d: "h - r = Suc (h - Suc r)" using a(2) by simp
  have e: "isLeftNiece p \<longleftrightarrow> even k" using node_rightSib(2)[OF assms(1) a] .
  show "subtree_at n F Fo p = Option.bind (subtree_at n F Fo (parent p F)) (child (isLeftNiece p))"
    unfolding subtree_at_place[OF assms(1) a(1)] subtree_at_place[OF assms(1) pp] d e
    by (cases "Fo h") auto
  have k: "(if even k then k + 1 else k - 1) div 2 = k div 2" "even (if even k then k + 1 else k - 1) \<longleftrightarrow> odd k"
    by (auto elim!: oddE evenE)
  show "subtree_at n F Fo (sibling p) = Option.bind (subtree_at n F Fo (parent p F)) (child (\<not> isLeftNiece p))"
    unfolding subtree_at_place[OF assms(1) ps] subtree_at_place[OF assms(1) pp] d e sub.simps k
    by (cases "Fo h") auto
qed

lemma subtree_at_up:
  assumes "fits n F" "node n F p" "\<not> root n F p" "subtree_at n F Fo p = Some t"
  obtains l r where "subtree_at n F Fo (parent p F) = Some (Node l r)"
    "subtree_at n F Fo p = Some (if isLeftNiece p then l else r)"
    "subtree_at n F Fo (sibling p) = Some (if isLeftNiece p then r else l)"
proof -
  obtain u where u: "subtree_at n F Fo (parent p F) = Some u" "child (isLeftNiece p) u = Some t"
    using assms(4) unfolding subtree_at_parent(1)[OF assms(1-3)] by (auto simp: bind_eq_Some_conv)
  then obtain l r where "u = Node l r" by (cases u) auto
  then show ?thesis
    using that[of l r] u subtree_at_parent[OF assms(1-3), of Fo] by simp
qed

section \<open>The labels obey the law of getNextHash\<close>

lemma rows_iff: "h \<in> set (rows n) \<longleftrightarrow> bit n h"
  using bit_imp_le_length[of n h] by (auto simp: rows_def)

lemma forest_nonzeroD: "forest_nonzero n Fo \<Longrightarrow> bit n h \<Longrightarrow> nonzeroO (Fo h)"
  by (simp add: forest_nonzero_def list_all_iff rows_iff)

lemma subtree_nonzero:
  assumes "fits n F" "forest_nonzero n Fo" "node n F p" "subtree_at n F Fo p = Some t"
  shows "nonzero t"
proof -
  obtain h r k where a: "place n F p h r k" using node_place[OF assms(1,3)] .
  then have "bit n h" by (auto simp: place_def in_tree_def bit_unat_iff)
  then have "nonzeroO (Fo h)" using forest_nonzeroD[OF assms(2)] by simp
  moreover obtain u where "Fo h = Some u" "sub u (h - r) k = Some t"
    using assms(4) unfolding subtree_at_place[OF assms(1) a] by (auto simp: bind_eq_Some_conv)
  ultimately show ?thesis using sub_nonzero[of u] by (simp add: nonzeroO_def)
qed

lemma rhash_join:
  assumes "nonzeroO a" "nonzeroO b"
  shows "rhash (join a b) = getNextHash p (if isLeftNiece p then rhash a else rhash b)
    (if isLeftNiece p then rhash b else rhash a)"
  using assms nonzero_thash by (cases a; cases b) (auto simp: nonzeroO_def getNextHash_def)

lemma children_of_parent:
  assumes "fits n F" "node n F p" "\<not> root n F p"
  shows "leftChild (parent p F) F = (if isLeftNiece p then p else sibling p)"
    "rightChild (parent p F) F = (if isLeftNiece p then sibling p else p)"
proof -
  obtain h r k where a: "place n F p h r k" "r < h" using inner[OF assms] .
  have f: "unat F \<le> 63" using assms(1) by (simp add: fits_def)
  note pp = node_parent[OF assms(1) a] and ps = node_sibling[OF assms(1) a]
  have v: "valid_pos (unat F) (Suc r) (k div 2)" using place_row(4)[OF assms(1) pp] .
  have e: "isLeftNiece p \<longleftrightarrow> even k" using node_rightSib(2)[OF assms(1) a] .
  have l: "leftChild (parent p F) F = posn (unat F) r (2 * (k div 2))"
    and rt: "rightChild (parent p F) F = posn (unat F) r (2 * (k div 2) + 1)"
    using pp leftChild_posn[OF v f] rightChild_posn[OF v f] by (auto simp: place_def)
  show "leftChild (parent p F) F = (if isLeftNiece p then p else sibling p)"
    using a(1) ps unfolding l e by (auto simp: place_def elim!: oddE)
  show "rightChild (parent p F) F = (if isLeftNiece p then sibling p else p)"
    using a(1) ps unfolding rt e by (auto simp: place_def elim!: oddE)
qed

lemma climbs_subtree:
  assumes "fits n F" "\<forall>t \<in> T. node n F t \<and> subtree_at n F Fo t \<noteq> None" "c \<in> climbs n F T"
  shows "node n F c" "\<exists>t. subtree_at n F Fo c = Some t"
proof -
  show nd: "node n F c" using climbs_node[OF assms(1) _ assms(3)] assms(2) by blast
  show "\<exists>t. subtree_at n F Fo c = Some t" using assms(3)
  proof induction
    case (up p)
    have "node n F p" using climbs_node[OF assms(1) _ up(1)] assms(2) by blast
    then show ?case using up subtree_at_up[OF assms(1), of p Fo] by metis
  qed (use assms(2) in auto)
qed

lemma labels_forest:
  assumes "fits n F" "forest_nonzero n Fo" "\<forall>t \<in> T. node n F t \<and> subtree_at n F Fo t \<noteq> None"
  shows "labels n F (climbs n F T) (label n F Fo)"
  unfolding labels_def
proof (intro ballI impI)
  fix c assume c: "c \<in> climbs n F T" "\<not> root n F c"
  note cs = climbs_subtree[OF assms(1,3) c(1)]
  obtain u where u: "subtree_at n F Fo c = Some u" using cs(2) by blast
  obtain l r where lr: "subtree_at n F Fo (parent c F) = Some (Node l r)"
    "subtree_at n F Fo c = Some (if isLeftNiece c then l else r)"
    "subtree_at n F Fo (sibling c) = Some (if isLeftNiece c then r else l)"
    using subtree_at_up[OF assms(1) cs(1) c(2) u] .
  have "nonzero (Node l r)"
    using subtree_nonzero[OF assms(1,2) parent_node(1)[OF assms(1) cs(1) c(2)] lr(1)] .
  then have "nonzeroO (Some l)" "nonzeroO (Some r)" by (auto simp: nonzeroO_def)
  then show "label n F Fo (parent c F) = getNextHash c (label n F Fo c) (label n F Fo (sibling c))"
    using rhash_join[of "Some l" "Some r" c] lr by (simp add: label_def)
qed

section \<open>Deletion\<close>

definition pruned :: "u64 \<Rightarrow> u8 \<Rightarrow> u64 set \<Rightarrow> forest \<Rightarrow> u64 \<Rightarrow> utree option" where
  "pruned n F D Fo p = Option.bind (subtree_at n F Fo p) (prune D F p)"

lemma prune_target: "p \<in> D \<Longrightarrow> prune D F p t = None"
  by (cases t) auto

lemma pruned_target: "p \<in> D \<Longrightarrow> pruned n F D Fo p = None"
  by (cases "subtree_at n F Fo p") (simp_all add: pruned_def prune_target)

lemma pruned_parent:
  assumes "fits n F" "node n F p" "\<not> root n F p" "subtree_at n F Fo p \<noteq> None" "parent p F \<notin> D"
  shows "pruned n F D Fo (parent p F) =
    (if isLeftNiece p then join (pruned n F D Fo p) (pruned n F D Fo (sibling p))
     else join (pruned n F D Fo (sibling p)) (pruned n F D Fo p))"
proof -
  obtain l r where lr: "subtree_at n F Fo (parent p F) = Some (Node l r)"
    "subtree_at n F Fo p = Some (if isLeftNiece p then l else r)"
    "subtree_at n F Fo (sibling p) = Some (if isLeftNiece p then r else l)"
    using subtree_at_up[OF assms(1-3), of Fo] assms(4) by blast
  show ?thesis using lr children_of_parent[OF assms(1-3)] assms(5)
    by (cases "isLeftNiece p") (simp_all add: pruned_def)
qed

lemma nonzero_join: "nonzeroO (join a b) \<Longrightarrow> nonzeroO a \<and> nonzeroO b"
  by (cases a; cases b) (auto simp: nonzeroO_def)

lemma root_place:
  assumes "fits n F" "bit n h"
  shows "place n F (rootPosition n (of_nat h) F) h h (2 * (unat n div 2 ^ Suc h))"
proof -
  have f: "unat F \<le> 63" "unat n \<le> 2 ^ unat F" using assms(1) by (auto simp: fits_def)
  have "h \<le> unat F" using rootOffset_valid(1)[OF assms(2) f(2)] .
  then show ?thesis using rootPosition_posn[of h F n] f assms(2) by (simp add: place_def in_tree_def bit_unat_iff)
qed

lemma place_root:
  assumes "fits n F" "place n F p h h k" shows "p = rootPosition n (of_nat h) F"
proof -
  have t: "in_tree (unat n) h h k" "p = posn (unat F) h k" using assms(2) by (auto simp: place_def)
  then have "bit n h" "k = 2 * (unat n div 2 ^ Suc h)" by (auto simp: in_tree_def bit_unat_iff)
  then show ?thesis using root_place[OF assms(1)] t(2) by (simp add: place_def)
qed

lemma subtree_at_root:
  assumes "fits n F" "bit n h" shows "subtree_at n F Fo (rootPosition n (of_nat h) F) = Fo h"
  unfolding subtree_at_place[OF assms(1) root_place[OF assms]] by (cases "Fo h") auto

lemma pruned_root:
  assumes "fits n F" "bit n h" shows "pruned n F D Fo (rootPosition n (of_nat h) F) = delete n F D Fo h"
  by (simp add: pruned_def delete_def subtree_at_root[OF assms])

lemma pruned_nonzero:
  assumes "targets_ok n F T" "\<forall>t \<in> set T. subtree_at n F Fo t \<noteq> None"
    "forest_nonzero n (delete n F (set T) Fo)" "c \<in> climbs n F (set T)"
  shows "nonzeroO (pruned n F (set T) Fo c)"
proof -
  have f: "fits n F" "\<forall>t \<in> set T. node n F t" using assms(1) by (auto simp: targets_ok_def)
  have "place n F c h r k \<Longrightarrow> c \<in> climbs n F (set T) \<Longrightarrow> nonzeroO (pruned n F (set T) Fo c)" for h r k
  proof (induction "h - r" arbitrary: c r k)
    case 0
    then have "r = h" using place_row(1)[OF f(1)] by force
    then have "c = rootPosition n (of_nat h) F" "bit n h"
      using 0 place_root[OF f(1)] by (auto simp: place_def in_tree_def bit_unat_iff)
    then show ?case using pruned_root[OF f(1)] forest_nonzeroD[OF assms(3)] by simp
  next
    case (Suc d)
    then have rh: "r < h" by simp
    have nr: "\<not> root n F c" using root_iff(1)[OF f(1) Suc.prems(1)] rh by simp
    have ok: "\<forall>t \<in> set T. node n F t \<and> subtree_at n F Fo t \<noteq> None" using f assms(2) by blast
    note cs = climbs_subtree[OF f(1) ok Suc.prems(2)]
    have "nonzeroO (pruned n F (set T) Fo (parent c F))"
      using Suc.hyps(1)[OF _ node_parent[OF f(1) Suc.prems(1) rh] climbs.up[OF Suc.prems(2) nr]] Suc.hyps(2) by simp
    then show ?case
      using pruned_parent[OF f(1) cs(1) nr _ target_not_parent[OF assms(1) Suc.prems(2) nr], of Fo] cs(2)
      by (auto split: if_splits dest: nonzero_join)
  qed
  then show ?thesis using node_place[OF f(1) climbs_node[OF f assms(4)]] assms(4) by metis
qed

lemma labels_prune:
  assumes "targets_ok n F T" "\<forall>t \<in> set T. subtree_at n F Fo t \<noteq> None"
    "forest_nonzero n (delete n F (set T) Fo)"
  shows "labels n F (climbs n F (set T)) (\<lambda>p. rhash (pruned n F (set T) Fo p))"
  unfolding labels_def
proof (intro ballI impI)
  fix c assume c: "c \<in> climbs n F (set T)" "\<not> root n F c"
  have f: "fits n F" "\<forall>t \<in> set T. node n F t \<and> subtree_at n F Fo t \<noteq> None"
    using assms(1,2) by (auto simp: targets_ok_def)
  note cs = climbs_subtree[OF f c(1)]
  note pp = pruned_parent[OF f(1) cs(1) c(2) _ target_not_parent[OF assms(1) c], of Fo]
  have "nonzeroO (pruned n F (set T) Fo (parent c F))"
    using pruned_nonzero[OF assms climbs.up[OF c]] .
  then have "nonzeroO (pruned n F (set T) Fo c)" "nonzeroO (pruned n F (set T) Fo (sibling c))"
    using pp cs(2) by (auto split: if_splits dest: nonzero_join)
  then show "rhash (pruned n F (set T) Fo (parent c F)) =
      getNextHash c (rhash (pruned n F (set T) Fo c)) (rhash (pruned n F (set T) Fo (sibling c)))"
    using pp cs(2) rhash_join[of _ _ c] by (cases "isLeftNiece c") auto
qed

section \<open>Shape\<close>

text \<open>The tree of row \<open>h\<close> has at most \<open>h\<close> rows below its root.\<close>

definition forest_ok :: "u64 \<Rightarrow> forest \<Rightarrow> bool" where
  "forest_ok n Fo \<longleftrightarrow> list_all (\<lambda>h. case Fo h of None \<Rightarrow> True | Some t \<Rightarrow> height t \<le> h) (rows n)"

lemma forest_okD: "forest_ok n Fo \<Longrightarrow> bit n h \<Longrightarrow> Fo h = Some t \<Longrightarrow> height t \<le> h"
  using rows_iff[of h n] by (force simp: forest_ok_def list_all_iff)

lemma sub_height: "sub t d k = Some u \<Longrightarrow> height u + d \<le> height t"
proof (induction d arbitrary: k u)
  case (Suc d)
  then obtain v where v: "sub t d (k div 2) = Some v" "child (even k) v = Some u"
    by (auto simp: bind_eq_Some_conv)
  then have "height u < height v" by (cases v) (auto split: if_splits)
  then show ?case using Suc.IH[OF v(1)] by simp
qed simp

lemma subtree_height:
  assumes "fits n F" "forest_ok n Fo" "place n F p h r k" "subtree_at n F Fo p = Some t"
  shows "height t \<le> r"
proof -
  have b: "bit n h" using assms(3) by (auto simp: place_def in_tree_def bit_unat_iff)
  obtain u where u: "Fo h = Some u" "sub u (h - r) k = Some t"
    using assms(4) unfolding subtree_at_place[OF assms(1,3)] by (auto simp: bind_eq_Some_conv)
  show ?thesis using sub_height[OF u(2)] forest_okD[OF assms(2) b u(1)] place_row(1)[OF assms(1,3)] by simp
qed

lemma children_place:
  assumes "fits n F" "place n F p h (Suc r) k"
  shows "place n F (leftChild p F) h r (2 * k)" "place n F (rightChild p F) h r (2 * k + 1)"
  using assms in_tree_child[of "unat n" h r k] place_row(4)[OF assms]
    leftChild_posn[of F r k] rightChild_posn[of F r k]
  by (auto simp: place_def fits_def)

lemma child_inner:
  assumes "fits n F" "place n F p h (Suc r) k" "q = leftChild p F \<or> q = rightChild p F"
  shows "node n F q" "\<not> root n F q" "parent q F = p"
proof -
  obtain k' where k': "place n F q h r k'" "k' div 2 = k" using children_place[OF assms(1,2)] assms(3) by fastforce
  have rh: "r < h" using place_row(1)[OF assms(1,2)] by simp
  show "node n F q" using place_row(7)[OF assms(1) k'(1)] .
  show "\<not> root n F q" using root_iff(1)[OF assms(1) k'(1)] rh by simp
  show "parent q F = p" using node_parent[OF assms(1) k'(1) rh] k'(2) assms(2) by (simp add: place_def)
qed

lemma prune_unchanged:
  assumes "fits n F"
  shows "place n F p h r k \<Longrightarrow> height t \<le> r \<Longrightarrow> p \<notin> climbs n F D \<Longrightarrow> prune D F p t = Some t"
proof (induction t arbitrary: p r k)
  case (Tip x)
  then show ?case using climbs.target[of p D n F] by auto
next
  case (Node a b)
  then obtain s where s: "r = Suc s" by (cases r) auto
  have ne: "q \<notin> climbs n F D" if "q = leftChild p F \<or> q = rightChild p F" for q
    using climbs.up[of q n F D] child_inner[OF assms Node.prems(1)[unfolded s] that] Node.prems(3) by auto
  note cp = children_place[OF assms Node.prems(1)[unfolded s]]
  have "prune D F (leftChild p F) a = Some a" "prune D F (rightChild p F) b = Some b"
    using Node.IH(1)[OF cp(1)] Node.IH(2)[OF cp(2)] Node.prems(2) s ne by auto
  moreover have "p \<notin> D" using Node.prems(3) climbs.target[of p D n F] by auto
  ultimately show ?case by simp
qed

lemma pruned_unchanged:
  assumes "fits n F" "forest_ok n Fo" "node n F p" "p \<notin> climbs n F D"
  shows "pruned n F D Fo p = subtree_at n F Fo p"
proof (cases "subtree_at n F Fo p")
  case (Some t)
  obtain h r k where a: "place n F p h r k" using node_place[OF assms(1,3)] .
  show ?thesis
    using prune_unchanged[OF assms(1) a subtree_height[OF assms(1,2) a Some] assms(4)] Some
    by (simp add: pruned_def)
qed (simp add: pruned_def)

lemma prune_height: "prune D F p t = Some u \<Longrightarrow> height u \<le> height t"
proof (induction t arbitrary: p u)
  case (Node a b)
  let ?l = "prune D F (leftChild p F) a" and ?r = "prune D F (rightChild p F) b"
  have "?l = Some v \<Longrightarrow> height v \<le> height a" "?r = Some v \<Longrightarrow> height v \<le> height b" for v
    using Node.IH by auto
  then show ?case using Node.prems by (cases ?l; cases ?r) (fastforce split: if_splits)+
qed (auto split: if_splits)

lemma delete_ok: "forest_ok n Fo \<Longrightarrow> forest_ok n (delete n F D Fo)"
  unfolding forest_ok_def list_all_iff delete_def
  by (fastforce split: option.splits simp: bind_eq_Some_conv dest: prune_height)

end
