(* ===== verification/Stump.thy ===== *)
theory Stump
  imports Forest
begin

text \<open>
  The stump of \<open>stump.go\<close>: the root hashes and the number of leaves, which is all a client keeps
  that only verifies. \<open>Verify\<close> checks a proof, \<open>Stump_del\<close> deletes the leaves of a proof,
  \<open>Stump_add\<close> adds leaves and \<open>Stump_Update\<close> does both.

  The stump is passed and returned; on an error the caller keeps the old one. A \<open>nil\<close> slice of
  \<open>delHashes\<close> has no elements, so \<open>Verify\<close> passes a slice of hashes to \<open>calculateHashes\<close> in
  either case (with no targets the two readings agree).
\<close>

unbundle bit_operations_syntax

record Stump =
  Roots :: "Hash list"
  NumLeaves :: u64

record UpdateData =
  ToDestroy :: "u64 list"
  PrevNumLeaves :: u64
  NewDelHash :: "Hash list"
  NewDelPos :: "u64 list"
  NewAddHash :: "Hash list"
  NewAddPos :: "u64 list"

section \<open>Verification and deletion\<close>

text \<open>The loop of \<open>Verify\<close> over the indices of the roots, from the last root to the first.\<close>

fun matchRoots :: "Hash list \<Rightarrow> Hash list \<Rightarrow> nat list \<Rightarrow> nat list \<Rightarrow> nat list" where
  "matchRoots rts rootCandidates [] rootIndexes = rootIndexes"
| "matchRoots rts rootCandidates (i # is) rootIndexes =
     (if length rootCandidates > length rootIndexes \<and> rts ! i = rootCandidates ! length rootIndexes
      then matchRoots rts rootCandidates is (rootIndexes @ [i])
      else matchRoots rts rootCandidates is rootIndexes)"

definition Verify :: "Stump \<Rightarrow> Hash list \<Rightarrow> Proof \<Rightarrow> nat list result" where
  "Verify stump delHashes pr =
     (if length delHashes \<noteq> length (Targets pr)
      then Inl (TargetsMismatch (length (Targets pr)) (length delHashes))
      else bindR (calculateHashes (NumLeaves stump) (Some delHashes) pr) (\<lambda>(_, rootCandidates).
        let rootIndexes = matchRoots (Roots stump) rootCandidates (rev [0..<length (Roots stump)]) []
        in if length rootCandidates \<noteq> length rootIndexes
           then Inl (RootsMismatch (length rootCandidates) (length rootIndexes))
           else Inr rootIndexes))"

text \<open>The error of a failed verification wrapped by \<open>del\<close>; a panic and an endless loop are not
  errors and pass through.\<close>

definition wrapError :: "fault \<Rightarrow> fault" where
  "wrapError e = (if e = Panic \<or> e = Diverge then e else StumpInvalidProof e)"

fun setRoots :: "Hash list \<Rightarrow> nat list \<Rightarrow> Hash list \<Rightarrow> Hash list" where
  "setRoots rts (i # is) (h # hs) = setRoots (rts[i := h]) is hs"
| "setRoots rts _ _ = rts"

definition Stump_del :: "Stump \<Rightarrow> Hash list \<Rightarrow> Proof \<Rightarrow> (Stump \<times> Hash list \<times> u64 list) result" where
  "Stump_del s delHashes pr =
     (case Verify s delHashes pr of
        Inl e \<Rightarrow> Inl (wrapError e)
      | Inr rootIndexes \<Rightarrow>
          bindR (calculateHashes (NumLeaves s) None pr) (\<lambda>(intermediate, modifiedRoots).
            if length modifiedRoots \<noteq> length rootIndexes
            then Inl (ModifiedRootsMismatch (length rootIndexes) (length modifiedRoots))
            else Inr (s\<lparr>Roots := setRoots (Roots s) rootIndexes modifiedRoots\<rparr>,
                      hashes intermediate, positions intermediate)))"

section \<open>Addition\<close>

lemma carry_less: "drop_bit (unat h) (n::u64) AND 1 = 1 \<Longrightarrow> unat h < 64"
proof (rule ccontr)
  assume a: "drop_bit (unat h) n AND 1 = 1" "\<not> unat h < 64"
  then have "drop_bit (unat h) n = 0" by (intro bit_eqI) (simp add: bit_drop_bit_eq)
  then show False using a(1) by simp
qed

lemma unat_u8_Suc: "unat (h::u8) < 64 \<Longrightarrow> unat (h + 1) = Suc (unat h)"
  by (simp add: unat_word_ariths)

text \<open>One pass of the inner loop of \<open>rootsToDestory\<close>, over the set bits from row \<open>h\<close> on.\<close>

function rootsToDestory_inner ::
  "u64 \<Rightarrow> u64 \<Rightarrow> u8 \<Rightarrow> Hash list \<Rightarrow> u64 list \<Rightarrow> (Hash list \<times> u64 list) result" where
  "rootsToDestory_inner numLeaves remaining h roots deleted =
     (if drop_bit (unat h) numLeaves AND 1 = 1 then
        (if roots = [] then Inl Panic
         else rootsToDestory_inner numLeaves remaining (h + 1) (butlast roots)
                (if last roots = empty
                 then deleted @ [rootPosition numLeaves h (treeRows (numLeaves + remaining))]
                 else deleted))
      else Inr (roots, deleted))"
  by pat_completeness auto
termination
  by (relation "measure (\<lambda>(numLeaves, remaining, h, roots, deleted). 64 - unat h)")
    (auto dest!: carry_less simp: unat_u8_Suc)

declare rootsToDestory_inner.simps [simp del]

text \<open>The outer loop, with the number of additions still to come as its counter. The root it
  pushes is \<open>Hash{1}\<close>, whose first byte is one.\<close>

primrec rootsToDestory_outer ::
  "nat \<Rightarrow> u64 \<Rightarrow> Hash list \<Rightarrow> u64 list \<Rightarrow> u64 list result" where
  "rootsToDestory_outer 0 numLeaves roots deleted = Inr deleted"
| "rootsToDestory_outer (Suc k) numLeaves roots deleted =
     bindR (rootsToDestory_inner numLeaves (of_nat (Suc k)) 0 roots deleted) (\<lambda>(roots1, deleted1).
       rootsToDestory_outer k (numLeaves + 1) (roots1 @ [push_bit 248 1]) deleted1)"

definition rootsToDestory :: "u64 \<Rightarrow> u64 \<Rightarrow> Hash list \<Rightarrow> u64 list result" where
  "rootsToDestory numAdds numLeaves origRoots = rootsToDestory_outer (unat numAdds) numLeaves origRoots []"

text \<open>Where a leaf goes past the empty roots it is added over.\<close>

definition movePast :: "u8 \<Rightarrow> u64 list \<Rightarrow> u64 \<Rightarrow> u64" where
  "movePast afterRows deleted pos =
     fold (\<lambda>del pos. if isAncestor (parent del afterRows) pos afterRows
                     then (case calcNextPosition pos del afterRows of Inl e \<Rightarrow> 0 | Inr p \<Rightarrow> p)
                     else pos) deleted pos"

text \<open>The loop that hashes a new leaf with the roots of the set bits from row \<open>h\<close> on.\<close>

function addRoots ::
  "u64 \<Rightarrow> u8 \<Rightarrow> u8 \<Rightarrow> Hash list \<Rightarrow> u64 \<Rightarrow> Hash \<Rightarrow> hashAndPos \<Rightarrow> (Hash list \<times> u64 \<times> Hash \<times> hashAndPos) result" where
  "addRoots numLeaves afterRows h roots pos newRoot subTree =
     (if drop_bit (unat h) numLeaves AND 1 = 1 then
        (if roots = [] then Inl Panic
         else (let root = last roots; roots1 = butlast roots
               in if root \<noteq> empty
                  then addRoots numLeaves afterRows (h + 1) roots1 (parent pos afterRows) (parentHash root newRoot)
                         (hnp_Append (hnp_Append subTree (leftSib pos) root) pos newRoot)
                  else addRoots numLeaves afterRows (h + 1) roots1 pos newRoot subTree))
      else Inr (roots, pos, newRoot, subTree))"
  by pat_completeness auto
termination
  by (relation "measure (\<lambda>(numLeaves, afterRows, h, roots, pos, newRoot, subTree). 64 - unat h)")
    (auto dest!: carry_less simp: unat_u8_Suc)

declare addRoots.simps [simp del]

fun addLeaves :: "u8 \<Rightarrow> Hash list \<Rightarrow> Stump \<Rightarrow> hashAndPos list \<Rightarrow> (Stump \<times> hashAndPos list) result" where
  "addLeaves afterRows [] s subTrees = Inr (s, subTrees)"
| "addLeaves afterRows (add # adds) s subTrees =
     bindR (rootsToDestory (of_nat (length (add # adds))) (NumLeaves s) (Roots s)) (\<lambda>deleted.
     bindR (addRoots (NumLeaves s) afterRows 0 (Roots s) (movePast afterRows deleted (NumLeaves s)) add hnp_empty)
       (\<lambda>(roots, pos, newRoot, subTree).
     addLeaves afterRows adds \<lparr>Roots = roots @ [newRoot], NumLeaves = NumLeaves s + 1\<rparr>
       (subTrees @ [hnp_Append subTree pos newRoot])))"

fun mergeSubTrees :: "hashAndPos list \<Rightarrow> hashAndPos \<Rightarrow> hashAndPos result" where
  "mergeSubTrees [] updated = Inr updated"
| "mergeSubTrees [subTree] updated = mergeSortedHashAndPos updated subTree"
| "mergeSubTrees (subTree # next # rest) updated =
     bindR (getHashAndPosHashSubset subTree (hashes next)) (\<lambda>duplicates.
       if hnp_Len duplicates > 0 then mergeSubTrees (next # rest) updated
       else bindR (mergeSortedHashAndPos updated subTree) (\<lambda>updated1. mergeSubTrees (next # rest) updated1))"

definition Stump_add :: "Stump \<Rightarrow> Hash list \<Rightarrow> (Stump \<times> Hash list \<times> u64 list \<times> u64 list) result" where
  "Stump_add s adds =
     (let afterRows = treeRows (NumLeaves s + of_nat (length adds))
      in bindR (rootsToDestory (of_nat (length adds)) (NumLeaves s) (Roots s)) (\<lambda>allDeleted.
         bindR (addLeaves afterRows adds s []) (\<lambda>(s1, subTrees).
         bindR (mergeSubTrees subTrees hnp_empty) (\<lambda>updated.
         Inr (s1, hashes updated, positions updated, allDeleted)))))"

definition Stump_Update :: "Stump \<Rightarrow> Hash list \<Rightarrow> Hash list \<Rightarrow> Proof \<Rightarrow> (Stump \<times> UpdateData) result" where
  "Stump_Update s delHashes addHashes pr =
     bindR (Stump_del s delHashes pr) (\<lambda>(s1, delHash, delPos).
     bindR (Stump_add s1 addHashes) (\<lambda>(s2, addHash, addPos, toDestroy).
     Inr (s2, \<lparr>ToDestroy = toDestroy, PrevNumLeaves = NumLeaves s1, NewDelHash = delHash,
               NewDelPos = delPos, NewAddHash = addHash, NewAddPos = addPos\<rparr>)))"

end
