(* ===== verification/CachedProof.thy ===== *)
theory CachedProof
  imports Stump
begin

text \<open>
  The functions of \<open>prove.go\<close> by which a client keeps a proof of the leaves it cares about:
  \<open>GetMissingPositions\<close>, \<open>AddProof\<close> and \<open>GetProofSubset\<close> combine proofs, \<open>Proof_Update\<close> moves a
  proof over a block of deletions and additions. A method of \<open>*Proof\<close> takes the proof and returns
  the hashes of its targets with the new proof.
\<close>

unbundle bit_operations_syntax

section \<open>Positions and proofs that are already known\<close>

definition GetMissingPositions :: "u64 \<Rightarrow> u64 list \<Rightarrow> u64 list \<Rightarrow> u64 list result" where
  "GetMissingPositions numLeaves proofTargets desiredTargets =
     (let forestRows = treeRows numLeaves;
          targets = sort proofTargets;
          desired = subtractSortedSlice (sort desiredTargets) targets uint64Cmp
      in if length desired \<le> 0 then Inr []
         else bindR (proofPositions desired numLeaves forestRows) (\<lambda>(desiredPositions, _).
              bindR (proofPositions targets numLeaves forestRows) (\<lambda>(havePositions, computablePos).
              Inr (subtractSortedSlice desiredPositions
                     (sort (havePositions @ targets @ computablePos)) uint64Cmp))))"

definition AddProof ::
  "Proof \<Rightarrow> Proof \<Rightarrow> Hash list \<Rightarrow> Hash list \<Rightarrow> u64 \<Rightarrow> (Hash list \<times> Proof) result" where
  "AddProof proofA proofB targetHashesA targetHashesB numLeaves =
     (let totalRows = treeRows numLeaves;
          targetsA = copySortedFunc (Targets proofA);
          targetsB = copySortedFunc (Targets proofB)
      in bindR (proofPositions targetsA numLeaves totalRows) (\<lambda>(proofPosA, calculateableA).
         bindR (proofPositions targetsB numLeaves totalRows) (\<lambda>(proofPosB, calculateableB).
         bindR (mergeSortedHashAndPos \<lparr>positions = proofPosA, hashes = proofHashes proofA\<rparr>
                  \<lparr>positions = proofPosB, hashes = proofHashes proofB\<rparr>) (\<lambda>proofAndPosC.
         let calculateableC = mergeSortedSlicesFunc calculateableA calculateableB uint64Cmp
         in bindR (subtractSortedHashAndPos proofAndPosC calculateableC uint64Cmp) (\<lambda>proofAndPosC1.
         let targetsC = mergeSortedSlicesFunc targetsA targetsB uint64Cmp
         in bindR (subtractSortedHashAndPos proofAndPosC1 targetsC uint64Cmp) (\<lambda>proofAndPosC2.
         bindR (toHashAndPos (Targets proofA) targetHashesA) (\<lambda>cachedDelHashAndPosA.
         bindR (toHashAndPos (Targets proofB) targetHashesB) (\<lambda>cachedDelHashAndPosB.
         bindR (mergeSortedHashAndPos cachedDelHashAndPosA cachedDelHashAndPosB) (\<lambda>cachedDelHashAndPosC.
         Inr (hashes cachedDelHashAndPosC, \<lparr>Targets = targetsC, proofHashes = hashes proofAndPosC2\<rparr>))))))))))"

text \<open>\<open>slices.Index\<close>, where \<open>None\<close> is the index -1.\<close>

fun slices_Index :: "u64 list \<Rightarrow> u64 \<Rightarrow> nat option" where
  "slices_Index [] v = None"
| "slices_Index (x # xs) v = (if x = v then Some 0 else map_option Suc (slices_Index xs v))"

text \<open>The hashes of the wanted positions, in the order they are wanted.\<close>

fun wantedHashes :: "hashAndPos \<Rightarrow> u64 list \<Rightarrow> Hash list result" where
  "wantedHashes hnp [] = Inr []"
| "wantedHashes hnp (want # wants) =
     bindR (case slices_Index (positions hnp) want of None \<Rightarrow> Inl Panic | Some i \<Rightarrow> nthR (hashes hnp) i) (\<lambda>h.
     bindR (wantedHashes hnp wants) (\<lambda>hs. Inr (h # hs)))"

definition GetProofSubset ::
  "Proof \<Rightarrow> Hash list option \<Rightarrow> u64 list \<Rightarrow> u64 \<Rightarrow> (Hash list \<times> Proof) result" where
  "GetProofSubset pr hashes' wants numLeaves =
     (let proofTargetsCopy = copySortedFunc (Targets pr);
          expectedEmpty = subtractSortedSlice (copySortedFunc wants) proofTargetsCopy uint64Cmp
      in if length expectedEmpty > 0 then Inl (MissingPositions expectedEmpty)
         else bindR (toHashAndPos proofTargetsCopy (case hashes' of None \<Rightarrow> [] | Some hs \<Rightarrow> hs)) (\<lambda>targetHashesWithPos.
              bindR (calculateHashes numLeaves hashes' pr) (\<lambda>(calculated, _).
              bindR (sort_hnp calculated) (\<lambda>posAndHashes.
              bindR (proofPositions proofTargetsCopy numLeaves (treeRows numLeaves)) (\<lambda>(poss, _).
              bindR (toHashAndPos poss (proofHashes pr)) (\<lambda>proofPos.
              bindR (mergeSortedHashAndPos posAndHashes proofPos) (\<lambda>posAndHashes1.
              bindR (getHashAndPosSubset targetHashesWithPos (copySortedFunc wants)) (\<lambda>targetHashesWithPos1.
              bindR (proofPositions (positions targetHashesWithPos1) numLeaves (treeRows numLeaves)) (\<lambda>(wantProofPos, _).
              bindR (getHashAndPosSubset posAndHashes1 wantProofPos) (\<lambda>posAndHashes2.
              if hnp_Len posAndHashes2 \<noteq> length wantProofPos
              then Inl (MissingProofs (length wantProofPos) (hnp_Len posAndHashes2))
              else bindR (wantedHashes targetHashesWithPos1 wants) (\<lambda>retHashes.
                   Inr (retHashes, \<lparr>Targets = wants, proofHashes = hashes posAndHashes2\<rparr>))))))))))))"

section \<open>Deletions under a cached proof\<close>

text \<open>Values a caller goes on with when it drops the error next to them.\<close>

definition biggerTrees :: "u64 \<Rightarrow> u64 \<Rightarrow> u8" where
  "biggerTrees position numLeaves = (case detectOffset position numLeaves of Inl _ \<Rightarrow> 0 | Inr (b, _, _) \<Rightarrow> b)"

definition calcNextPosition_val :: "u64 \<Rightarrow> u64 \<Rightarrow> u8 \<Rightarrow> u64" where
  "calcNextPosition_val position delPos forestRows =
     (case calcNextPosition position delPos forestRows of Inl _ \<Rightarrow> 0 | Inr p \<Rightarrow> p)"

text \<open>The inner loop of \<open>getNewPositions\<close>.\<close>

fun newPosition :: "u64 \<Rightarrow> u8 \<Rightarrow> u8 \<Rightarrow> u64 list \<Rightarrow> u64 \<Rightarrow> u64" where
  "newPosition numLeaves totalRows row [] nextPos = nextPos"
| "newPosition numLeaves totalRows row (target # blockTargets) nextPos =
     (if isRootPositionOnRow nextPos numLeaves row then nextPos
      else if biggerTrees target numLeaves \<noteq> biggerTrees nextPos numLeaves
      then newPosition numLeaves totalRows row blockTargets nextPos
      else if isAncestor (parent target totalRows) nextPos totalRows
      then newPosition numLeaves totalRows row blockTargets (calcNextPosition_val nextPos target totalRows)
      else newPosition numLeaves totalRows row blockTargets nextPos)"

fun getNewPositions_loop ::
  "u64 list \<Rightarrow> u64 \<Rightarrow> bool \<Rightarrow> u64 list \<Rightarrow> Hash list \<Rightarrow> u8 \<Rightarrow> hashAndPos \<Rightarrow> hashAndPos result" where
  "getNewPositions_loop blockTargets numLeaves appendRoots [] hs row newSlice = Inr newSlice"
| "getNewPositions_loop blockTargets numLeaves appendRoots (pos # ps) [] row newSlice = Inl Panic"
| "getNewPositions_loop blockTargets numLeaves appendRoots (pos # ps) (hash # hs) row newSlice =
     (let totalRows = treeRows numLeaves
      in if hash = empty then getNewPositions_loop blockTargets numLeaves appendRoots ps hs row newSlice
         else bindR (returns (possibleRow_loop pos totalRows row)) (\<lambda>row1.
              if row1 > totalRows then Inr newSlice
              else (let nextPos = newPosition numLeaves totalRows row1 blockTargets pos
                    in getNewPositions_loop blockTargets numLeaves appendRoots ps hs row1
                         (if appendRoots \<or> \<not> isRootPositionOnRow nextPos numLeaves row1
                          then hnp_Append newSlice nextPos hash else newSlice))))"

definition getNewPositions :: "u64 list \<Rightarrow> hashAndPos \<Rightarrow> u64 \<Rightarrow> bool \<Rightarrow> hashAndPos result" where
  "getNewPositions blockTargets xs numLeaves appendRoots =
     bindR (getNewPositions_loop blockTargets numLeaves appendRoots (positions xs) (hashes xs) 0 hnp_empty) sort_hnp"

text \<open>The loop \<open>for idx < len(ps) && ps[idx] < pos\<close> that several functions have.\<close>

function skipBelow :: "u64 list \<Rightarrow> u64 \<Rightarrow> nat \<Rightarrow> nat" where
  "skipBelow ps pos idx = (if idx < length ps \<and> ps ! idx < pos then skipBelow ps pos (idx + 1) else idx)"
  by pat_completeness auto
termination
  by (relation "measure (\<lambda>(ps, pos, idx). length ps - idx)") auto

declare skipBelow.simps [simp del]

text \<open>The loop that keeps the proof hashes still needed, with the new hash where there is one.\<close>

fun keepProofs ::
  "hashAndPos \<Rightarrow> u64 list \<Rightarrow> hashAndPos \<Rightarrow> u64 list \<Rightarrow> nat \<Rightarrow> nat \<Rightarrow> nat \<Rightarrow> hashAndPos \<Rightarrow> hashAndPos result" where
  "keepProofs updated extraPos oldProofs [] i idx extraIdx newProofs = Inr newProofs"
| "keepProofs updated extraPos oldProofs (pos # ps) i idx extraIdx newProofs =
     (let extraIdx1 = skipBelow extraPos pos extraIdx
      in if extraIdx1 < length extraPos \<and> extraPos ! extraIdx1 = pos
         then keepProofs updated extraPos oldProofs ps (i + 1) idx extraIdx1 newProofs
         else (let idx1 = skipBelow (positions updated) pos idx
               in if idx1 < hnp_Len updated \<and> positions updated ! idx1 = pos
                  then bindR (nthR (hashes updated) idx1) (\<lambda>h.
                       keepProofs updated extraPos oldProofs ps (i + 1) idx1 extraIdx1
                         (if h \<noteq> empty then hnp_Append newProofs pos h else newProofs))
                  else bindR (nthR (hashes oldProofs) i) (\<lambda>h.
                       keepProofs updated extraPos oldProofs ps (i + 1) idx1 extraIdx1 (hnp_Append newProofs pos h))))"

text \<open>The loop that appends the nodes at the given positions that are in \<open>nodes\<close>.\<close>

fun pickNodes :: "hashAndPos \<Rightarrow> u64 list \<Rightarrow> nat \<Rightarrow> hashAndPos \<Rightarrow> hashAndPos result" where
  "pickNodes nodes [] idx picked = Inr picked"
| "pickNodes nodes (pos # ps) idx picked =
     (let idx1 = skipBelow (positions nodes) pos idx
      in if idx1 < hnp_Len nodes \<and> positions nodes ! idx1 = pos
         then bindR (nthR (hashes nodes) idx1) (\<lambda>h. pickNodes nodes ps idx1 (hnp_Append picked pos h))
         else pickNodes nodes ps idx1 picked)"

definition updateProofRemove ::
  "Proof \<Rightarrow> u64 list \<Rightarrow> Hash list \<Rightarrow> hashAndPos \<Rightarrow> u64 \<Rightarrow> (Hash list \<times> Proof) result" where
  "updateProofRemove p blockTargets cachedHashes updated numLeaves =
     (let totalRows = treeRows numLeaves;
          sortedBlockTargets = copySortedFunc blockTargets
      in bindR (toHashAndPos (Targets p) cachedHashes) (\<lambda>targetsWithHash0.
         bindR (subtractSortedHashAndPos targetsWithHash0 sortedBlockTargets uint64Cmp) (\<lambda>targetsWithHash.
         bindR (proofPositions (copySortedFunc (Targets p)) numLeaves totalRows) (\<lambda>(proofPos, _).
         bindR (toHashAndPos proofPos (proofHashes p)) (\<lambda>oldProofs.
         bindR (proofPositions (positions targetsWithHash) numLeaves totalRows) (\<lambda>(neededPos, _).
         let extraPos = subtractSortedSlice (copySortedFunc (positions oldProofs)) neededPos uint64Cmp
         in bindR (keepProofs updated extraPos oldProofs (positions oldProofs) 0 0 0 hnp_empty) (\<lambda>newProofs0.
         let missingPos = subtractSortedSlice
               (subtractSortedSlice (copySortedFunc neededPos) (positions oldProofs) uint64Cmp)
               sortedBlockTargets uint64Cmp
         in bindR (pickNodes updated missingPos 0 newProofs0) (\<lambda>newProofs.
         let detwinned = deTwin sortedBlockTargets totalRows
         in bindR (getNewPositions detwinned targetsWithHash numLeaves True) (\<lambda>targetsWithHash1.
            bindR (getNewPositions detwinned newProofs numLeaves False) (\<lambda>newProofs1.
            Inr (hashes targetsWithHash1, \<lparr>Targets = positions targetsWithHash1, proofHashes = hashes newProofs1\<rparr>)))))))))))"

section \<open>Additions under a cached proof\<close>

definition maybeRemap :: "u64 \<Rightarrow> u64 \<Rightarrow> hashAndPos \<Rightarrow> hashAndPos" where
  "maybeRemap numLeaves numAdds hnp =
     (let newForestRows = treeRows (numLeaves + numAdds);
          oldForestRows = treeRows numLeaves
      in if newForestRows > oldForestRows
         then hnp\<lparr>positions := map (\<lambda>pos.
                let row = detectRow pos (treeRows numLeaves);
                    offset = pos - startPositionAtRow row oldForestRows
                in offset + startPositionAtRow row newForestRows) (positions hnp)\<rparr>
         else hnp)"

text \<open>The loop over the additions, which collects the hashes to remember.\<close>

function rememberHashes :: "Hash list \<Rightarrow> u32 list \<Rightarrow> nat \<Rightarrow> nat \<Rightarrow> Hash list \<Rightarrow> Hash list" where
  "rememberHashes adds remembers i remembersIdx addHashes =
     (if i < length adds then
        (if remembersIdx \<ge> length remembers then addHashes
         else if of_nat i = remembers ! remembersIdx
         then rememberHashes adds remembers (i + 1) (remembersIdx + 1) (addHashes @ [adds ! i])
         else if of_nat i > remembers ! remembersIdx
         then rememberHashes adds remembers i (remembersIdx + 1) addHashes
         else rememberHashes adds remembers (i + 1) remembersIdx addHashes)
      else addHashes)"
  by pat_completeness auto
termination
  by (relation "measure (\<lambda>(adds, remembers, i, remembersIdx, addHashes).
      (length adds - i) + (length remembers - remembersIdx))") auto

declare rememberHashes.simps [simp del]

text \<open>The loop over the empty roots that are written over.\<close>

fun moveOverDestroyed :: "u64 list \<Rightarrow> u64 \<Rightarrow> hashAndPos \<Rightarrow> hashAndPos result" where
  "moveOverDestroyed [] numLeaves hnp = Inr hnp"
| "moveOverDestroyed (del # toDestroy) numLeaves hnp =
     bindR (getNewPositions [del] hnp numLeaves True) (moveOverDestroyed toDestroy numLeaves)"

definition updateProofAdd ::
  "Proof \<Rightarrow> Hash list \<Rightarrow> Hash list \<Rightarrow> u32 list \<Rightarrow> hashAndPos \<Rightarrow> u64 \<Rightarrow> u64 list \<Rightarrow> (Hash list \<times> Proof) result" where
  "updateProofAdd p adds cachedDelHashes remembers newNodes beforeNumLeaves toDestroy =
     (let numAdds = of_nat (length adds); numLeaves = beforeNumLeaves + numAdds
      in bindR (toHashAndPos (Targets p) cachedDelHashes) (\<lambda>origTargetsWithHash.
         bindR (proofPositions (positions origTargetsWithHash) beforeNumLeaves (treeRows beforeNumLeaves)) (\<lambda>(proofPos, _).
         bindR (toHashAndPos proofPos (proofHashes p)) (\<lambda>proofWithPos.
         bindR (moveOverDestroyed toDestroy numLeaves (maybeRemap beforeNumLeaves numAdds origTargetsWithHash)) (\<lambda>origTargetsWithHash1.
         bindR (moveOverDestroyed toDestroy numLeaves (maybeRemap beforeNumLeaves numAdds proofWithPos)) (\<lambda>proofWithPos1.
         bindR (mergeSortedHashAndPos newNodes proofWithPos1) (\<lambda>newNodes1.
         bindR (getHashAndPosHashSubset newNodes1 (rememberHashes adds remembers 0 0 [])) (\<lambda>remembersWithHash.
         bindR (mergeSortedHashAndPos remembersWithHash origTargetsWithHash1) (\<lambda>origTargetsWithHash2.
         bindR (proofPositions (positions origTargetsWithHash2) numLeaves (treeRows numLeaves)) (\<lambda>(neededProofPositions, _).
         bindR (pickNodes newNodes1 neededProofPositions 0 hnp_empty) (\<lambda>picked.
         bindR (sort_hnp picked) (\<lambda>newProofWithPos.
         Inr (hashes origTargetsWithHash2,
              \<lparr>Targets = positions origTargetsWithHash2, proofHashes = hashes newProofWithPos\<rparr>)))))))))))))"

definition Proof_Update ::
  "Proof \<Rightarrow> Hash list \<Rightarrow> Hash list \<Rightarrow> u64 list \<Rightarrow> u32 list \<Rightarrow> UpdateData \<Rightarrow> (Hash list \<times> Proof) result" where
  "Proof_Update p cachedHashes addHashes blockTargets remembers updateData =
     bindR (updateProofRemove p blockTargets cachedHashes
              \<lparr>positions = NewDelPos updateData, hashes = NewDelHash updateData\<rparr> (PrevNumLeaves updateData))
       (\<lambda>(cachedHashes1, p1).
          updateProofAdd p1 addHashes cachedHashes1 remembers
            \<lparr>positions = NewAddPos updateData, hashes = NewAddHash updateData\<rparr>
            (PrevNumLeaves updateData) (ToDestroy updateData))"

end
