(* ===== verification/MapForest.thy ===== *)
theory MapForest
  imports CachedProof
begin

text \<open>
  The accumulator of \<open>mappollard.go\<close>: a map from positions to nodes and a map from the hashes of the
  cached leaves to their positions. This theory models the accessors, \<open>Modify\<close> with \<open>add\<close> and
  \<open>remove\<close>, \<open>Prove\<close>, \<open>Verify\<close> and \<open>Ingest\<close>.
\<close>

unbundle bit_operations_syntax

record MapPollard =
  CachedLeaves :: "Hash \<rightharpoonup> u64"
  Nodes :: "u64 \<rightharpoonup> Leaf"
  mapNumLeaves :: u64
  TotalRows :: u8

definition NewMapPollard :: MapPollard where
  "NewMapPollard = \<lparr>CachedLeaves = Map.empty, Nodes = Map.empty, mapNumLeaves = 0, TotalRows = 50\<rparr>"

section \<open>Reading and writing nodes\<close>

text \<open>\<open>m.Nodes[pos]\<close>, which is the zero leaf when there is no node, and the two statements that change
  the map of nodes.\<close>

definition nodeAt :: "MapPollard \<Rightarrow> u64 \<Rightarrow> Leaf" where
  "nodeAt m pos = (case Nodes m pos of None \<Rightarrow> \<lparr>leaf_Hash = empty, Remember = False\<rparr> | Some l \<Rightarrow> l)"

definition setNode :: "u64 \<Rightarrow> Leaf \<Rightarrow> MapPollard \<Rightarrow> MapPollard" where
  "setNode pos l m = m\<lparr>Nodes := (Nodes m)(pos \<mapsto> l)\<rparr>"

definition deleteNode :: "u64 \<Rightarrow> MapPollard \<Rightarrow> MapPollard" where
  "deleteNode pos m = m\<lparr>Nodes := (Nodes m)(pos := None)\<rparr>"

definition setCached :: "Hash \<Rightarrow> u64 \<Rightarrow> MapPollard \<Rightarrow> MapPollard" where
  "setCached h pos m = m\<lparr>CachedLeaves := (CachedLeaves m)(h \<mapsto> pos)\<rparr>"

definition GetHash :: "MapPollard \<Rightarrow> u64 \<Rightarrow> Hash" where
  "GetHash m pos = leaf_Hash (nodeAt m pos)"

definition getRoots :: "MapPollard \<Rightarrow> Hash list \<times> u64 list" where
  "getRoots m =
     (let rootPositions = RootPositions (mapNumLeaves m) (TotalRows m)
      in (map (\<lambda>p. leaf_Hash (nodeAt m p)) rootPositions, rootPositions))"

definition GetRoots :: "MapPollard \<Rightarrow> Hash list" where
  "GetRoots m = fst (getRoots m)"

definition GetNumLeaves :: "MapPollard \<Rightarrow> u64" where
  "GetNumLeaves m = mapNumLeaves m"

definition GetTreeRows :: "MapPollard \<Rightarrow> u8" where
  "GetTreeRows m = TotalRows m"

definition GetStump :: "MapPollard \<Rightarrow> Stump" where
  "GetStump m = \<lparr>Roots = GetRoots m, NumLeaves = mapNumLeaves m\<rparr>"

definition highestPos :: "MapPollard \<Rightarrow> u64" where
  "highestPos m =
     (let totalRows = treeRows (mapNumLeaves m); pos = rootPosition (mapNumLeaves m) totalRows totalRows
      in translatePos pos totalRows (TotalRows m))"

definition uncacheLeaves :: "MapPollard \<Rightarrow> Hash list \<Rightarrow> MapPollard" where
  "uncacheLeaves m dels = fold (\<lambda>del m. m\<lparr>CachedLeaves := (CachedLeaves m)(del := None)\<rparr>) dels m"

definition cached :: "MapPollard \<Rightarrow> Hash list \<Rightarrow> bool" where
  "cached m hs = list_all (\<lambda>h. CachedLeaves m h \<noteq> None) hs"

section \<open>Pruning\<close>

definition niecesPresent :: "MapPollard \<Rightarrow> u64 \<Rightarrow> bool" where
  "niecesPresent m pos =
     (if detectRow pos (TotalRows m) = 0 then False
      else Nodes m (leftChild (sibling pos) (TotalRows m)) \<noteq> None \<or>
           Nodes m (rightChild (sibling pos) (TotalRows m)) \<noteq> None)"

definition prunePosition :: "MapPollard \<Rightarrow> u64 \<Rightarrow> MapPollard" where
  "prunePosition m pos =
     (if \<not> Remember (nodeAt m pos) \<and> \<not> Remember (nodeAt m (sibling pos)) then
        (let m1 = (if \<not> niecesPresent m (sibling pos) then deleteNode (sibling pos) m else m)
         in if \<not> niecesPresent m1 pos then deleteNode pos m1 else m1)
      else m)"

definition pruneNieces :: "MapPollard \<Rightarrow> u64 \<Rightarrow> MapPollard" where
  "pruneNieces m pos =
     (if detectRow pos (TotalRows m) = 0 then m else prunePosition m (leftChild pos (TotalRows m)))"

partial_function (option) forgetUnneededDel_loop :: "MapPollard \<Rightarrow> u64 \<Rightarrow> u8 \<Rightarrow> MapPollard option" where
  [code]: "forgetUnneededDel_loop m parentPos row =
     (if row \<le> TotalRows m then
        (let pos = parent parentPos (TotalRows m)
         in if isRootPositionTotalRows pos (mapNumLeaves m) (TotalRows m) then Some m
            else forgetUnneededDel_loop (prunePosition m pos) pos (row + 1))
      else Some m)"

definition forgetUnneededDel :: "MapPollard \<Rightarrow> u64 \<Rightarrow> MapPollard option" where
  "forgetUnneededDel m del =
     (if isRootPositionTotalRows del (mapNumLeaves m) (TotalRows m) then Some m
      else forgetUnneededDel_loop m del (detectRow del (TotalRows m)))"

partial_function (option) forgetBelow :: "MapPollard \<Rightarrow> u64 \<Rightarrow> MapPollard option" where
  [code]: "forgetBelow m position =
     (if detectRow position (TotalRows m) = 0 then Some m
      else (let l = leftChild position (TotalRows m); r = sibling l
            in Option.bind (forgetBelow (deleteNode r (deleteNode l m)) l) (\<lambda>m1. forgetBelow m1 r)))"

section \<open>Moving nodes up\<close>

text \<open>
  The functions that move nodes up return the accumulator with the error, because \<open>remove\<close> drops
  the error and goes on with what has been moved so far.
\<close>

definition moveUpChild ::
  "MapPollard \<Rightarrow> u64 \<Rightarrow> u64 \<Rightarrow> (u64 \<Rightarrow> u8 \<Rightarrow> u64) \<Rightarrow> MapPollard \<times> u64 list result" where
  "moveUpChild m position delPos child' =
     (let c = child' (sibling position) (TotalRows m)
      in case calcNextPosition c delPos (TotalRows m) of
           Inl e \<Rightarrow> (m, Inl e)
         | Inr nextPos \<Rightarrow>
             (case Nodes m c of
                None \<Rightarrow> (m, Inr [c])
              | Some lVal \<Rightarrow>
                  (let m1 = setNode nextPos lVal (deleteNode c m)
                   in (if CachedLeaves m1 (leaf_Hash lVal) \<noteq> None then setCached (leaf_Hash lVal) nextPos m1 else m1,
                       Inr [c]))))"

definition moveUpNieces :: "MapPollard \<Rightarrow> u64 \<Rightarrow> u64 \<Rightarrow> MapPollard \<times> u64 list result" where
  "moveUpNieces m position delPos =
     (if detectRow position (TotalRows m) = 0 then (m, Inr [])
      else case moveUpChild m (sibling position) delPos leftChild of
             (m1, Inl e) \<Rightarrow> (m1, Inl e)
           | (m1, Inr l) \<Rightarrow>
               (case moveUpChild m1 (sibling position) delPos rightChild of
                  (m2, Inl e) \<Rightarrow> (m2, Inl e)
                | (m2, Inr r) \<Rightarrow> (m2, Inr (l @ r))))"

fun moveUpRow :: "u64 \<Rightarrow> u64 list \<Rightarrow> MapPollard \<Rightarrow> u64 list \<Rightarrow> MapPollard \<times> u64 list result" where
  "moveUpRow delPos [] m nexts' = (m, Inr nexts')"
| "moveUpRow delPos (p # toMoveUp) m nexts' =
     (case moveUpNieces m p delPos of
        (m1, Inl e) \<Rightarrow> (m1, Inl e)
      | (m1, Inr nextChildren) \<Rightarrow> moveUpRow delPos toMoveUp m1 (mergeSortedSlicesFunc nexts' nextChildren uint64Cmp))"

text \<open>The loop over the rows, \<open>k\<close> of them.\<close>

primrec moveUpRows :: "nat \<Rightarrow> u64 \<Rightarrow> u64 list \<Rightarrow> MapPollard \<Rightarrow> MapPollard \<times> unit result" where
  "moveUpRows 0 delPos toMoveUp m = (m, Inr ())"
| "moveUpRows (Suc k) delPos toMoveUp m =
     (case moveUpRow delPos toMoveUp m [] of
        (m1, Inl e) \<Rightarrow> (m1, Inl e)
      | (m1, Inr nexts') \<Rightarrow> moveUpRows k delPos nexts' m1)"

definition moveUpDescendants :: "MapPollard \<Rightarrow> u64 \<Rightarrow> u64 \<Rightarrow> MapPollard \<times> unit result" where
  "moveUpDescendants m position delPos =
     (let row = detectRow position (TotalRows m)
      in if row = 0 then (m, Inr ())
         else moveUpRows (unat row + 1) delPos (sort [position, sibling position]) m)"

section \<open>Addition\<close>

definition remapRow :: "u8 \<Rightarrow> MapPollard \<Rightarrow> nat \<Rightarrow> MapPollard result" where
  "remapRow nextRows m h =
     (let startPos = startPositionAtRow (of_nat h) (TotalRows m);
          j = startPositionAtRow (of_nat h) nextRows
      in bindR (maxPositionAtRow (of_nat h) (TotalRows m) (mapNumLeaves m)) (\<lambda>maxPos.
         Inr (fold (\<lambda>k m. case Nodes m (startPos + of_nat k) of
                          None \<Rightarrow> m
                        | Some leaf \<Rightarrow> setNode (j + of_nat k) leaf (deleteNode (startPos + of_nat k) m))
                [0..<unat maxPos + 1 - unat startPos] m)))"

fun remapRows :: "u8 \<Rightarrow> nat list \<Rightarrow> MapPollard \<Rightarrow> MapPollard result" where
  "remapRows nextRows [] m = Inr m"
| "remapRows nextRows (h # hs) m = bindR (remapRow nextRows m h) (remapRows nextRows hs)"

definition remap :: "MapPollard \<Rightarrow> MapPollard result" where
  "remap m =
     (let nextRows = treeRows (mapNumLeaves m + 1)
      in if nextRows \<le> TotalRows m then Inr m
         else bindR (remapRows nextRows [1..<unat (TotalRows m) + 1] m) (\<lambda>m1.
              Inr (m1\<lparr>CachedLeaves := (\<lambda>k. map_option (\<lambda>v. translatePos v (TotalRows m1) nextRows) (CachedLeaves m1 k)),
                      TotalRows := nextRows\<rparr>)))"

function addSingle_loop :: "Leaf \<Rightarrow> u8 \<Rightarrow> MapPollard \<Rightarrow> u64 \<Rightarrow> Leaf \<Rightarrow> MapPollard result" where
  "addSingle_loop add h m position pNode =
     (if drop_bit (unat h) (mapNumLeaves m) AND 1 = 1 then
        (let totalRows = TotalRows m; rootPos = rootPosition (mapNumLeaves m) h totalRows
         in case Nodes m rootPos of
              None \<Rightarrow> Inl (RootNotFound rootPos (mapNumLeaves m))
            | Some rootNode \<Rightarrow>
                bindR (if leaf_Hash rootNode = empty then
                         (let m1 = deleteNode position m;
                              m2 = (if Remember add \<and> leaf_Hash pNode = leaf_Hash add \<and> CachedLeaves m1 (leaf_Hash add) \<noteq> None
                                    then setCached (leaf_Hash add) (parent position totalRows) m1 else m1)
                          in case moveUpDescendants m2 position rootPos of
                               (m3, Inl e) \<Rightarrow> Inl e
                             | (m3, Inr _) \<Rightarrow> Inr (m3, pNode))
                       else Inr (m, \<lparr>leaf_Hash = parentHash (leaf_Hash rootNode) (leaf_Hash pNode), Remember = False\<rparr>))
                  (\<lambda>(m4, pNode1).
                     let pos = parent position totalRows;
                         m5 = pruneNieces (setNode pos pNode1 m4) pos
                     in addSingle_loop add (h + 1) m5 pos pNode1))
      else Inr m)"
  by pat_completeness auto
termination
  by (relation "measure (\<lambda>(add, h, m, position, pNode). 64 - unat h)") (auto dest!: carry_less simp: unat_u8_Suc)

declare addSingle_loop.simps [simp del]

definition addSingle :: "MapPollard \<Rightarrow> Leaf \<Rightarrow> MapPollard result" where
  "addSingle m0 add =
     bindR (remap m0) (\<lambda>m.
       let position = mapNumLeaves m;
           m1 = setNode position \<lparr>leaf_Hash = leaf_Hash add, Remember = Remember add\<rparr> m;
           m2 = (if Remember add then setCached (leaf_Hash add) position m1 else m1)
       in addSingle_loop add 0 m2 position add)"

fun MapPollard_add :: "Leaf list \<Rightarrow> MapPollard \<Rightarrow> MapPollard result" where
  "MapPollard_add [] m = Inr m"
| "MapPollard_add (add # adds) m =
     bindR (addSingle m add) (\<lambda>m1. MapPollard_add adds (m1\<lparr>mapNumLeaves := mapNumLeaves m1 + 1\<rparr>))"

section \<open>Deletion\<close>

partial_function (option) updateHashes_loop :: "MapPollard \<Rightarrow> u64 \<Rightarrow> u8 \<Rightarrow> Hash \<Rightarrow> MapPollard option" where
  [code]: "updateHashes_loop m pos row h =
     (if row \<le> TotalRows m then
        (let sibHash = leaf_Hash (nodeAt m (sibling pos));
             h1 = (if isLeftNiece pos then parentHash h sibHash else parentHash sibHash h);
             pos1 = parent pos (TotalRows m);
             m1 = (if Nodes m pos1 \<noteq> None then setNode pos1 \<lparr>leaf_Hash = h1, Remember = False\<rparr> m else m)
         in if isRootPositionTotalRows pos1 (mapNumLeaves m) (TotalRows m) then Some m1
            else updateHashes_loop m1 pos1 (row + 1) h1)
      else Some m)"

definition updateHashes :: "MapPollard \<Rightarrow> u64 \<Rightarrow> Hash \<Rightarrow> MapPollard option" where
  "updateHashes m position h =
     (let pos = parent position (TotalRows m) in updateHashes_loop m pos (detectRow pos (TotalRows m)) h)"

text \<open>The last two statements of \<open>removeSingle\<close>, for the hash of the sibling that moved up.\<close>

definition removeSingle_finish :: "u64 \<Rightarrow> Hash \<Rightarrow> MapPollard \<Rightarrow> (MapPollard \<times> unit result) result" where
  "removeSingle_finish del h m =
     bindR (returns (updateHashes m del h)) (\<lambda>m1.
     bindR (returns (forgetUnneededDel m1 del)) (\<lambda>m2. Inr (m2, Inr ())))"

definition removeSingle :: "MapPollard \<Rightarrow> u64 \<Rightarrow> (MapPollard \<times> unit result) result" where
  "removeSingle m0 del =
     bindR (returns (forgetBelow m0 del)) (\<lambda>m1.
       if isRootPositionTotalRows del (mapNumLeaves m1) (TotalRows m1)
       then Inr (setNode del \<lparr>leaf_Hash = empty, Remember = False\<rparr> m1, Inr ())
       else (let m2 = deleteNode del m1
             in case Nodes m2 (sibling del) of
                  None \<Rightarrow> removeSingle_finish del empty m2
                | Some sib \<Rightarrow>
                    (let m3 = setNode (parent del (TotalRows m2)) sib (deleteNode (sibling del) m2)
                     in case (if CachedLeaves m3 (leaf_Hash sib) \<noteq> None
                              then (case calcNextPosition (sibling del) del (TotalRows m3) of
                                      Inl e \<Rightarrow> Inl e
                                    | Inr newPos \<Rightarrow> Inr (setCached (leaf_Hash sib) newPos m3))
                              else Inr m3) of
                          Inl e \<Rightarrow> Inr (m3, Inl e)
                        | Inr m4 \<Rightarrow>
                            (case moveUpDescendants m4 (sibling del) del of
                               (m5, Inl e) \<Rightarrow> Inr (m5, Inl e)
                             | (m5, Inr _) \<Rightarrow> removeSingle_finish del (leaf_Hash sib) m5))))"

text \<open>The loop of \<open>remove\<close>, which drops the errors of \<open>removeSingle\<close>.\<close>

fun removeAll :: "u64 list \<Rightarrow> MapPollard \<Rightarrow> MapPollard result" where
  "removeAll [] m = Inr m"
| "removeAll (del # dels) m = bindR (removeSingle m del) (\<lambda>(m1, _). removeAll dels m1)"

definition MapPollard_remove :: "MapPollard \<Rightarrow> Proof \<Rightarrow> Hash list \<Rightarrow> MapPollard result" where
  "MapPollard_remove m pr delHashes =
     (if \<not> cached m delHashes then Inl (NotCached delHashes)
      else (let m1 = uncacheLeaves m delHashes;
                sorted = copySortedFunc (Targets pr);
                translated = (if TotalRows m1 \<noteq> treeRows (mapNumLeaves m1)
                              then translatePositions sorted (treeRows (mapNumLeaves m1)) (TotalRows m1) else sorted)
            in removeAll (deTwin translated (TotalRows m1)) m1))"

definition MapPollard_Modify :: "MapPollard \<Rightarrow> Leaf list \<Rightarrow> Hash list \<Rightarrow> Proof \<Rightarrow> MapPollard result" where
  "MapPollard_Modify m adds delHashes pr = bindR (MapPollard_remove m pr delHashes) (MapPollard_add adds)"

section \<open>Proofs\<close>

fun proofNodes :: "MapPollard \<Rightarrow> u64 list \<Rightarrow> Hash list result" where
  "proofNodes m [] = Inr []"
| "proofNodes m (pos # ps) =
     (case Nodes m pos of
        None \<Rightarrow> Inl (ProofNotCached pos)
      | Some l \<Rightarrow> bindR (proofNodes m ps) (\<lambda>hs. Inr (leaf_Hash l # hs)))"

definition MapPollard_Prove :: "MapPollard \<Rightarrow> Hash list \<Rightarrow> Proof result" where
  "MapPollard_Prove m proveHashes =
     (if \<not> cached m proveHashes then Inl (NotCached proveHashes)
      else (let origTargets = map (\<lambda>h. the (CachedLeaves m h)) proveHashes;
                targets = copySortedFunc origTargets
            in bindR (proofPositions targets (mapNumLeaves m) (TotalRows m)) (\<lambda>(proofPos, _).
               bindR (proofNodes m proofPos) (\<lambda>hs.
               Inr \<lparr>Targets = (if TotalRows m \<noteq> treeRows (mapNumLeaves m)
                                then translatePositions origTargets (TotalRows m) (treeRows (mapNumLeaves m))
                                else origTargets),
                    proofHashes = hs\<rparr>))))"

fun trimProofPos :: "u64 list \<Rightarrow> u64 \<Rightarrow> u64 list result" where
  "trimProofPos [] numLeaves = Inr []"
| "trimProofPos (pos # ps) numLeaves =
     bindR (inForest pos numLeaves (treeRows numLeaves)) (\<lambda>b.
       if b then bindR (trimProofPos ps numLeaves) (\<lambda>qs. Inr (pos # qs)) else Inr [])"

text \<open>The loop that places proof hashes at positions without a node.\<close>

fun placeProof :: "Hash list \<Rightarrow> u64 list \<Rightarrow> nat \<Rightarrow> MapPollard \<Rightarrow> MapPollard result" where
  "placeProof hs [] i m = Inr m"
| "placeProof hs (pos # ps) i m =
     (if Nodes m pos = None
      then bindR (nthR hs i) (\<lambda>h. placeProof hs ps (i + 1) (setNode pos \<lparr>leaf_Hash = h, Remember = False\<rparr> m))
      else placeProof hs ps (i + 1) m)"

text \<open>The loop that places calculated hashes and caches the targets among them.\<close>

fun placeHashes :: "u64 list \<Rightarrow> u64 list \<Rightarrow> Hash list \<Rightarrow> MapPollard \<Rightarrow> MapPollard result" where
  "placeHashes remembered [] hs m = Inr m"
| "placeHashes remembered (pos # ps) [] m = Inl Panic"
| "placeHashes remembered (pos # ps) (h # hs) m =
     (let remember = pos \<in> set remembered;
          m1 = setNode pos \<lparr>leaf_Hash = h, Remember = remember\<rparr> m
      in placeHashes remembered ps hs (if remember then setCached h pos m1 else m1))"

text \<open>\<open>translatePositions\<close> followed by \<open>sort.Sort\<close>.\<close>

definition translateSort :: "MapPollard \<Rightarrow> hashAndPos \<Rightarrow> hashAndPos result" where
  "translateSort m hnp =
     (if TotalRows m \<noteq> treeRows (mapNumLeaves m)
      then sort_hnp (hnp\<lparr>positions := translatePositions (positions hnp) (treeRows (mapNumLeaves m)) (TotalRows m)\<rparr>)
      else Inr hnp)"

definition Ingest :: "MapPollard \<Rightarrow> Hash list \<Rightarrow> Proof \<Rightarrow> MapPollard result" where
  "Ingest m delHashes pr =
     bindR (toHashAndPos (Targets pr) delHashes) (\<lambda>hnp0.
     bindR (translateSort m hnp0) (\<lambda>hnp.
     bindR (proofPositions (positions hnp) (mapNumLeaves m) (TotalRows m)) (\<lambda>(proofPos0, _).
     bindR (if treeRows (mapNumLeaves m) > TotalRows m then trimProofPos proofPos0 (mapNumLeaves m) else Inr proofPos0) (\<lambda>proofPos.
     bindR (placeProof (proofHashes pr) proofPos 0 m) (\<lambda>m1.
     bindR (calculateHashes (mapNumLeaves m) (Some delHashes) pr) (\<lambda>(intermediate0, _).
     bindR (translateSort m intermediate0) (\<lambda>intermediate.
     placeHashes (positions hnp) (positions intermediate) (hashes intermediate) m1)))))))"

definition MapPollard_Verify :: "MapPollard \<Rightarrow> Hash list \<Rightarrow> Proof \<Rightarrow> bool \<Rightarrow> MapPollard result" where
  "MapPollard_Verify m delHashes pr remember =
     (let pr1 = (if treeRows (mapNumLeaves m) \<noteq> TotalRows m
                 then pr\<lparr>Targets := translatePositions (Targets pr) (TotalRows m) (treeRows (mapNumLeaves m))\<rparr> else pr)
      in bindR (Verify (GetStump m) delHashes pr1) (\<lambda>_.
         if remember then Ingest m delHashes pr1 else Inr m))"

end
