(* ===== verification/MapUndo.thy ===== *)
theory MapUndo
  imports MapForest
begin

text \<open>
  \<open>Undo\<close> of the accumulator of \<open>mappollard.go\<close>: the additions of a block are taken back one by one
  with the empty roots they wrote over, then the deletions.
\<close>

unbundle bit_operations_syntax

section \<open>Undoing additions\<close>

text \<open>The loop over the positions of one row in \<open>placeEmptyRoot\<close>, and the loop over the rows. The
  bound \<open>1<<h\<close> of the inner loop is not positive from 63 on.\<close>

fun placeEmptyRow :: "u64 \<Rightarrow> u64 list \<Rightarrow> MapPollard \<Rightarrow> MapPollard result" where
  "placeEmptyRow prevRootPos [] m = Inr m"
| "placeEmptyRow prevRootPos (pos # ps) m =
     bindR (calcNextPosition pos prevRootPos (TotalRows m)) (\<lambda>curPos.
       case Nodes m curPos of
         None \<Rightarrow> placeEmptyRow prevRootPos ps m
       | Some v \<Rightarrow>
           if leaf_Hash v = empty then placeEmptyRow prevRootPos ps m
           else (let m1 = deleteNode curPos m;
                     isCached = CachedLeaves m1 (leaf_Hash v) \<noteq> None;
                     v1 = (if isCached then v\<lparr>Remember := True\<rparr> else v);
                     m2 = (if isCached then setCached (leaf_Hash v) pos m1 else m1)
                 in placeEmptyRow prevRootPos ps (setNode pos v1 m2)))"

primrec placeEmptyRows :: "nat \<Rightarrow> u64 \<Rightarrow> u64 \<Rightarrow> MapPollard \<Rightarrow> MapPollard result" where
  "placeEmptyRows 0 prevRootPos sib m = Inr m"
| "placeEmptyRows (Suc h) prevRootPos sib m =
     bindR (childMany sib (of_nat (Suc h)) (TotalRows m)) (\<lambda>child'.
     bindR (placeEmptyRow prevRootPos (map (\<lambda>i. of_nat i + child') [0..<if Suc h < 63 then 2 ^ Suc h else 0]) m)
       (placeEmptyRows h prevRootPos sib))"

definition placeEmptyRoot :: "MapPollard \<Rightarrow> u64 \<Rightarrow> MapPollard result" where
  "placeEmptyRoot m prevRootPos =
     (let sib = sibling prevRootPos in placeEmptyRows (unat (detectRow sib (TotalRows m))) prevRootPos sib m)"

text \<open>The loop of \<open>undoSingleAdd\<close> from row \<open>h\<close> down.\<close>

fun undoSingleAdd_loop :: "nat \<Rightarrow> u64 \<Rightarrow> u64 list \<Rightarrow> MapPollard \<Rightarrow> (MapPollard \<times> u64 list) result" where
  "undoSingleAdd_loop h pos emptyRootPositions m =
     (let m1 = (case Nodes m pos of
                  None \<Rightarrow> m
                | Some leaf \<Rightarrow> (deleteNode pos m)\<lparr>CachedLeaves := (CachedLeaves m)(leaf_Hash leaf := None)\<rparr>);
          lChild = leftChild pos (TotalRows m)
      in bindR (if h \<noteq> 0 \<and> emptyRootPositions \<noteq> [] \<and> hd emptyRootPositions = lChild
                then bindR (placeEmptyRoot m1 lChild) (\<lambda>m2.
                       Inr (setNode lChild \<lparr>leaf_Hash = empty, Remember = True\<rparr> m2, tl emptyRootPositions))
                else Inr (m1, emptyRootPositions)) (\<lambda>(m3, rest).
         case h of 0 \<Rightarrow> Inr (m3, rest)
         | Suc k \<Rightarrow> undoSingleAdd_loop k (rightChild pos (TotalRows m)) rest m3))"

declare undoSingleAdd_loop.simps [simp del]

definition undoSingleAdd :: "MapPollard \<Rightarrow> u64 list \<Rightarrow> (MapPollard \<times> u64 list) result" where
  "undoSingleAdd m emptyRootPositions =
     bindR (returns (getLowestRoot (mapNumLeaves m) (TotalRows m))) (\<lambda>row.
     bindR (undoSingleAdd_loop (unat row) (rootPosition (mapNumLeaves m - 1) row (TotalRows m)) emptyRootPositions m)
       (\<lambda>(m1, rest). Inr (m1\<lparr>mapNumLeaves := mapNumLeaves m1 - 1\<rparr>, rest)))"

text \<open>Setting \<open>prevRoots[j]\<close> to the empty hash for each previous root that was a target.\<close>

fun emptyTargets :: "u64 list \<Rightarrow> u64 list \<Rightarrow> nat \<Rightarrow> Hash list \<Rightarrow> Hash list result" where
  "emptyTargets targets [] j prevRoots = Inr prevRoots"
| "emptyTargets targets (p # ps) j prevRoots =
     (if p \<in> set targets
      then (if j < length prevRoots then emptyTargets targets ps (j + 1) (prevRoots[j := empty]) else Inl Panic)
      else emptyTargets targets ps (j + 1) prevRoots)"

definition getRootsAfterDel :: "MapPollard \<Rightarrow> u64 \<Rightarrow> u64 list \<Rightarrow> u64 list \<Rightarrow> Hash list \<Rightarrow> Hash list result" where
  "getRootsAfterDel m numAdds targets prevRootPos origPrevRoots =
     (let detwined = deTwin (translatePositions (copySortedFunc targets) (treeRows (mapNumLeaves m - numAdds)) (TotalRows m)) (TotalRows m)
      in emptyTargets detwined prevRootPos 0 origPrevRoots)"

text \<open>The loop over the previous roots, which keeps the positions of the empty ones that are destroyed.\<close>

fun writtenOver :: "u64 list \<Rightarrow> u64 list \<Rightarrow> Hash list \<Rightarrow> nat \<Rightarrow> u64 list result" where
  "writtenOver destroyedPositions prevRootPos [] i = Inr []"
| "writtenOver destroyedPositions prevRootPos (r # rs) i =
     (if r = empty \<and> destroyedPositions \<noteq> []
      then bindR (nthR prevRootPos i) (\<lambda>p.
           bindR (writtenOver destroyedPositions prevRootPos rs (i + 1)) (\<lambda>qs.
           Inr (filter (\<lambda>d. d = p) destroyedPositions @ qs)))
      else writtenOver destroyedPositions prevRootPos rs (i + 1))"

definition getWrittenOverEmptyRoots :: "MapPollard \<Rightarrow> u64 \<Rightarrow> u64 list \<Rightarrow> Hash list \<Rightarrow> u64 list result" where
  "getWrittenOverEmptyRoots m numAdds origTargets origPrevRoots =
     (let prevRootPos = RootPositions (mapNumLeaves m - numAdds) (TotalRows m)
      in bindR (getRootsAfterDel m numAdds origTargets prevRootPos origPrevRoots) (\<lambda>prevRoots.
         bindR (rootsToDestory numAdds (mapNumLeaves m - numAdds) prevRoots) (\<lambda>destroyed0.
         let destroyedPositions = (if treeRows (mapNumLeaves m) \<noteq> TotalRows m
               then translatePositions destroyed0 (treeRows (mapNumLeaves m)) (TotalRows m) else destroyed0)
         in writtenOver destroyedPositions prevRootPos prevRoots 0)))"

primrec undoAdds :: "nat \<Rightarrow> u64 list \<Rightarrow> MapPollard \<Rightarrow> MapPollard result" where
  "undoAdds 0 prevEmptyRootPos m = Inr m"
| "undoAdds (Suc k) prevEmptyRootPos m =
     bindR (undoSingleAdd m prevEmptyRootPos) (\<lambda>(m1, rest). undoAdds k rest m1)"

definition MapPollard_undoAdd :: "MapPollard \<Rightarrow> u64 \<Rightarrow> u64 list \<Rightarrow> Hash list \<Rightarrow> MapPollard result" where
  "MapPollard_undoAdd m numAdds origTargets origPrevRoots =
     bindR (getWrittenOverEmptyRoots m numAdds origTargets origPrevRoots) (\<lambda>prevEmptyRootPos.
       undoAdds (nat (sint numAdds)) prevEmptyRootPos m)"

section \<open>Undoing deletions\<close>

text \<open>The loop over the detwinned targets, from the last to the first.\<close>

fun moveDownAll :: "u64 list \<Rightarrow> MapPollard \<Rightarrow> MapPollard result" where
  "moveDownAll [] m = Inr m"
| "moveDownAll (target # ts) m =
     bindR (inForest (sibling target) (mapNumLeaves m) (TotalRows m)) (\<lambda>b.
     bindR (if b then placeEmptyRoot m target else Inr m) (\<lambda>m1.
       let sib = parent target (TotalRows m1);
           prevPos = calcPrevPosition sib target (TotalRows m1)
       in case Nodes m1 sib of
            None \<Rightarrow> moveDownAll ts m1
          | Some v \<Rightarrow>
              (let isCached = CachedLeaves m1 (leaf_Hash v) \<noteq> None;
                   m2 = (if isCached then setCached (leaf_Hash v) prevPos m1 else m1);
                   v1 = (if isCached then v\<lparr>Remember := True\<rparr> else v)
               in moveDownAll ts (setNode prevPos v1 (deleteNode sib m2)))))"

definition undoDeletion :: "MapPollard \<Rightarrow> Proof \<Rightarrow> Hash list \<Rightarrow> MapPollard result" where
  "undoDeletion m pr hs =
     (let rows' = treeRows (mapNumLeaves m); differ = (rows' \<noteq> TotalRows m)
      in bindR (toHashAndPos (Targets pr) hs) (\<lambda>hnp0.
         bindR (translateSort m hnp0) (\<lambda>hnp.
         bindR (moveDownAll (rev (deTwin (positions hnp) (TotalRows m))) m) (\<lambda>m1.
         bindR (proofPositions (copySortedFunc (Targets pr)) (mapNumLeaves m) rows') (\<lambda>(proofPos0, _).
         bindR (if differ then bindR (trimProofPos proofPos0 (mapNumLeaves m)) (\<lambda>ps.
                  Inr (translatePositions ps rows' (TotalRows m))) else Inr proofPos0) (\<lambda>proofPos.
         bindR (placeProof (proofHashes pr) proofPos 0 m1) (\<lambda>m2.
         bindR (calculateHashes (mapNumLeaves m) (Some hs) pr) (\<lambda>(newhnp0, _).
         bindR (translateSort m newhnp0) (\<lambda>newhnp.
         placeHashes (if differ then translatePositions (Targets pr) rows' (TotalRows m) else Targets pr)
           (positions newhnp) (hashes newhnp) m2)))))))))"

text \<open>The loop that puts back the previous roots.\<close>

fun placeRoots :: "Hash list \<Rightarrow> u64 list \<Rightarrow> nat \<Rightarrow> MapPollard \<Rightarrow> MapPollard result" where
  "placeRoots origPrevRoots [] i m = Inr m"
| "placeRoots origPrevRoots (pos # ps) i m =
     bindR (nthR origPrevRoots i) (\<lambda>h.
       placeRoots origPrevRoots ps (i + 1) (setNode pos \<lparr>leaf_Hash = h, Remember = CachedLeaves m h \<noteq> None\<rparr> m))"

definition MapPollard_Undo :: "MapPollard \<Rightarrow> u64 \<Rightarrow> Proof \<Rightarrow> Hash list \<Rightarrow> Hash list \<Rightarrow> MapPollard result" where
  "MapPollard_Undo m numAdds pr hs origPrevRoots =
     bindR (MapPollard_undoAdd m numAdds (Targets pr) origPrevRoots) (\<lambda>m1.
     bindR (undoDeletion m1 pr hs) (\<lambda>m2.
     placeRoots origPrevRoots (snd (getRoots m2)) 0 m2))"

end
