(* ===== verification/MapBytes.thy ===== *)
theory MapBytes
  imports MapUndo
begin

text \<open>
  \<open>Write\<close> and \<open>Read\<close> of the accumulator of \<open>mappollard.go\<close>, and what reading gives back of what was
  written: everything but the remember flags of the nodes written after a remembered one.
\<close>

unbundle bit_operations_syntax

section \<open>Bytes\<close>

text \<open>The 32 bytes of a hash, first byte first, and back.\<close>

definition hashBytes :: "Hash \<Rightarrow> byte list" where
  "hashBytes h = map (\<lambda>i. ucast (drop_bit (248 - 8 * i) h)) [0..<32]"

definition bytesHash :: "byte list \<Rightarrow> Hash" where
  "bytesHash bs = foldl (\<lambda>a b. push_bit 8 a OR ucast b) 0 bs"

text \<open>\<open>binary.LittleEndian.PutUint64\<close> and \<open>binary.LittleEndian.Uint64\<close>.\<close>

definition putUint64 :: "u64 \<Rightarrow> byte list" where
  "putUint64 x = map (\<lambda>i. ucast (drop_bit (8 * i) x)) [0..<8]"

definition getUint64 :: "byte list \<Rightarrow> u64" where
  "getUint64 bs = foldr (\<lambda>b a. push_bit 8 a OR ucast b) bs 0"

text \<open>
  A call of \<open>Read\<close> for \<open>k\<close> bytes into a buffer, on a reader that hands out what it has: it fills as
  much of the buffer as it can, leaves the rest of the buffer as it was, and is at the end of the
  input only when nothing is left.
\<close>

definition readInto :: "nat \<Rightarrow> byte list \<Rightarrow> byte list \<Rightarrow> (byte list \<times> byte list) result" where
  "readInto k buf input =
     (if input = [] then Inl EndOfInput
      else Inr (take k input @ drop (length (take k input)) buf, drop k input))"

section \<open>Writing\<close>

text \<open>
  \<open>Write\<close> goes over the two maps in an order that Go does not fix: \<open>cs\<close> and \<open>ns\<close> are the entries of
  the maps in the order of this run. The last byte of the buffer of a node is set when the node is
  to be remembered and is not cleared for the next node. The result is what the writer was given,
  a writer that never fails, and the count of its bytes.
\<close>

fun writeCached :: "(Hash \<times> u64) list \<Rightarrow> byte list" where
  "writeCached [] = []"
| "writeCached ((k, v) # cs) = hashBytes k @ putUint64 v @ writeCached cs"

fun writeNodes :: "byte \<Rightarrow> (u64 \<times> Leaf) list \<Rightarrow> byte list" where
  "writeNodes b [] = []"
| "writeNodes b ((k, v) # ns) =
     (let b1 = (if Remember v then 1 else b)
      in putUint64 k @ hashBytes (leaf_Hash v) @ [b1] @ writeNodes b1 ns)"

definition MapPollard_Write :: "MapPollard \<Rightarrow> (Hash \<times> u64) list \<Rightarrow> (u64 \<times> Leaf) list \<Rightarrow> byte list \<times> nat" where
  "MapPollard_Write m cs ns =
     (let written = [TotalRows m] @ putUint64 (mapNumLeaves m) @
            putUint64 (of_nat (length cs)) @ writeCached cs @
            putUint64 (of_nat (length ns)) @ writeNodes 0 ns
      in (written, length written))"

section \<open>Reading\<close>

primrec readCached ::
  "nat \<Rightarrow> byte list \<Rightarrow> byte list \<Rightarrow> (Hash \<times> u64) list \<Rightarrow> byte list \<Rightarrow> ((Hash \<times> u64) list \<times> byte list \<times> byte list) result" where
  "readCached 0 hashBuf buf acc input = Inr (acc, buf, input)"
| "readCached (Suc k) hashBuf buf acc input =
     bindR (readInto 32 hashBuf input) (\<lambda>(hashBuf1, input1).
     bindR (readInto 8 buf input1) (\<lambda>(buf1, input2).
     readCached k hashBuf1 buf1 (acc @ [(bytesHash hashBuf1, getUint64 buf1)]) input2))"

primrec readNodes ::
  "nat \<Rightarrow> byte list \<Rightarrow> byte list \<Rightarrow> (u64 \<times> Leaf) list \<Rightarrow> byte list \<Rightarrow> ((u64 \<times> Leaf) list \<times> byte list) result" where
  "readNodes 0 buf leafBuf acc input = Inr (acc, input)"
| "readNodes (Suc k) buf leafBuf acc input =
     bindR (readInto 8 buf input) (\<lambda>(buf1, input1).
     bindR (readInto 33 leafBuf input1) (\<lambda>(leafBuf1, input2).
     readNodes k buf1 leafBuf1
       (acc @ [(getUint64 buf1, \<lparr>leaf_Hash = bytesHash (take 32 leafBuf1), Remember = (leafBuf1 ! 32 = 1)\<rparr>)]) input2))"

text \<open>The entries read are put in a map one after the other.\<close>

definition mapFrom :: "('k \<times> 'v) list \<Rightarrow> 'k \<rightharpoonup> 'v" where
  "mapFrom kvs = fold (\<lambda>(k, v) m. m(k \<mapsto> v)) kvs Map.empty"

text \<open>The check at the end of \<open>Read\<close>, over the keys of the cached leaves.\<close>

fun checkCached :: "(Hash \<rightharpoonup> u64) \<Rightarrow> (u64 \<rightharpoonup> Leaf) \<Rightarrow> Hash list \<Rightarrow> unit result" where
  "checkCached cl nd [] = Inr ()"
| "checkCached cl nd (k # ks) =
     (case cl k of
        None \<Rightarrow> checkCached cl nd ks
      | Some v \<Rightarrow>
          (case nd v of
             None \<Rightarrow> Inl (MissingCachedLeaf v)
           | Some leaf \<Rightarrow> if k \<noteq> leaf_Hash leaf then Inl (WrongCachedLeaf v k (leaf_Hash leaf))
                          else checkCached cl nd ks))"

text \<open>\<open>Read\<close> returns the map pollard, the count of the bytes it read and the rest of the input.\<close>

definition MapPollard_Read :: "byte list \<Rightarrow> (MapPollard \<times> nat \<times> byte list) result" where
  "MapPollard_Read input =
     bindR (readInto 1 (replicate 8 0) input) (\<lambda>(buf1, input1).
     bindR (readInto 8 buf1 input1) (\<lambda>(buf2, input2).
     bindR (readInto 8 buf2 input2) (\<lambda>(buf3, input3).
     bindR (readCached (nat (sint (getUint64 buf3))) (replicate 32 0) buf3 [] input3) (\<lambda>(cs, buf4, input4).
     bindR (readInto 8 buf4 input4) (\<lambda>(buf5, input5).
     bindR (readNodes (nat (sint (getUint64 buf5))) buf5 (replicate 33 0) [] input5) (\<lambda>(ns, input6).
     let m = \<lparr>CachedLeaves = mapFrom cs, Nodes = mapFrom ns, mapNumLeaves = getUint64 buf2, TotalRows = buf1 ! 0\<rparr>
     in bindR (checkCached (CachedLeaves m) (Nodes m) (map fst cs)) (\<lambda>_.
        Inr (m, length input - length input6, input6))))))))"

section \<open>Round trip\<close>

lemma length_hashBytes [simp]: "length (hashBytes h) = 32" by (simp add: hashBytes_def)

lemma length_putUint64 [simp]: "length (putUint64 x) = 8" by (simp add: putUint64_def)

lemma byte_join: "push_bit 8 (drop_bit 8 x) OR ucast (ucast x :: byte) = (x :: 'a::len word)"
  by (intro bit_eqI) (auto simp: bit_or_iff bit_push_bit_iff bit_drop_bit_eq bit_ucast_iff dest: bit_imp_le_length)

lemma bytesHash_hashBytes [simp]: "bytesHash (hashBytes h) = h"
proof -
  have "k \<le> 32 \<Longrightarrow> foldl (\<lambda>a b. push_bit 8 a OR ucast b) 0 (map (\<lambda>i. ucast (drop_bit (248 - 8 * i) h) :: byte) [0..<k]) =
    drop_bit (256 - 8 * k) h" for k
  proof (induction k)
    case 0
    show ?case by (intro bit_eqI) (auto simp: bit_drop_bit_eq dest: bit_imp_le_length)
  next
    case (Suc k)
    have e: "256 - 8 * Suc k = 248 - 8 * k" "256 - 8 * k = (248 - 8 * k) + 8" using Suc.prems by simp_all
    have "drop_bit (256 - 8 * k) h = drop_bit 8 (drop_bit (248 - 8 * k) h)" unfolding e(2) by (simp add: add.commute)
    then show ?case using Suc byte_join[of "drop_bit (248 - 8 * k) h"] unfolding e(1) by simp
  qed
  from this[of 32] show ?thesis by (simp add: bytesHash_def hashBytes_def)
qed

lemma getUint64_putUint64 [simp]: "getUint64 (putUint64 x) = x"
proof -
  have "k \<le> 8 \<Longrightarrow> foldr (\<lambda>b a. push_bit 8 a OR ucast b) (map (\<lambda>i. ucast (drop_bit (8 * i) x) :: byte) [8 - k..<8]) 0 =
    drop_bit (8 * (8 - k)) x" for k
  proof (induction k)
    case 0
    show ?case by (intro bit_eqI) (auto simp: bit_drop_bit_eq dest: bit_imp_le_length)
  next
    case (Suc k)
    have "Suc (8 - Suc k) = 8 - k" using Suc.prems by simp
    then have e: "[8 - Suc k..<8] = (8 - Suc k) # [8 - k..<8]" "8 * (8 - k) = 8 * (8 - Suc k) + 8"
      using Suc.prems upt_conv_Cons[of "8 - Suc k" 8] by simp_all
    have "drop_bit (8 * (8 - k)) x = drop_bit 8 (drop_bit (8 * (8 - Suc k)) x)" unfolding e(2) by (simp add: add.commute)
    then show ?case using Suc byte_join[of "drop_bit (8 * (8 - Suc k)) x"] unfolding e(1) by simp
  qed
  from this[of 8] show ?thesis by (simp add: getUint64_def putUint64_def)
qed

lemma readInto_exact [simp]:
  "length xs = k \<Longrightarrow> 0 < k \<Longrightarrow> k \<le> length buf \<Longrightarrow> readInto k buf (xs @ rest) = Inr (xs @ drop k buf, rest)"
  by (auto simp: readInto_def)

lemma readCached_writeCached:
  "length hb = 32 \<Longrightarrow> length buf = 8 \<Longrightarrow>
   \<exists>buf'. length buf' = 8 \<and> readCached (length cs) hb buf acc (writeCached cs @ rest) = Inr (acc @ cs, buf', rest)"
proof (induction cs arbitrary: hb buf acc)
  case (Cons c cs)
  obtain k v where c: "c = (k, v)" by (cases c)
  show ?case using Cons.IH[of "hashBytes k" "putUint64 v" "acc @ [c]"] Cons.prems by (simp add: c)
qed simp

text \<open>The leaves as they are written: once a node is to be remembered, so are all after it.\<close>

fun sticky :: "bool \<Rightarrow> (u64 \<times> Leaf) list \<Rightarrow> (u64 \<times> Leaf) list" where
  "sticky b [] = []"
| "sticky b ((k, v) # ns) = (k, \<lparr>leaf_Hash = leaf_Hash v, Remember = b \<or> Remember v\<rparr>) # sticky (b \<or> Remember v) ns"

lemma readNodes_writeNodes:
  "length buf = 8 \<Longrightarrow> length lb = 33 \<Longrightarrow>
   readNodes (length ns) buf lb acc (writeNodes (of_bool b) ns @ rest) = Inr (acc @ sticky b ns, rest)"
proof (induction ns arbitrary: buf lb acc b)
  case (Cons c ns)
  obtain k v where c: "c = (k, v)" by (cases c)
  define B where "B = (b \<or> Remember v)"
  define L where "L = hashBytes (leaf_Hash v) @ [of_bool B :: byte]"
  have w: "writeNodes (of_bool b) (c # ns) @ rest = putUint64 k @ L @ writeNodes (of_bool B) ns @ rest"
    by (cases "Remember v"; cases b) (simp_all add: c L_def B_def Let_def)
  have l: "length L = 33" "take 32 L = hashBytes (leaf_Hash v)" "L ! 32 = 1 \<longleftrightarrow> B" by (simp_all add: L_def nth_append)
  have "sticky b (c # ns) = (k, \<lparr>leaf_Hash = leaf_Hash v, Remember = B\<rparr>) # sticky B ns" by (simp add: c B_def)
  then show ?case
    using Cons.IH[of "putUint64 k" L "acc @ [(k, \<lparr>leaf_Hash = leaf_Hash v, Remember = B\<rparr>)]" B] Cons.prems l
    unfolding w by simp
qed simp

lemma mapFrom_map_of: "distinct (map fst kvs) \<Longrightarrow> mapFrom kvs = map_of kvs"
proof -
  have "distinct (map fst kvs) \<Longrightarrow> fold (\<lambda>(k, v) m. m(k \<mapsto> v)) kvs m = m ++ map_of kvs" for m
  proof (induction kvs arbitrary: m)
    case (Cons c kvs)
    obtain k v where c: "c = (k, v)" by (cases c)
    have "map_of kvs k = None" using Cons.prems c by (simp add: map_of_eq_None_iff)
    then have e1: "m(k \<mapsto> v) ++ map_of kvs = m ++ map_of (c # kvs)" by (auto simp: c fun_eq_iff map_add_def split: option.splits)
    have e2: "fold (\<lambda>(k, v) m. m(k \<mapsto> v)) (c # kvs) m = fold (\<lambda>(k, v) m. m(k \<mapsto> v)) kvs (m(k \<mapsto> v))"
      by (simp add: c)
    have "distinct (map fst kvs)" using Cons.prems by simp
    then show ?case unfolding e2 Cons.IH e1[symmetric] by (rule Cons.IH)
  qed simp
  then show "distinct (map fst kvs) \<Longrightarrow> mapFrom kvs = map_of kvs" by (simp add: mapFrom_def)
qed

lemma map_fst_sticky [simp]: "map fst (sticky b ns) = map fst ns"
  by (induction b ns rule: sticky.induct) auto

lemma sticky_hash: "map_of (sticky b ns) p = Some l \<Longrightarrow> \<exists>l'. map_of ns p = Some l' \<and> leaf_Hash l' = leaf_Hash l"
  by (induction b ns rule: sticky.induct) (auto split: if_splits)

lemma sticky_some: "map_of ns p = Some l' \<Longrightarrow> \<exists>l. map_of (sticky b ns) p = Some l \<and> leaf_Hash l = leaf_Hash l'"
  by (induction b ns rule: sticky.induct) (auto split: if_splits)

lemma checkCached_ok:
  "\<forall>k v. cl k = Some v \<longrightarrow> (\<exists>l. nd v = Some l \<and> leaf_Hash l = k) \<Longrightarrow> checkCached cl nd ks = Inr ()"
  by (induction ks) (fastforce split: option.splits)+

lemma Read_Write:
  assumes "map_of cs = CachedLeaves m" "distinct (map fst cs)" "map_of ns = Nodes m" "distinct (map fst ns)"
    "length cs < 2 ^ 63" "length ns < 2 ^ 63"
    "\<forall>k v. CachedLeaves m k = Some v \<longrightarrow> (\<exists>l. Nodes m v = Some l \<and> leaf_Hash l = k)"
    "MapPollard_Write m cs ns = (out, count)"
  shows "MapPollard_Read (out @ rest) = Inr (m\<lparr>Nodes := map_of (sticky False ns)\<rparr>, count, rest)"
proof -
  have n: "nat (sint (of_nat k :: u64)) = k" if "k < 2 ^ 63" for k
    using that signed_take_bit_int_eq_self[of 63 "int k"] by (simp add: signed_of_nat)
  let ?w = "writeNodes 0 ns @ rest"
  obtain buf where b: "length buf = 8"
    "readCached (length cs) (replicate 32 0) (putUint64 (of_nat (length cs))) [] (writeCached cs @ putUint64 (of_nat (length ns)) @ ?w) =
      Inr (cs, buf, putUint64 (of_nat (length ns)) @ ?w)"
    using readCached_writeCached[of "replicate 32 0" "putUint64 (of_nat (length cs))" cs "[]"] by auto
  have r: "readNodes (length ns) (putUint64 (of_nat (length ns))) (replicate 33 0) [] ?w = Inr (sticky False ns, rest)"
    using readNodes_writeNodes[of "putUint64 (of_nat (length ns))" "replicate 33 0" ns "[]" False] by simp
  have "\<exists>l. map_of (sticky False ns) v = Some l \<and> leaf_Hash l = k" if "CachedLeaves m k = Some v" for k v
    using assms(3,7) that sticky_some[of ns v _ False] by fastforce
  then have "checkCached (CachedLeaves m) (map_of (sticky False ns)) (map fst cs) = Inr ()" by (intro checkCached_ok) auto
  moreover have "readInto 1 (replicate 8 0) (TotalRows m # xs) = Inr (TotalRows m # replicate 7 0, xs)" for xs
    using readInto_exact[of "[TotalRows m]" 1 "replicate 8 0" xs] by (simp add: numeral_eq_Suc)
  ultimately show ?thesis
    using assms(1-6) b r assms(8)[symmetric] by (simp add: MapPollard_Read_def MapPollard_Write_def Let_def n mapFrom_map_of)
qed

lemma sticky_True: "map_of (sticky True ns) p = map_option (\<lambda>l. l\<lparr>Remember := True\<rparr>) (map_of ns p)"
  by (induction ns) auto

lemma sticky_last: "sorted (map (Remember \<circ> snd) ns) \<Longrightarrow> sticky False ns = ns"
proof -
  have T: "(\<forall>x \<in> set ns. Remember (snd x)) \<Longrightarrow> sticky True ns = ns" for ns by (induction ns) auto
  show "sorted (map (Remember \<circ> snd) ns) \<Longrightarrow> sticky False ns = ns"
  proof (induction ns)
    case (Cons c ns)
    then show ?case by (cases c; cases "Remember (snd c)") (auto simp: T)
  qed simp
qed

text \<open>After a remembered node.\<close>

lemma sticky_append: "sticky b (xs @ ys) = sticky b xs @ sticky (b \<or> (\<exists>x \<in> set xs. Remember (snd x))) ys"
  by (induction b xs rule: sticky.induct) auto

end
