(* ===== verification/PolNodes.thy ===== *)
theory PolNodes
  imports MapBytes
begin

text \<open>
  The nodes of polnode.go and the operations on their pointers, on an explicit heap. A node points to its
  nieces, the children of its sibling, and to its aunt; a root points to its own children.
\<close>

unbundle bit_operations_syntax

section \<open>Nodes and their heap\<close>

text \<open>
  A pointer is the address of a node, or nil. The heap gives every address a node; what lies at
  addresses that were never allocated is of no account, since no pointer leads there.
\<close>

type_synonym ref = nat

record polNode =
  lNiece :: "ref option"
  rNiece :: "ref option"
  aunt :: "ref option"
  data :: Hash
  remember :: bool

type_synonym heap = "ref \<Rightarrow> polNode"

text \<open>Following a pointer, which panics when it is nil.\<close>

definition deref :: "ref option \<Rightarrow> ref result" where
  "deref p = (case p of None \<Rightarrow> Inl Panic | Some n \<Rightarrow> Inr n)"

definition setL :: "ref \<Rightarrow> ref option \<Rightarrow> heap \<Rightarrow> heap" where
  "setL n x h = h(n := (h n)\<lparr>lNiece := x\<rparr>)"

definition setR :: "ref \<Rightarrow> ref option \<Rightarrow> heap \<Rightarrow> heap" where
  "setR n x h = h(n := (h n)\<lparr>rNiece := x\<rparr>)"

definition setAunt :: "ref \<Rightarrow> ref option \<Rightarrow> heap \<Rightarrow> heap" where
  "setAunt n x h = h(n := (h n)\<lparr>aunt := x\<rparr>)"

definition setData :: "ref \<Rightarrow> Hash \<Rightarrow> heap \<Rightarrow> heap" where
  "setData n x h = h(n := (h n)\<lparr>data := x\<rparr>)"

definition getSibling :: "heap \<Rightarrow> ref \<Rightarrow> ref option result" where
  "getSibling h n =
     (case aunt (h n) of
        None \<Rightarrow> Inr None
      | Some a \<Rightarrow>
          if lNiece (h a) = Some n then Inr (rNiece (h a))
          else if rNiece (h a) = Some n then Inr (lNiece (h a))
          else Inl (WrongAunt (data (h n)) (data (h a))))"

definition getParent :: "heap \<Rightarrow> ref \<Rightarrow> ref option result" where
  "getParent h n =
     (case aunt (h n) of
        None \<Rightarrow> Inr None
      | Some a \<Rightarrow>
          (case aunt (h a) of
             None \<Rightarrow> Inr (Some a)
           | Some g \<Rightarrow>
               if lNiece (h g) = Some a then Inr (rNiece (h g))
               else if rNiece (h g) = Some a then Inr (lNiece (h g))
               else Inl (WrongAunt (data (h a)) (data (h g)))))"

definition getChildren :: "heap \<Rightarrow> ref \<Rightarrow> (ref option \<times> ref option) result" where
  "getChildren h n =
     (if aunt (h n) = None then Inr (lNiece (h n), rNiece (h n))
      else bindR (getSibling h n) (\<lambda>sib.
           case sib of
             None \<Rightarrow> Inl (NoSibling (data (h n)))
           | Some s \<Rightarrow> Inr (lNiece (h s), rNiece (h s))))"

section \<open>Forgetting nodes\<close>

definition deadEnd :: "heap \<Rightarrow> ref \<Rightarrow> bool" where
  "deadEnd h n = (lNiece (h n) = None \<and> rNiece (h n) = None)"

text \<open>The statement that takes the node out of the node it points to as its aunt.\<close>

definition leaveAunt :: "ref \<Rightarrow> heap \<Rightarrow> heap" where
  "leaveAunt n h =
     (case aunt (h n) of
        None \<Rightarrow> h
      | Some a \<Rightarrow>
          if rNiece (h a) = Some n then setR a None h
          else if lNiece (h a) = Some n then setL a None h else h)"

definition clearAunt :: "ref option \<Rightarrow> heap \<Rightarrow> heap" where
  "clearAunt p h = (case p of None \<Rightarrow> h | Some n \<Rightarrow> setAunt n None h)"

definition delNode :: "ref option \<Rightarrow> heap \<Rightarrow> heap" where
  "delNode p h =
     (case p of
        None \<Rightarrow> h
      | Some n \<Rightarrow>
          (let h1 = setAunt n None (leaveAunt n h);
               h2 = setL n None (clearAunt (lNiece (h1 n)) h1)
           in setR n None (clearAunt (rNiece (h2 n)) h2)))"

definition chop :: "ref \<Rightarrow> heap \<Rightarrow> heap" where
  "chop n h =
     (let h1 = delNode (lNiece (h n)) h;
          h2 = delNode (rNiece (h1 n)) h1
      in setR n None (setL n None h2))"

definition polNode_prune :: "ref \<Rightarrow> heap \<Rightarrow> heap result" where
  "polNode_prune n h =
     bindR (deref (lNiece (h n))) (\<lambda>l.
     bindR (deref (rNiece (h n))) (\<lambda>r.
       let rem = (remember (h l) \<or> remember (h r));
           h1 = (if deadEnd h l \<and> \<not> rem then setL n None (delNode (Some l) h) else h)
       in bindR (deref (rNiece (h1 n))) (\<lambda>r1.
            if deadEnd h1 r1 \<and> \<not> rem then Inr (setR n None (delNode (Some r1) h1)) else Inr h1)))"

section \<open>Moving nodes\<close>

text \<open>
  \<open>updateAunt\<close> returns from the whole call when a niece has the right aunt already, so that the
  right niece is not looked at when the left one is right.
\<close>

partial_function (option) updateAunt :: "ref \<Rightarrow> heap \<Rightarrow> heap option" where
  [code]: "updateAunt n h =
     Option.bind
       (case lNiece (h n) of
          None \<Rightarrow> Some (False, h)
        | Some l \<Rightarrow>
            if aunt (h l) = Some n then Some (True, h)
            else Option.bind (updateAunt l (setAunt l (Some n) h)) (\<lambda>h1. Some (False, h1)))
       (\<lambda>(done', h1).
          if done' then Some h1
          else (case rNiece (h1 n) of
                  None \<Rightarrow> Some h1
                | Some r \<Rightarrow>
                    if aunt (h1 r) = Some n then Some h1
                    else updateAunt r (setAunt r (Some n) h1)))"

definition swapPlaces :: "ref \<Rightarrow> ref \<Rightarrow> heap \<Rightarrow> heap" where
  "swapPlaces from to h =
     (let h1 = setR from (rNiece (h to)) (setL from (lNiece (h to)) (setAunt from (aunt (h to)) h))
      in setR to (rNiece (h from)) (setL to (lNiece (h from)) (setAunt to (aunt (h from)) h1)))"

definition swapNieces :: "ref \<Rightarrow> ref \<Rightarrow> heap \<Rightarrow> heap option" where
  "swapNieces a b h =
     (let h1 = setR b (rNiece (h a)) (setL b (lNiece (h a)) (setR a (rNiece (h b)) (setL a (lNiece (h b)) h)))
      in Option.bind (updateAunt a h1) (updateAunt b))"

definition transferNiece :: "ref \<Rightarrow> ref \<Rightarrow> heap \<Rightarrow> heap option" where
  "transferNiece a b h =
     (let h1 = setR a (rNiece (h b)) (setL a (lNiece (h b)) h);
          h2 = setR b None (setL b None h1)
      in updateAunt a h2)"

text \<open>\<open>transferAunt\<close> returns the heap also with an error, because its callers drop the error.\<close>

definition transferAunt :: "ref \<Rightarrow> ref \<Rightarrow> heap \<Rightarrow> (heap \<times> unit result) option" where
  "transferAunt a b h =
     (let left = (case aunt (h a) of
                    None \<Rightarrow> (h, Inr ())
                  | Some g \<Rightarrow>
                      if lNiece (h g) = Some a then (setL g None h, Inr ())
                      else if rNiece (h g) = Some a then (setR g None h, Inr ())
                      else (h, Inl (WrongAunt (data (h a)) (data (h g)))))
      in case left of
           (h1, Inl e) \<Rightarrow> Some (h1, Inl e)
         | (h1, Inr _) \<Rightarrow>
             (let joined = (case aunt (h1 b) of
                              None \<Rightarrow> (h1, Inr ())
                            | Some g \<Rightarrow>
                                if lNiece (h1 g) = Some b then (setL g (Some a) h1, Inr ())
                                else if rNiece (h1 g) = Some b then (setR g (Some a) h1, Inr ())
                                else (h1, Inl (WrongAunt (data (h1 b)) (data (h1 g)))))
              in case joined of
                   (h2, Inl e) \<Rightarrow> Some (h2, Inl e)
                 | (h2, Inr _) \<Rightarrow>
                     (let h3 = setAunt a (aunt (h2 b)) h2
                      in case aunt (h3 a) of
                           None \<Rightarrow> Some (h3, Inr ())
                         | Some g \<Rightarrow> Option.bind (updateAunt g h3) (\<lambda>h4. Some (h4, Inr ())))))"

section \<open>Hashing\<close>

text \<open>The loop of \<open>hashToRoot\<close>, which ends at a node without a parent.\<close>

partial_function (option) hashToRoot :: "ref option \<Rightarrow> heap \<Rightarrow> heap result option" where
  [code]: "hashToRoot p h =
     (case p of
        None \<Rightarrow> Some (Inr h)
      | Some n \<Rightarrow>
          (case getChildren h n of
             Inl e \<Rightarrow> Some (Inl e)
           | Inr (Some l, Some r) \<Rightarrow>
               (let h1 = setData n (parentHash (data (h l)) (data (h r))) h
                in case getParent h1 n of
                     Inl e \<Rightarrow> Some (Inl e)
                   | Inr q \<Rightarrow> hashToRoot q h1)
           | Inr _ \<Rightarrow> Some (Inl Panic)))"

definition calculateParentHash :: "u64 \<Rightarrow> heap \<Rightarrow> ref \<Rightarrow> ref \<Rightarrow> Hash" where
  "calculateParentHash nodePos h n sib =
     (if isLeftNiece nodePos then parentHash (data (h n)) (data (h sib)) else parentHash (data (h sib)) (data (h n)))"

partial_function (option) getCount :: "heap \<Rightarrow> ref option \<Rightarrow> int option" where
  [code]: "getCount h p =
     (case p of
        None \<Rightarrow> Some 0
      | Some n \<Rightarrow>
          Option.bind (getCount h (lNiece (h n))) (\<lambda>a.
          Option.bind (getCount h (rNiece (h n))) (\<lambda>b. Some (a + 1 + b))))"

end
