(* ===== verification/PollardOps.thy ===== *)
theory PollardOps
  imports PolNodes
begin

text \<open>
  The accumulator of pollard.go, whose nodes are linked by pointers: the accessors, the way to a node and back to
  its position, \<open>Modify\<close> with \<open>add\<close> and \<open>remove\<close>, and \<open>Prove\<close> and \<open>Verify\<close> of prove.go.
\<close>

unbundle bit_operations_syntax

section \<open>The pollard\<close>

text \<open>The struct together with the heap its pointers lead into.\<close>

record Pollard =
  Heap :: heap
  Fresh :: ref
  NodeMap :: "miniHash \<rightharpoonup> ref"
  polRoots :: "ref list"
  polNumLeaves :: u64
  NumDels :: u64
  Full :: bool

definition zeroNode :: polNode where
  "zeroNode = \<lparr>lNiece = None, rNiece = None, aunt = None, data = empty, remember = False\<rparr>"

definition newNode :: "polNode \<Rightarrow> Pollard \<Rightarrow> ref \<times> Pollard" where
  "newNode n p = (Fresh p, p\<lparr>Heap := (Heap p)(Fresh p := n), Fresh := Fresh p + 1\<rparr>)"

text \<open>A function of the heap that may not end, and one that may fail as well.\<close>

definition onHeap :: "(heap \<Rightarrow> heap option) \<Rightarrow> Pollard \<Rightarrow> Pollard result" where
  "onHeap f p = bindR (returns (f (Heap p))) (\<lambda>h. Inr (p\<lparr>Heap := h\<rparr>))"

definition NewAccumulator :: "bool \<Rightarrow> Pollard" where
  "NewAccumulator full =
     \<lparr>Heap = (\<lambda>_. zeroNode), Fresh = 0, NodeMap = Map.empty, polRoots = [], polNumLeaves = 0, NumDels = 0, Full = full\<rparr>"

definition Pollard_GetNumLeaves :: "Pollard \<Rightarrow> u64" where
  "Pollard_GetNumLeaves p = polNumLeaves p"

definition Pollard_GetTreeRows :: "Pollard \<Rightarrow> u8" where
  "Pollard_GetTreeRows p = treeRows (polNumLeaves p)"

definition Pollard_GetRoots :: "Pollard \<Rightarrow> Hash list" where
  "Pollard_GetRoots p = map (\<lambda>r. data (Heap p r)) (polRoots p)"

section \<open>Finding nodes\<close>

text \<open>The way down in \<open>getNode\<close>, one niece for each of the \<open>k\<close> low bits.\<close>

primrec getNode_loop :: "nat \<Rightarrow> heap \<Rightarrow> u64 \<Rightarrow> ref \<Rightarrow> ref option \<Rightarrow> ref option \<Rightarrow>
    (ref option \<times> ref option \<times> ref option) result" where
  "getNode_loop 0 h bits n sib par = Inr (Some n, sib, par)"
| "getNode_loop (Suc k) h bits n sib par =
     (let niecePos = ucast (drop_bit k bits) AND (1 :: u8);
          (n1, sib1) = (if isLeftNiece (ucast niecePos) then (lNiece (h n), rNiece (h n)) else (rNiece (h n), lNiece (h n)))
      in case n1 of
           None \<Rightarrow> Inr (None, None, None)
         | Some m \<Rightarrow> getNode_loop k h bits m sib1 sib)"

definition getNode :: "Pollard \<Rightarrow> u64 \<Rightarrow> (ref option \<times> ref option \<times> ref option) result" where
  "getNode p pos =
     (if pos \<ge> maxPosition (treeRows (polNumLeaves p)) then Inl (PositionMissing pos (polNumLeaves p))
      else bindR (detectOffset pos (polNumLeaves p)) (\<lambda>(tree, branchLen, bits).
        if tree \<ge> of_nat (length (polRoots p)) then Inl (RootIndexError pos tree (length (polRoots p)))
        else bindR (nthR (polRoots p) (unat tree)) (\<lambda>r.
             getNode_loop (unat branchLen) (Heap p) bits r (Some r) None)))"

definition getHash :: "Pollard \<Rightarrow> u64 \<Rightarrow> Hash result" where
  "getHash p pos =
     (case getNode p pos of
        Inl e \<Rightarrow> if e = Panic \<or> e = Diverge then Inl e else Inr empty
      | Inr (None, _) \<Rightarrow> Inr empty
      | Inr (Some n, _) \<Rightarrow> Inr (data (Heap p n)))"

definition Pollard_GetHash :: "Pollard \<Rightarrow> u64 \<Rightarrow> Hash result" where
  "Pollard_GetHash p pos = getHash p pos"

text \<open>The way up in \<open>calculatePosition\<close>: the indicator, the number of rows and the node at the top.\<close>

partial_function (option) calculatePosition_up :: "heap \<Rightarrow> ref \<Rightarrow> u64 \<Rightarrow> nat \<Rightarrow> (u64 \<times> nat \<times> ref) option" where
  [code]: "calculatePosition_up h n ind rowsToTop =
     (case aunt (h n) of
        None \<Rightarrow> Some (ind, rowsToTop, n)
      | Some a \<Rightarrow>
          (let ind1 = (if lNiece (h a) = Some n then push_bit 1 ind else push_bit 1 ind OR 1);
               ind2 = (if rowsToTop = 0 then ind1 XOR 1 else ind1)
           in calculatePosition_up h a ind2 (rowsToTop + 1)))"

text \<open>The loop over the rows from \<open>r\<close> on, which takes the roots from the last one back.\<close>

fun findRootRow :: "heap \<Rightarrow> u64 \<Rightarrow> Hash \<Rightarrow> nat list \<Rightarrow> ref list \<Rightarrow> int result" where
  "findRootRow h numLeaves hash [] rts = Inr (- 1)"
| "findRootRow h numLeaves hash (r # rs) rts =
     (if drop_bit r numLeaves AND 1 = 1 then
        (if rts = [] then Inl Panic
         else if data (h (last rts)) = hash then Inr (int r)
         else findRootRow h numLeaves hash rs (butlast rts))
      else findRootRow h numLeaves hash rs rts)"

text \<open>The way down in \<open>calculatePosition\<close>, for the bits from \<open>i\<close> on.\<close>

fun calculatePosition_down :: "u64 \<Rightarrow> u8 \<Rightarrow> nat list \<Rightarrow> u64 \<Rightarrow> u64" where
  "calculatePosition_down ind forestRows [] retPos = retPos"
| "calculatePosition_down ind forestRows (i # is) retPos =
     (let isRight = push_bit i 1
      in calculatePosition_down ind forestRows is
           (if ind AND isRight = isRight then sibling (rightChild retPos forestRows)
            else sibling (leftChild retPos forestRows)))"

definition calculatePosition :: "Pollard \<Rightarrow> ref \<Rightarrow> u64 result" where
  "calculatePosition p n =
     bindR (returns (calculatePosition_up (Heap p) n 0 0)) (\<lambda>(ind, rowsToTop, top').
       let forestRows = treeRows (polNumLeaves p)
       in bindR (findRootRow (Heap p) (polNumLeaves p) (data (Heap p top')) [0..<unat forestRows + 1] (polRoots p)) (\<lambda>rootRow.
          Inr (calculatePosition_down ind forestRows [0..<rowsToTop] (rootPosition (polNumLeaves p) (of_int rootRow) forestRows))))"

section \<open>Addition\<close>

function calculateNewRoot_loop :: "u8 \<Rightarrow> ref \<Rightarrow> Pollard \<Rightarrow> (ref \<times> Pollard) result" where
  "calculateNewRoot_loop h n p =
     (if drop_bit (unat h) (polNumLeaves p) AND 1 = 1 then
        (if polRoots p = [] then Inl Panic
         else (let r = last (polRoots p); p1 = p\<lparr>polRoots := butlast (polRoots p)\<rparr>
               in if data (Heap p1 r) = empty then calculateNewRoot_loop (h + 1) n p1
                  else bindR (returns (swapNieces r n (Heap p1))) (\<lambda>h1.
                       let nHash = parentHash (data (h1 r)) (data (h1 n));
                           newRoot = \<lparr>lNiece = Some r, rNiece = Some n, aunt = None, data = nHash, remember = Full p1\<rparr>;
                           (m, p2) = newNode newRoot (p1\<lparr>Heap := h1\<rparr>)
                       in bindR (returns (updateAunt m (Heap p2))) (\<lambda>h2.
                          bindR (polNode_prune m h2) (\<lambda>h3.
                          calculateNewRoot_loop (h + 1) m (p1\<lparr>Heap := h3, Fresh := Fresh p2\<rparr>))))))
      else Inr (n, p))"
  by pat_completeness auto
termination
  by (relation "measure (\<lambda>(h, n, p). 64 - unat h)") (auto dest!: carry_less simp: unat_u8_Suc newNode_def)

declare calculateNewRoot_loop.simps [simp del]

definition calculateNewRoot :: "ref \<Rightarrow> Pollard \<Rightarrow> (ref \<times> Pollard) result" where
  "calculateNewRoot n p = calculateNewRoot_loop 0 n p"

fun Pollard_add :: "Leaf list \<Rightarrow> Pollard \<Rightarrow> Pollard result" where
  "Pollard_add [] p = Inr p"
| "Pollard_add (add # adds) p =
     (let rem = (Remember add \<or> Full p);
          (n, p1) = newNode \<lparr>lNiece = None, rNiece = None, aunt = None, data = leaf_Hash add, remember = rem\<rparr> p;
          p2 = (if rem then p1\<lparr>NodeMap := (NodeMap p1)(mini (leaf_Hash add) \<mapsto> n)\<rparr> else p1)
      in bindR (calculateNewRoot n p2) (\<lambda>(newRoot, p3).
         Pollard_add adds (p3\<lparr>polRoots := polRoots p3 @ [newRoot], polNumLeaves := polNumLeaves p3 + 1\<rparr>)))"

section \<open>Deletion\<close>

definition deleteFromMap :: "Pollard \<Rightarrow> Hash list \<Rightarrow> Pollard" where
  "deleteFromMap p delHashes = p\<lparr>NodeMap := fold (\<lambda>del m. m(mini del := None)) delHashes (NodeMap p)\<rparr>"

definition deleteRoot :: "Pollard \<Rightarrow> u64 \<Rightarrow> Pollard result" where
  "deleteRoot p del =
     bindR (detectOffset del (polNumLeaves p)) (\<lambda>(tree, _, _).
       if tree > of_int (int (length (polRoots p)) - 1) then Inl (RootIndexError del tree (length (polRoots p)))
       else bindR (nthR (polRoots p) (unat tree)) (\<lambda>r.
            let h = Heap p;
                h1 = clearAunt (lNiece (h r)) h;
                h2 = clearAunt (rNiece (h1 r)) h1
            in Inr (p\<lparr>NodeMap := (NodeMap p)(mini (data (h r)) := None),
                      Heap := setData r empty (setAunt r None (chop r h2))\<rparr>)))"

text \<open>The two branches of \<open>deleteSingle\<close> that move the sibling of the deleted node up.\<close>

definition moveBelowAunt :: "ref \<Rightarrow> ref \<Rightarrow> ref \<Rightarrow> ref option \<Rightarrow> heap \<Rightarrow> heap result" where
  "moveBelowAunt fromNode fromNodeSib toNode toSib h =
     bindR (returns (transferAunt fromNode toNode h)) (\<lambda>(h1, _).
     bindR (returns (transferNiece fromNode toNode h1)) (\<lambda>h2.
     bindR (deref toSib) (\<lambda>s.
     bindR (returns (transferNiece s fromNodeSib h2)) (\<lambda>h3.
     bindR (deref (aunt (h3 toNode))) (\<lambda>a. returns (updateAunt a h3))))))"

definition moveToRoot :: "ref \<Rightarrow> ref \<Rightarrow> ref \<Rightarrow> heap \<Rightarrow> heap result" where
  "moveToRoot fromNode fromNodeSib toNode h =
     bindR (returns (transferNiece toNode fromNodeSib (h(toNode := h fromNode)))) (\<lambda>h1.
     bindR (returns (updateAunt toNode h1)) (\<lambda>h2. Inr (delNode (Some fromNode) h2)))"

definition deleteSingle :: "Pollard \<Rightarrow> u64 \<Rightarrow> Pollard result" where
  "deleteSingle p del =
     bindR (getNode p (sibling del)) (\<lambda>(from', fromSib, _).
     bindR (deref fromSib) (\<lambda>fromNodeSib.
     bindR (getParent (Heap p) fromNodeSib) (\<lambda>to'.
     bindR (deref to') (\<lambda>toNode.
     bindR (deref from') (\<lambda>fromNode.
     bindR (if aunt (Heap p toNode) \<noteq> None
            then bindR (moveBelowAunt fromNode fromNodeSib toNode (aunt (Heap p fromNodeSib)) (Heap p)) (\<lambda>h.
                 Inr (p\<lparr>Heap := h\<rparr>))
            else bindR (moveToRoot fromNode fromNodeSib toNode (Heap p)) (\<lambda>h.
                 let k = mini (data (h toNode))
                 in Inr (p\<lparr>Heap := h, NodeMap := (if NodeMap p k \<noteq> None then (NodeMap p)(k \<mapsto> toNode) else NodeMap p)\<rparr>))) (\<lambda>p1.
     let p2 = p1\<lparr>NodeMap := (NodeMap p1)(mini (data (Heap p1 fromNodeSib)) := None),
                 Heap := delNode (Some fromNodeSib) (Heap p1)\<rparr>
     in if isRootPosition (parent del (treeRows (polNumLeaves p))) (polNumLeaves p)
        then Inr (p2\<lparr>Heap := setAunt toNode None (Heap p2)\<rparr>)
        else bindR (getParent (Heap p2) toNode) (\<lambda>par.
             bindR (deref par) (\<lambda>parentNode.
             bindR (getSibling (Heap p2) parentNode) (\<lambda>parSib.
             let h = setAunt toNode (if parSib = None then Some parentNode else parSib) (Heap p2)
             in bindR (returns (hashToRoot (Some parentNode) h)) (\<lambda>res.
                bindR res (\<lambda>h1. Inr (p2\<lparr>Heap := h1\<rparr>))))))))))))"

fun removeEach :: "u64 list \<Rightarrow> Pollard \<Rightarrow> Pollard result" where
  "removeEach [] p = Inr p"
| "removeEach (del # dels) p =
     bindR (if isRootPosition del (polNumLeaves p) then deleteRoot p del else deleteSingle p del) (removeEach dels)"

definition Pollard_remove :: "Pollard \<Rightarrow> u64 list \<Rightarrow> Pollard result" where
  "Pollard_remove p dels = removeEach (deTwin (sort dels) (treeRows (polNumLeaves p))) p"

definition Pollard_Modify :: "Pollard \<Rightarrow> Leaf list \<Rightarrow> Hash list \<Rightarrow> Proof \<Rightarrow> Pollard result" where
  "Pollard_Modify p adds delHashes pr =
     bindR (Pollard_remove (deleteFromMap p delHashes) (Targets pr)) (\<lambda>p1.
       Pollard_add adds (p1\<lparr>NumDels := NumDels p1 + of_nat (length (Targets pr))\<rparr>))"

section \<open>Proofs\<close>

fun findTargets :: "Pollard \<Rightarrow> Hash list \<Rightarrow> u64 list result" where
  "findTargets p [] = Inr []"
| "findTargets p (wanted # hs) =
     (case NodeMap p (mini wanted) of
        None \<Rightarrow> Inl (HashNotFound wanted)
      | Some n \<Rightarrow> bindR (calculatePosition p n) (\<lambda>t. bindR (findTargets p hs) (\<lambda>ts. Inr (t # ts))))"

fun readPositions :: "Pollard \<Rightarrow> u64 list \<Rightarrow> Hash list result" where
  "readPositions p [] = Inr []"
| "readPositions p (pos # ps) =
     bindR (getHash p pos) (\<lambda>h.
       if h = empty then Inl (UnreadPosition pos) else bindR (readPositions p ps) (\<lambda>hs. Inr (h # hs)))"

definition Pollard_Prove :: "Pollard \<Rightarrow> Hash list \<Rightarrow> Proof result" where
  "Pollard_Prove p hs =
     (if length hs = 0 \<or> polNumLeaves p = 0 then Inr \<lparr>Targets = [], proofHashes = []\<rparr>
      else if polNumLeaves p = 1 then Inr \<lparr>Targets = [0], proofHashes = []\<rparr>
      else bindR (findTargets p hs) (\<lambda>targets.
           bindR (proofPositions (sort targets) (polNumLeaves p) (treeRows (polNumLeaves p))) (\<lambda>(proofPos, _).
           bindR (readPositions p proofPos) (\<lambda>pf. Inr \<lparr>Targets = targets, proofHashes = pf\<rparr>))))"

text \<open>The loop over the roots from the last to the first, which counts the candidates matched.\<close>

fun countMatches :: "Hash list \<Rightarrow> Hash list \<Rightarrow> nat \<Rightarrow> nat" where
  "countMatches rootCandidates [] rootMatches = rootMatches"
| "countMatches rootCandidates (r # rs) rootMatches =
     (if length rootCandidates > rootMatches \<and> r = rootCandidates ! rootMatches
      then countMatches rootCandidates rs (rootMatches + 1)
      else countMatches rootCandidates rs rootMatches)"

definition Pollard_Verify :: "Pollard \<Rightarrow> Hash list \<Rightarrow> Proof \<Rightarrow> bool \<Rightarrow> unit result" where
  "Pollard_Verify p delHashes pr rem =
     (if length delHashes = 0 then Inr ()
      else if length delHashes \<noteq> length (Targets pr) then Inl (TargetsMismatch (length (Targets pr)) (length delHashes))
      else bindR (calculateHashes (polNumLeaves p) (Some delHashes) pr) (\<lambda>(_, rootCandidates).
        if length rootCandidates = 0 then Inl (NoRoots (length delHashes))
        else (let rootMatches = countMatches rootCandidates (rev (Pollard_GetRoots p)) 0
              in if length rootCandidates \<noteq> rootMatches then Inl (RootsMismatch (length rootCandidates) rootMatches)
                 else Inr ())))"

end
