(* ===== verification/PollardUndo.thy ===== *)
theory PollardUndo
  imports PollardOps
begin

text \<open>
  \<open>Undo\<close> of the accumulator of pollard.go: the additions of a block are taken back, the empty roots they wrote over
  are put back, and the deleted nodes are linked in again.
\<close>

unbundle bit_operations_syntax

section \<open>Nodes with their positions\<close>

type_synonym nodeAndPos = "ref \<times> u64"

definition insertSortNodeAndPos :: "nodeAndPos list \<Rightarrow> nodeAndPos \<Rightarrow> nodeAndPos list" where
  "insertSortNodeAndPos nodes el =
     (let index = sort_Search (length nodes) (\<lambda>i. snd (nodes ! i) > snd el)
      in take index nodes @ [el] @ drop index nodes)"

lemma length_insertSortNodeAndPos [simp]: "length (insertSortNodeAndPos ns el) = Suc (length ns)"
  by (simp add: insertSortNodeAndPos_def Let_def)

function deTwinPolNode_loop :: "nodeAndPos list \<Rightarrow> u8 \<Rightarrow> nat \<Rightarrow> Pollard \<Rightarrow> (nodeAndPos list \<times> Pollard) result" where
  "deTwinPolNode_loop polNodes forestRows i p =
     (if i < length polNodes then
        (if i + 1 < length polNodes \<and> rightSib (snd (polNodes ! i)) = snd (polNodes ! (i + 1))
         then (let pn = polNodes ! i; sibNode = fst (polNodes ! (i + 1))
               in bindR (onHeap (swapNieces (fst pn) sibNode) p) (\<lambda>p1.
                  let (m, p2) = newNode (zeroNode\<lparr>data := parentHash (data (Heap p1 (fst pn))) (data (Heap p1 sibNode)),
                                           lNiece := Some (fst pn), rNiece := Some sibNode\<rparr>) p1
                  in bindR (onHeap (updateAunt m) p2) (\<lambda>p3.
                     deTwinPolNode_loop (insertSortNodeAndPos (take i polNodes @ drop (i + 2) polNodes) (m, parent (snd pn) forestRows))
                       forestRows i p3)))
         else deTwinPolNode_loop polNodes forestRows (i + 1) p)
      else Inr (polNodes, p))"
  by pat_completeness auto
termination
  by (relation "measure (\<lambda>(polNodes, forestRows, i, p). 2 * length polNodes - i)") auto

declare deTwinPolNode_loop.simps [simp del]

definition deTwinPolNode :: "nodeAndPos list \<Rightarrow> u8 \<Rightarrow> Pollard \<Rightarrow> (nodeAndPos list \<times> Pollard) result" where
  "deTwinPolNode polNodes forestRows p = deTwinPolNode_loop polNodes forestRows 0 p"

section \<open>Undoing additions\<close>

fun undoAdd_rows :: "nat \<Rightarrow> Pollard \<Rightarrow> Pollard result" where
  "undoAdd_rows row p =
     (if polRoots p = [] then Inl Panic
      else (let lowestRoot = last (polRoots p);
                l = lNiece (Heap p lowestRoot); r = rNiece (Heap p lowestRoot);
                forget = (\<lambda>p. p\<lparr>NodeMap := (NodeMap p)(mini (data (Heap p lowestRoot)) := None),
                                Heap := delNode (Some lowestRoot) (Heap p)\<rparr>)
            in case l of
                 None \<Rightarrow> Inr (forget (p\<lparr>polRoots := butlast (polRoots p)\<rparr>))
               | Some ln \<Rightarrow>
                   bindR (deref r) (\<lambda>rn.
                   bindR (onHeap (swapNieces ln rn) (p\<lparr>polRoots := butlast (polRoots p)\<rparr>)) (\<lambda>p1.
                   let p2 = forget (p1\<lparr>Heap := setAunt rn None (setAunt ln None (Heap p1)),
                                       polRoots := polRoots p1 @ [ln, rn]\<rparr>)
                   in case row of 0 \<Rightarrow> Inr p2 | Suc k \<Rightarrow> undoAdd_rows k p2))))"

declare undoAdd_rows.simps [simp del]

definition Pollard_undoSingleAdd :: "Pollard \<Rightarrow> Pollard result" where
  "Pollard_undoSingleAdd p =
     bindR (returns (getLowestRoot (polNumLeaves p) (treeRows (polNumLeaves p)))) (\<lambda>row.
     bindR (undoAdd_rows (unat row) p) (\<lambda>p1. Inr (p1\<lparr>polNumLeaves := polNumLeaves p1 - 1\<rparr>)))"

primrec undoEachAdd :: "nat \<Rightarrow> Pollard \<Rightarrow> Pollard result" where
  "undoEachAdd 0 p = Inr p"
| "undoEachAdd (Suc k) p = bindR (Pollard_undoSingleAdd p) (undoEachAdd k)"

text \<open>The roots that the deletions emptied, marked in the copy of the previous roots.\<close>

fun markEmpty :: "u64 \<Rightarrow> u64 list \<Rightarrow> Hash list \<Rightarrow> Hash list result" where
  "markEmpty numLeaves [] copyRoots = Inr copyRoots"
| "markEmpty numLeaves (del # dels) copyRoots =
     (if isRootPosition del numLeaves then
        bindR (detectOffset del numLeaves) (\<lambda>(tree, _, _).
          if unat tree < length copyRoots then markEmpty numLeaves dels (copyRoots[unat tree := empty]) else Inl Panic)
      else markEmpty numLeaves dels copyRoots)"

text \<open>The inner loop of \<open>undoEmptyRoots\<close>, which appends \<open>k\<close> empty roots.\<close>

primrec appendRoots :: "nat \<Rightarrow> Pollard \<Rightarrow> Pollard" where
  "appendRoots 0 p = p"
| "appendRoots (Suc k) p =
     (let (n, p1) = newNode (zeroNode\<lparr>remember := Full p\<rparr>) p
      in appendRoots k (p1\<lparr>polRoots := polRoots p1 @ [n]\<rparr>))"

fun insertEmpty :: "nat \<Rightarrow> Hash list \<Rightarrow> Pollard \<Rightarrow> Pollard" where
  "insertEmpty i [] p = p"
| "insertEmpty i (prevRoot # rts) p =
     (if prevRoot = empty then
        (let p1 = appendRoots (i + 1 - length (polRoots p)) p
         in if data (Heap p1 (polRoots p1 ! i)) \<noteq> empty
            then (let (n, p2) = newNode (zeroNode\<lparr>data := prevRoot, remember := Full p1\<rparr>) p1
                  in insertEmpty (i + 1) rts (p2\<lparr>polRoots := take i (polRoots p2) @ [n] @ drop i (polRoots p2)\<rparr>))
            else insertEmpty (i + 1) rts p1)
      else insertEmpty (i + 1) rts p)"

definition undoEmptyRoots :: "Pollard \<Rightarrow> u64 \<Rightarrow> u64 list \<Rightarrow> Hash list \<Rightarrow> Pollard result" where
  "undoEmptyRoots p numAdds origDels prevRoots =
     (if length (polRoots p) \<ge> unat (numRoots (polNumLeaves p)) then Inr p
      else (let dels = deTwin (sort origDels) (treeRows (polNumLeaves p))
            in bindR (markEmpty (polNumLeaves p) dels prevRoots) (\<lambda>copyRoots. Inr (insertEmpty 0 copyRoots p))))"

section \<open>Undoing deletions\<close>

definition undoBelowAunt :: "ref \<Rightarrow> u64 \<Rightarrow> ref \<Rightarrow> ref option \<Rightarrow> ref \<Rightarrow> heap \<Rightarrow> heap result" where
  "undoBelowAunt n pos sib auntP par h =
     bindR (returns (transferAunt par sib h)) (\<lambda>(h1, _).
     bindR (returns (transferNiece par sib h1)) (\<lambda>h2.
     bindR (returns (updateAunt par h2)) (\<lambda>h3.
     bindR (deref auntP) (\<lambda>a.
       let auntLNiece = lNiece (h3 a); auntRNiece = rNiece (h3 a);
           h4 = (if isLeftNiece pos then setR a (Some sib) (setL a (Some n) h3) else setR a (Some n) (setL a (Some sib) h3))
       in bindR (returns (updateAunt a h4)) (\<lambda>h5.
          bindR (returns (transferNiece sib n h5)) (\<lambda>h6.
          returns (updateAunt n (setR n auntRNiece (setL n auntLNiece h6)))))))))"

text \<open>The branch for a sibling that is a root: the structs change places, so that the pointers to
  the root lead to the parent.\<close>

definition undoAtRoot :: "ref \<Rightarrow> u64 \<Rightarrow> ref \<Rightarrow> ref \<Rightarrow> heap \<Rightarrow> heap result" where
  "undoAtRoot n pos sib par h =
     (let h1 = h(sib := h par, par := h sib);
          sib' = par; par' = sib;
          h2 = (if isLeftNiece pos then setR par' (Some sib') (setL par' (Some n) h1)
                else setR par' (Some n) (setL par' (Some sib') h1))
      in bindR (returns (updateAunt par' h2)) (\<lambda>h3.
         bindR (returns (updateAunt sib' h3)) (\<lambda>h4.
         bindR (deref (lNiece (h4 par'))) (\<lambda>a.
         bindR (deref (rNiece (h4 par'))) (\<lambda>b. returns (swapNieces a b h4))))))"

definition undoSingleDel :: "Pollard \<Rightarrow> ref \<Rightarrow> u64 \<Rightarrow> Pollard result" where
  "undoSingleDel p n pos =
     (let siblingPos = parent pos (treeRows (polNumLeaves p))
      in case getNode p siblingPos of
           Inl e \<Rightarrow> Inl (if e = Panic \<or> e = Diverge then e else UndoError (data (Heap p n)) pos e)
         | Inr (sib0, auntP, _) \<Rightarrow>
             bindR (deref sib0) (\<lambda>sib.
               let pHash = calculateParentHash pos (Heap p) n sib;
                   (par, p1) = newNode (zeroNode\<lparr>data := pHash, remember := Full p\<rparr>) p
               in if aunt (Heap p1 sib) \<noteq> None then
                    bindR (undoBelowAunt n pos sib auntP par (Heap p1)) (\<lambda>h.
                    bindR (returns (hashToRoot (Some par) h)) (\<lambda>res.
                    bindR res (\<lambda>h1. Inr (p1\<lparr>Heap := h1\<rparr>))))
                  else
                    bindR (undoAtRoot n pos sib par (Heap p1)) (\<lambda>h.
                      let k = mini (data (h par))
                      in Inr (p1\<lparr>Heap := h, NodeMap := (if NodeMap p1 k \<noteq> None then (NodeMap p1)(k \<mapsto> par) else NodeMap p1)\<rparr>))))"

fun undoDels_nodes :: "(u64 \<times> Hash) list \<Rightarrow> Pollard \<Rightarrow> nodeAndPos list \<times> Pollard" where
  "undoDels_nodes [] p = ([], p)"
| "undoDels_nodes ((del, hash) # ds) p =
     (let (n, p1) = newNode (zeroNode\<lparr>data := hash, remember := Full p\<rparr>) p;
          (pnps, p2) = undoDels_nodes ds (p1\<lparr>NodeMap := (NodeMap p1)(mini hash \<mapsto> n)\<rparr>)
      in ((n, del) # pnps, p2))"

fun undoDels_loop :: "nodeAndPos list \<Rightarrow> Pollard \<Rightarrow> Pollard result" where
  "undoDels_loop [] p = Inr p"
| "undoDels_loop ((n, pos) # pnps) p =
     bindR (if isRootPosition pos (polNumLeaves p)
            then bindR (detectOffset pos (polNumLeaves p)) (\<lambda>(tree, _, _).
                 if unat tree < length (polRoots p) then Inr (p\<lparr>polRoots := (polRoots p)[unat tree := n]\<rparr>) else Inl Panic)
            else undoSingleDel p n pos) (undoDels_loop pnps)"

text \<open>\<open>sort.Slice\<close> orders the nodes by their positions; the order of equal ones is the given one.\<close>

definition undoDels :: "Pollard \<Rightarrow> u64 list \<Rightarrow> Hash list \<Rightarrow> Pollard result" where
  "undoDels p dels delHashes =
     (if length dels \<noteq> length delHashes then Inl (UndoMismatch (length dels) (length delHashes))
      else (let (pnps, p1) = undoDels_nodes (zip dels delHashes) p
            in bindR (deTwinPolNode (sort_key snd pnps) (treeRows (polNumLeaves p1)) p1) (\<lambda>(pnps1, p2).
               bindR (undoDels_loop (rev pnps1) p2) (\<lambda>p3.
               Inr (p3\<lparr>NumDels := NumDels p3 - of_nat (length delHashes)\<rparr>)))))"

definition Pollard_Undo :: "Pollard \<Rightarrow> u64 \<Rightarrow> Proof \<Rightarrow> Hash list \<Rightarrow> Hash list \<Rightarrow> Pollard result" where
  "Pollard_Undo p numAdds pr delHashes prevRoots =
     bindR (undoEachAdd (nat (sint numAdds)) p) (\<lambda>p1.
     bindR (undoEmptyRoots p1 numAdds (Targets pr) prevRoots) (\<lambda>p2.
     undoDels p2 (Targets pr) delHashes))"

end
