(* ===== verification/PollardBytes.thy ===== *)
theory PollardBytes
  imports PollardUndo
begin

text \<open>
  \<open>WriteTo\<close> and \<open>RestorePollardFrom\<close> of pollard.go on bytes, and the counts of nodes and bytes.
\<close>

unbundle bit_operations_syntax

section \<open>Counting\<close>

fun sumCounts :: "heap \<Rightarrow> ref list \<Rightarrow> int \<Rightarrow> int option" where
  "sumCounts h [] sum0 = Some sum0"
| "sumCounts h (r # rs) sum0 = Option.bind (getCount h (Some r)) (\<lambda>c. sumCounts h rs (sum0 + c))"

definition GetTotalCount :: "Pollard \<Rightarrow> int option" where
  "GetTotalCount p = sumCounts (Heap p) (polRoots p) 0"

definition SerializeSize :: "Pollard \<Rightarrow> int option" where
  "SerializeSize p = Option.bind (GetTotalCount p) (\<lambda>count. Some (count * 32 + 16 + count * 2))"

section \<open>Writing\<close>

partial_function (option) writeOne :: "heap \<Rightarrow> ref option \<Rightarrow> byte list result option" where
  [code]: "writeOne h p =
     (case p of
        None \<Rightarrow> Some (Inr [])
      | Some n \<Rightarrow>
          (case getChildren h n of
             Inl e \<Rightarrow> Some (Inl e)
           | Inr (lChild, rChild) \<Rightarrow>
               (let leaf = (if lChild = None \<and> rChild = None then 1 else 0)
                in if lNiece (h n) \<noteq> None \<and> rNiece (h n) \<noteq> None
                   then Option.bind (writeOne h (lNiece (h n))) (\<lambda>left.
                        case left of
                          Inl e \<Rightarrow> Some (Inl e)
                        | Inr lb \<Rightarrow>
                            Option.bind (writeOne h (rNiece (h n))) (\<lambda>right.
                            case right of
                              Inl e \<Rightarrow> Some (Inl e)
                            | Inr rb \<Rightarrow> Some (Inr (hashBytes (data (h n)) @ [leaf, 1] @ lb @ rb))))
                   else Some (Inr (hashBytes (data (h n)) @ [leaf, 0])))))"

fun writeRoots :: "heap \<Rightarrow> ref list \<Rightarrow> byte list result" where
  "writeRoots h [] = Inr []"
| "writeRoots h (r # rs) =
     bindR (returns (writeOne h (Some r))) (\<lambda>res.
     bindR res (\<lambda>b. bindR (writeRoots h rs) (\<lambda>bs. Inr (b @ bs))))"

text \<open>What the writer is given, a writer that never fails, and the count of its bytes.\<close>

definition WriteTo :: "Pollard \<Rightarrow> (byte list \<times> nat) result" where
  "WriteTo p =
     bindR (writeRoots (Heap p) (polRoots p)) (\<lambda>bs.
       let written = putUint64 (polNumLeaves p) @ putUint64 (NumDels p) @ bs
       in Inr (written, length written))"

section \<open>Reading\<close>

text \<open>
  The state of a restore: the heap, the next free address, the entries of the map in the order they
  were set, and the input that is left. A node at the end of the input is left as it is.
\<close>

record restore =
  rHeap :: heap
  rFresh :: ref
  rEntries :: "(miniHash \<times> ref) list"
  rInput :: "byte list"

definition newNiece :: "ref \<Rightarrow> restore \<Rightarrow> ref \<times> restore" where
  "newNiece a s = (rFresh s, s\<lparr>rHeap := (rHeap s)(rFresh s := zeroNode\<lparr>aunt := Some a\<rparr>), rFresh := rFresh s + 1\<rparr>)"

text \<open>The data and the two flags of a node: no result when the input has ended before the data.\<close>

definition readNode :: "ref \<Rightarrow> restore \<Rightarrow> (restore \<times> bool option) result" where
  "readNode n s =
     (case readInto 32 (hashBytes (data (rHeap s n))) (rInput s) of
        Inl _ \<Rightarrow> Inr (s, None)
      | Inr (bs, input1) \<Rightarrow>
          (let h = setData n (bytesHash bs) (rHeap s)
           in bindR (readInto 1 [0] input1) (\<lambda>(buf1, input2).
              bindR (readInto 1 buf1 input2) (\<lambda>(buf2, input3).
              Inr (s\<lparr>rHeap := h, rInput := input3,
                     rEntries := (if buf1 ! 0 = 1 \<and> data (h n) \<noteq> empty then rEntries s @ [(mini (data (h n)), n)] else rEntries s)\<rparr>,
                   Some (buf2 ! 0 = 1))))))"

partial_function (option) readOne :: "ref \<Rightarrow> restore \<Rightarrow> restore result option" where
  [code]: "readOne n s =
     (case readNode n s of
        Inl e \<Rightarrow> Some (Inl e)
      | Inr (s1, nieces) \<Rightarrow>
          if nieces = Some True then
            (let (l, s2) = newNiece n s1; s3 = s2\<lparr>rHeap := setL n (Some l) (rHeap s2)\<rparr>
             in Option.bind (readOne l s3) (\<lambda>left.
                case left of
                  Inl e \<Rightarrow> Some (Inl e)
                | Inr s4 \<Rightarrow>
                    (let (r, s5) = newNiece n s4; s6 = s5\<lparr>rHeap := setR n (Some r) (rHeap s5)\<rparr>
                     in readOne r s6)))
          else Some (Inr s1))"

primrec readRoots :: "nat \<Rightarrow> ref list \<Rightarrow> restore \<Rightarrow> (ref list \<times> restore) result" where
  "readRoots 0 rts s = Inr (rts, s)"
| "readRoots (Suc k) rts s =
     (let n = rFresh s; s1 = s\<lparr>rHeap := (rHeap s)(n := zeroNode), rFresh := rFresh s + 1\<rparr>
      in bindR (returns (readOne n s1)) (\<lambda>res. bindR res (readRoots k (rts @ [n]))))"

definition RestorePollardFrom :: "byte list \<Rightarrow> (nat \<times> Pollard \<times> byte list) result" where
  "RestorePollardFrom input =
     bindR (readInto 8 (replicate 8 0) input) (\<lambda>(buf1, input1).
     bindR (readInto 8 buf1 input1) (\<lambda>(buf2, input2).
       let numLeaves = getUint64 buf1; dels = getUint64 buf2
       in bindR (readRoots (unat (numRoots numLeaves)) []
                  \<lparr>rHeap = (\<lambda>_. zeroNode), rFresh = 0, rEntries = [], rInput = input2\<rparr>) (\<lambda>(rts, s).
          let found = length (remdups (map fst (rEntries s)))
          in if int found \<noteq> sint (numLeaves - dels) then Inl (RestoreMismatch (numLeaves - dels) found)
             else Inr (length input - length (rInput s),
                       \<lparr>Heap = rHeap s, Fresh = rFresh s, NodeMap = mapFrom (rEntries s), polRoots = rts,
                        polNumLeaves = numLeaves, NumDels = dels, Full = True\<rparr>, rInput s))))"

end
