(* ===== verification/StumpDelete.thy ===== *)
theory StumpDelete
  imports Stump "HOL-Library.Sublist"
begin

text \<open>
  Verification and deletion on the stump of a forest. A proof made of the labels of the forest
  is accepted (\<open>Verify_complete\<close>), and deleting its targets from the stump gives the stump of
  the forest with the targets deleted (\<open>Stump_del_eq\<close>).
\<close>

unbundle bit_operations_syntax

section \<open>The stump of a forest\<close>

definition stump_of :: "u64 \<Rightarrow> forest \<Rightarrow> Stump" where
  "stump_of n Fo = \<lparr>Roots = map (\<lambda>h. rhash (Fo h)) (rows n), NumLeaves = n\<rparr>"

lemma stump_of_simps [simp]:
  "Roots (stump_of n Fo) = map (\<lambda>h. rhash (Fo h)) (rows n)" "NumLeaves (stump_of n Fo) = n"
  by (simp_all add: stump_of_def)

lemma matchRoots_spec:
  assumes "length acc \<le> length cs"
  shows "\<exists>js. matchRoots rts cs is acc = acc @ js \<and> subseq js is \<and>
      prefix (map ((!) rts) js) (drop (length acc) cs) \<and>
      (length (acc @ js) = length cs \<longleftrightarrow> subseq (drop (length acc) cs) (map ((!) rts) is))"
  using assms
proof (induction "is" arbitrary: acc)
  case Nil
  then show ?case by (intro exI[of _ "[]"]) (auto dest: list_emb_Nil2)
next
  case (Cons i "is")
  show ?case
  proof (cases "length cs > length acc \<and> rts ! i = cs ! length acc")
    case True
    then have d: "drop (length acc) cs = rts ! i # drop (Suc (length acc)) cs"
      by (simp add: Cons_nth_drop_Suc)
    obtain js where js: "matchRoots rts cs is (acc @ [i]) = (acc @ [i]) @ js" "subseq js is"
      "prefix (map ((!) rts) js) (drop (length (acc @ [i])) cs)"
      "length ((acc @ [i]) @ js) = length cs \<longleftrightarrow> subseq (drop (length (acc @ [i])) cs) (map ((!) rts) is)"
      using Cons.IH[of "acc @ [i]"] True by auto
    then show ?thesis using True d by (intro exI[of _ "i # js"]) auto
  next
    case False
    obtain js where js: "matchRoots rts cs is acc = acc @ js" "subseq js is"
      "prefix (map ((!) rts) js) (drop (length acc) cs)"
      "length (acc @ js) = length cs \<longleftrightarrow> subseq (drop (length acc) cs) (map ((!) rts) is)"
      using Cons.IH[of acc] Cons.prems by auto
    have "subseq (drop (length acc) cs) (map ((!) rts) (i # is)) \<longleftrightarrow> subseq (drop (length acc) cs) (map ((!) rts) is)"
    proof (cases "length cs > length acc")
      case True
      then have "drop (length acc) cs = cs ! length acc # drop (Suc (length acc)) cs"
        by (simp add: Cons_nth_drop_Suc)
      then show ?thesis using False True by simp
    qed (use Cons.prems in simp)
    then show ?thesis using js False by (intro exI[of _ js]) auto
  qed
qed

lemma nth_rev_indices: "map ((!) rts) (rev [0..<length rts]) = rev rts"
  by (simp add: map_nth flip: rev_map)

lemma Verify_iff:
  assumes "length dels = length (Targets pr)" "calculateHashes (NumLeaves s) (Some dels) pr = Inr (im, cs)"
  shows "(\<exists>js. Verify s dels pr = Inr js) \<longleftrightarrow> subseq cs (rev (Roots s))"
    "Verify s dels pr = Inr js \<Longrightarrow> subseq js (rev [0..<length (Roots s)]) \<and> map ((!) (Roots s)) js = cs"
proof -
  let ?is = "rev [0..<length (Roots s)]"
  obtain ks where ks: "matchRoots (Roots s) cs ?is [] = ks" "subseq ks ?is" "prefix (map ((!) (Roots s)) ks) cs"
    "length ks = length cs \<longleftrightarrow> subseq cs (rev (Roots s))"
    using matchRoots_spec[of "[]" cs "Roots s" ?is] by (auto simp: nth_rev_indices)
  have v: "Verify s dels pr = (if length cs \<noteq> length ks then Inl (RootsMismatch (length cs) (length ks)) else Inr ks)"
    using assms ks(1) by (simp add: Verify_def Let_def)
  then show "(\<exists>js. Verify s dels pr = Inr js) \<longleftrightarrow> subseq cs (rev (Roots s))" using ks(4) by auto
  assume "Verify s dels pr = Inr js"
  then have "js = ks" "length ks = length cs" using v by (auto split: if_splits)
  then show "subseq js ?is \<and> map ((!) (Roots s)) js = cs"
    using ks(2,3) by (auto simp: prefix_def)
qed

lemma Verify_mismatch:
  assumes "length dels = length (Targets pr)" "calculateHashes (NumLeaves s) (Some dels) pr = Inl e"
  shows "Verify s dels pr = Inl e"
  using assms by (simp add: Verify_def)

section \<open>The roots a proof reaches\<close>

definition touched :: "u64 \<Rightarrow> u8 \<Rightarrow> u64 list \<Rightarrow> nat list" where
  "touched n F ts = filter (\<lambda>h. rootPosition n (of_nat h) F \<in> climbs n F (set ts)) (filter (bit n) [0..<64])"

lemma sorted_rows: "sorted_wrt (<) (filter (bit n) [0..<64])"
  by (intro sorted_wrt_filter) simp

lemma roots_climbed:
  assumes "targets_ok n F ts"
  shows "filter (root n F) (climbL n F ts) = map (\<lambda>h. rootPosition n (of_nat h) F) (touched n F ts)"
proof (rule strict_sorted_equal)
  have f: "fits n F" "\<forall>t \<in> set ts. node n F t" using assms by (auto simp: targets_ok_def)
  show "ascending (filter (root n F) (climbL n F ts))" by (intro ascending_filter) simp
  have "rootPosition n (of_nat g) F < rootPosition n (of_nat h) F" if "g < h" "bit n g" "bit n h" for g h
    using node_less_iff[OF f(1) root_place[OF f(1) that(2)] root_place[OF f(1) that(3)]] that(1) by simp
  then show "ascending (map (\<lambda>h. rootPosition n (of_nat h) F) (touched n F ts))"
    unfolding touched_def sorted_wrt_map
    by (intro sorted_wrt_mono_rel[OF _ sorted_wrt_filter[OF sorted_rows]]) auto
  have r: "root n F (rootPosition n (of_nat h) F)" if "bit n h" for h
    using root_iff(1)[OF f(1) root_place[OF f(1) that]] by simp
  have "\<exists>h. bit n h \<and> c = rootPosition n (of_nat h) F" if c: "c \<in> climbs n F (set ts)" "root n F c" for c
  proof -
    obtain h r k where a: "place n F c h r k" using node_place[OF f(1) climbs_node[OF f c(1)]] .
    then have "r = h" using root_iff(1)[OF f(1) a] c(2) by simp
    then show ?thesis using a place_root[OF f(1)] by (auto simp: place_def in_tree_def bit_unat_iff)
  qed
  moreover have "bit n h \<Longrightarrow> h < 64" for h using bit_imp_le_length[of n h] by simp
  ultimately show "set (filter (root n F) (climbL n F ts)) = set (map (\<lambda>h. rootPosition n (of_nat h) F) (touched n F ts))"
    using r by (auto simp: touched_def)
qed

lemma rev_rows: "rev (rows n) = filter (bit n) [0..<64]"
  by (simp add: rows_def)

lemma touched_bit: "h \<in> set (touched n F ts) \<Longrightarrow> bit n h"
  by (simp add: touched_def)

lemma root_labels:
  assumes "fits n F"
  shows "map (label n F Fo) (map (\<lambda>h. rootPosition n (of_nat h) F) (touched n F ts)) =
    map (\<lambda>h. rhash (Fo h)) (touched n F ts)"
  using subtree_at_root[OF assms] touched_bit by (auto simp: label_def)

lemma Verify_complete:
  assumes "targets_ok n F ts" "distinct ts" "F = treeRows n" "forest_nonzero n Fo"
    "\<forall>t \<in> set ts. subtree_at n F Fo t \<noteq> None" "pf = map (label n F Fo) (needed n F ts)"
  shows "\<exists>js. Verify (stump_of n Fo) (map (label n F Fo) ts) \<lparr>Targets = ts, proofHashes = pf\<rparr> = Inr js"
proof -
  have f: "fits n F" "\<forall>t \<in> set ts. node n F t \<and> subtree_at n F Fo t \<noteq> None"
    using assms(1,5) by (auto simp: targets_ok_def)
  have ch: "calculateHashes n (Some (map (label n F Fo) ts)) \<lparr>Targets = ts, proofHashes = pf\<rparr> =
    Inr (of_pairs (labelled (label n F Fo) (climbL n F ts)), map (\<lambda>h. rhash (Fo h)) (touched n F ts))"
    using calculateHashes_labelled[OF assms(1-3) labels_forest[OF f(1) assms(4) f(2)], of pf "Some (map (label n F Fo) ts)"]
      assms(6) by (simp only: roots_climbed[OF assms(1)] root_labels[OF f(1)]) simp
  have "subseq (map (\<lambda>h. rhash (Fo h)) (touched n F ts)) (rev (Roots (stump_of n Fo)))"
    unfolding touched_def stump_of_simps rev_map rev_rows by (intro subseq_map subseq_filter_left)
  then show ?thesis using Verify_iff(1)[of "map (label n F Fo) ts"] ch by simp
qed

section \<open>Deletion\<close>

text \<open>Trees that are not empty have different root hashes.\<close>

definition forest_distinct :: "u64 \<Rightarrow> forest \<Rightarrow> bool" where
  "forest_distinct n Fo \<longleftrightarrow> distinct (filter (\<lambda>x. x \<noteq> empty) (map (\<lambda>h. rhash (Fo h)) (rows n)))"

lemma distinct_filter_inj:
  "distinct (filter P (map f xs)) \<Longrightarrow> x \<in> set xs \<Longrightarrow> y \<in> set xs \<Longrightarrow> distinct xs \<Longrightarrow> f x = f y \<Longrightarrow> P (f x) \<Longrightarrow> x = y"
proof (induction xs)
  case (Cons z zs)
  have "w \<in> set zs \<Longrightarrow> f z = f w \<Longrightarrow> P (f z) \<Longrightarrow> False" for w using Cons.prems(1) by force
  then show ?case using Cons by (auto split: if_splits; metis image_eqI)
qed simp

lemma distinct_rows: "distinct (rows n)"
  by (simp add: rows_def)

lemma touched_nonempty:
  assumes "fits n F" "\<forall>t \<in> set ts. node n F t \<and> subtree_at n F Fo t \<noteq> None" "forest_nonzero n Fo"
    "h \<in> set (touched n F ts)"
  shows "rhash (Fo h) \<noteq> empty"
proof -
  have b: "bit n h" and c: "rootPosition n (of_nat h) F \<in> climbs n F (set ts)"
    using assms(4) by (auto simp: touched_def)
  obtain t where "Fo h = Some t"
    using climbs_subtree(2)[OF assms(1,2) c] subtree_at_root[OF assms(1) b] by auto
  then show ?thesis using forest_nonzeroD[OF assms(3) b] nonzero_thash by (simp add: nonzeroO_def)
qed

lemma untouched_delete:
  assumes "fits n F" "forest_ok n Fo" "bit n h" "h \<notin> set (touched n F ts)"
  shows "delete n F (set ts) Fo h = Fo h"
proof -
  have "h < 64" using bit_imp_le_length[OF assms(3)] by simp
  then have "rootPosition n (of_nat h) F \<notin> climbs n F (set ts)" using assms(3,4) by (auto simp: touched_def)
  then show ?thesis
    using pruned_unchanged[OF assms(1,2) place_row(7)[OF assms(1) root_place[OF assms(1,3)]], of "set ts"]
      pruned_root[OF assms(1,3), of "set ts" Fo] subtree_at_root[OF assms(1,3), of Fo] by simp
qed

lemma setRoots_length [simp]: "length (setRoots rts is hs) = length rts"
  by (induction rts "is" hs rule: setRoots.induct) auto

lemma setRoots_nth:
  "i < length rts \<Longrightarrow> setRoots rts is (map v is) ! i = (if i \<in> set is then v i else rts ! i)"
  by (induction "is" arbitrary: rts) auto

lemma subseq_mem: "subseq xs ys \<Longrightarrow> x \<in> set xs \<Longrightarrow> x \<in> set ys"
  by (erule (1) list_emb_set) simp

lemma matched_rows:
  assumes "subseq js (rev [0..<length (rows n)])" "map (\<lambda>i. rhash (Fo (rows n ! i))) js = map (\<lambda>h. rhash (Fo h)) hs"
    "forest_distinct n Fo" "set hs \<subseteq> set (rows n)" "\<forall>h \<in> set hs. rhash (Fo h) \<noteq> empty"
  shows "map ((!) (rows n)) js = hs"
proof (rule nth_equalityI)
  show l: "length (map ((!) (rows n)) js) = length hs" using map_eq_imp_length_eq[OF assms(2)] by simp
  fix i assume "i < length (map ((!) (rows n)) js)"
  then have i: "i < length js" "i < length hs" using l by auto
  have "js ! i \<in> set (rev [0..<length (rows n)])" using subseq_mem[OF assms(1)] i(1) by simp
  then have "rows n ! (js ! i) \<in> set (rows n)" by simp
  moreover have "hs ! i \<in> set (rows n)" "rhash (Fo (hs ! i)) \<noteq> empty" using i assms(4,5) nth_mem by blast+
  moreover have "rhash (Fo (rows n ! (js ! i))) = rhash (Fo (hs ! i))"
    using arg_cong[OF assms(2), of "\<lambda>xs. xs ! i"] i by simp
  ultimately have "rows n ! (js ! i) = hs ! i"
    using distinct_filter_inj[OF assms(3)[unfolded forest_distinct_def] _ _ distinct_rows] by metis
  then show "map ((!) (rows n)) js ! i = hs ! i" using i by simp
qed

lemma setRoots_forest:
  assumes "map ((!) (rows n)) js = hs" "\<forall>i \<in> set js. i < length (rows n)" "\<forall>h. bit n h \<longrightarrow> h \<notin> set hs \<longrightarrow> Fo' h = Fo h"
  shows "setRoots (Roots (stump_of n Fo)) js (map (\<lambda>h. rhash (Fo' h)) hs) = Roots (stump_of n Fo')"
proof (rule nth_equalityI)
  fix i assume "i < length (setRoots (Roots (stump_of n Fo)) js (map (\<lambda>h. rhash (Fo' h)) hs))"
  then have i: "i < length (rows n)" by simp
  then have b: "bit n (rows n ! i)" using rows_iff nth_mem by blast
  have "rows n ! i \<in> set hs \<longleftrightarrow> i \<in> set js"
    unfolding assms(1)[symmetric] using i assms(2) nth_eq_iff_index_eq[OF distinct_rows] by auto
  then have "i \<notin> set js \<Longrightarrow> Fo' (rows n ! i) = Fo (rows n ! i)" using assms(3) b by simp
  then show "setRoots (Roots (stump_of n Fo)) js (map (\<lambda>h. rhash (Fo' h)) hs) ! i = Roots (stump_of n Fo') ! i"
    using i setRoots_nth[of i "map (\<lambda>h. rhash (Fo h)) (rows n)" js "\<lambda>i. rhash (Fo' (rows n ! i))"]
    by (simp add: assms(1)[symmetric] comp_def)
qed simp

lemma calculateHashes_forest:
  assumes "targets_ok n F ts" "distinct ts" "F = treeRows n" "forest_nonzero n Fo"
    "\<forall>t \<in> set ts. subtree_at n F Fo t \<noteq> None" "pf = map (label n F Fo) (needed n F ts)"
  shows "calculateHashes n (Some (map (label n F Fo) ts)) \<lparr>Targets = ts, proofHashes = pf\<rparr> =
    Inr (of_pairs (labelled (label n F Fo) (climbL n F ts)), map (\<lambda>h. rhash (Fo h)) (touched n F ts))"
proof -
  have f: "fits n F" "\<forall>t \<in> set ts. node n F t \<and> subtree_at n F Fo t \<noteq> None"
    using assms(1,5) by (auto simp: targets_ok_def)
  show ?thesis
    using calculateHashes_labelled[OF assms(1-3) labels_forest[OF f(1) assms(4) f(2)], of pf "Some (map (label n F Fo) ts)"]
      assms(6) by (simp only: roots_climbed[OF assms(1)] root_labels[OF f(1)]) simp
qed

lemma calculateHashes_delete:
  assumes "targets_ok n F ts" "distinct ts" "F = treeRows n" "forest_ok n Fo"
    "forest_nonzero n (delete n F (set ts) Fo)"
    "\<forall>t \<in> set ts. subtree_at n F Fo t \<noteq> None" "pf = map (label n F Fo) (needed n F ts)"
  shows "calculateHashes n None \<lparr>Targets = ts, proofHashes = pf\<rparr> =
    Inr (of_pairs (labelled (\<lambda>p. rhash (pruned n F (set ts) Fo p)) (climbL n F ts)),
         map (\<lambda>h. rhash (delete n F (set ts) Fo h)) (touched n F ts))"
proof -
  let ?K = "\<lambda>p. rhash (pruned n F (set ts) Fo p)"
  have f: "fits n F" "\<forall>t \<in> set ts. node n F t \<and> subtree_at n F Fo t \<noteq> None"
    using assms(1,6) by (auto simp: targets_ok_def)
  have keep: "map ?K (needed n F ts) = map (label n F Fo) (needed n F ts)"
  proof (rule map_cong[OF refl])
    fix s assume "s \<in> set (needed n F ts)"
    then obtain c where c: "c \<in> climbs n F (set ts)" "\<not> root n F c" "s = sibling c" "s \<notin> climbs n F (set ts)"
      by (auto simp: needed_def needs_def)
    have "node n F s" using sibling_node(1)[OF f(1) climbs_subtree(1)[OF f c(1)] c(2)] c(3) by simp
    then show "?K s = label n F Fo s" using pruned_unchanged[OF f(1) assms(4) _ c(4)] by (simp add: label_def)
  qed
  have "calculateHashes n None \<lparr>Targets = ts, proofHashes = pf\<rparr> =
      Inr (of_pairs (labelled ?K (climbL n F ts)), map ?K (filter (root n F) (climbL n F ts)))"
    using assms(7) keep
    by (intro calculateHashes_labelled[OF assms(1-3) labels_prune[OF assms(1,6,5)]]) (auto simp: pruned_target)
  moreover have "map ?K (map (\<lambda>h. rootPosition n (of_nat h) F) (touched n F ts)) =
      map (\<lambda>h. rhash (delete n F (set ts) Fo h)) (touched n F ts)"
    using pruned_root[OF f(1)] touched_bit by auto
  ultimately show ?thesis by (simp only: roots_climbed[OF assms(1)])
qed

lemma Stump_del_eq:
  assumes "targets_ok n F ts" "distinct ts" "F = treeRows n" "forest_ok n Fo" "forest_nonzero n Fo"
    "forest_nonzero n (delete n F (set ts) Fo)" "forest_distinct n Fo"
    "\<forall>t \<in> set ts. subtree_at n F Fo t \<noteq> None" "pf = map (label n F Fo) (needed n F ts)"
  shows "Stump_del (stump_of n Fo) (map (label n F Fo) ts) \<lparr>Targets = ts, proofHashes = pf\<rparr> =
    Inr (stump_of n (delete n F (set ts) Fo),
      map (\<lambda>p. rhash (pruned n F (set ts) Fo p)) (climbL n F ts), climbL n F ts)"
proof -
  let ?D = "delete n F (set ts) Fo" and ?H = "label n F Fo" and ?pr = "\<lparr>Targets = ts, proofHashes = pf\<rparr>"
  have f: "fits n F" "\<forall>t \<in> set ts. node n F t \<and> subtree_at n F Fo t \<noteq> None"
    using assms(1,8) by (auto simp: targets_ok_def)
  note ch = calculateHashes_forest[OF assms(1-3,5,8,9)] and cn = calculateHashes_delete[OF assms(1-4,6,8,9)]
  obtain js where v: "Verify (stump_of n Fo) (map ?H ts) ?pr = Inr js"
    using Verify_complete[OF assms(1-3,5,8,9)] by blast
  have s: "subseq js (rev [0..<length (rows n)])"
    and m: "map ((!) (Roots (stump_of n Fo))) js = map (\<lambda>h. rhash (Fo h)) (touched n F ts)"
    using Verify_iff(2)[of "map ?H ts" ?pr "stump_of n Fo"] ch v by auto
  have lt: "\<forall>i \<in> set js. i < length (rows n)" using subseq_mem[OF s] by auto
  have "map (\<lambda>i. rhash (Fo (rows n ! i))) js = map (\<lambda>h. rhash (Fo h)) (touched n F ts)"
    using m lt by (simp cong: map_cong)
  then have js: "map ((!) (rows n)) js = touched n F ts"
    using touched_nonempty[OF f assms(5)] touched_bit by (intro matched_rows[OF s _ assms(7)]) (auto simp: rows_iff)
  have "setRoots (Roots (stump_of n Fo)) js (map (\<lambda>h. rhash (?D h)) (touched n F ts)) = Roots (stump_of n ?D)"
    using untouched_delete[OF f(1) assms(4)] by (intro setRoots_forest[OF js lt]) auto
  moreover have "length js = length (touched n F ts)" using js[symmetric] by simp
  ultimately show ?thesis using v cn by (simp add: Stump_del_def stump_of_def)
qed

end
