(* ===== verification/StumpAdd.thy ===== *)
theory StumpAdd
  imports StumpDelete
begin

text \<open>
  Addition on the stump of a forest. Adding leaves to the stump gives the stump of the forest
  with the leaves inserted (\<open>Stump_add_eq\<close>), the leaves of that forest are the old ones
  followed by the new ones (\<open>insert_leaves_spec\<close>), and \<open>rootsToDestory\<close> returns the positions
  of the empty roots the new leaves are written over (\<open>rootsToDestory_eq\<close>).
\<close>

unbundle bit_operations_syntax

section \<open>Adding a leaf to a forest\<close>

fun onto :: "utree option \<Rightarrow> utree \<Rightarrow> utree" where
  "onto None t = t"
| "onto (Some l) t = Node l t"

text \<open>The row below which every row has a tree, and the tree that grows there from a new leaf.\<close>

function carry :: "u64 \<Rightarrow> forest \<Rightarrow> nat \<Rightarrow> utree \<Rightarrow> nat \<times> utree" where
  "carry n Fo h t = (if bit n h then carry n Fo (Suc h) (onto (Fo h) t) else (h, t))"
  by pat_completeness auto
termination
  by (relation "measure (\<lambda>(n, Fo, h, t). 64 - h)") (auto dest: bit_imp_le_length)

declare carry.simps [simp del]

definition insert_leaf :: "u64 \<Rightarrow> forest \<Rightarrow> Hash \<Rightarrow> forest" where
  "insert_leaf n Fo x =
     (let (k, t) = carry n Fo 0 (Tip x)
      in (\<lambda>h. if h < k then None else if h = k then Some t else Fo h))"

fun insert_leaves :: "u64 \<Rightarrow> forest \<Rightarrow> Hash list \<Rightarrow> forest" where
  "insert_leaves n Fo [] = Fo"
| "insert_leaves n Fo (x # xs) = insert_leaves (n + 1) (insert_leaf n Fo x) xs"

lemma bit_inc_nat:
  "\<forall>j < k. bit (N::nat) j \<Longrightarrow> \<not> bit N k \<Longrightarrow> bit (N + 1) h \<longleftrightarrow> (k < h \<and> bit N h) \<or> h = k"
proof (induction k arbitrary: N h)
  case 0
  then have "even N" by (simp add: bit_0)
  then show ?case by (cases h) (auto simp: bit_0 bit_Suc)
next
  case (Suc k)
  then have "odd N" by (auto simp: bit_0[symmetric])
  then obtain m where m: "N = 2 * m + 1" by (elim oddE)
  have s: "bit N (Suc j) = bit m j" for j by (simp add: m bit_Suc)
  have "bit (m + 1) j \<longleftrightarrow> (k < j \<and> bit m j) \<or> j = k" for j
    using Suc.prems by (intro Suc.IH) (auto simp: s[symmetric])
  moreover have "N + 1 = 2 * (m + 1)" by (simp add: m)
  ultimately show ?case using s by (cases h) (auto simp: bit_0 bit_Suc)
qed

lemma bit_inc:
  assumes "\<forall>j < k. bit (n::u64) j" "\<not> bit n k" "unat n + 1 < 2 ^ 64"
  shows "bit (n + 1) h \<longleftrightarrow> (k < h \<and> bit n h) \<or> h = k"
proof -
  have "unat (n + 1) = unat n + 1" using assms(3) by (simp add: unat_word_ariths)
  then show ?thesis using bit_inc_nat[of k "unat n" h] assms(1,2) by (simp add: bit_unat_iff[symmetric])
qed

lemma carry_spec:
  assumes "carry n Fo h t = (k, u)"
  shows "h \<le> k" "\<forall>j. h \<le> j \<and> j < k \<longrightarrow> bit n j" "\<not> bit n k"
    "leaves u = concat (map (\<lambda>j. case Fo j of None \<Rightarrow> [] | Some v \<Rightarrow> leaves v) (rev [h..<k])) @ leaves t"
    "nonzero u \<Longrightarrow> nonzero t \<and> (\<forall>j. h \<le> j \<and> j < k \<longrightarrow> nonzeroO (Fo j))"
    "(\<forall>j v. bit n j \<longrightarrow> Fo j = Some v \<longrightarrow> height v \<le> j) \<Longrightarrow> height t \<le> h \<Longrightarrow> height u \<le> k"
proof -
  have "h \<le> k \<and> (\<forall>j. h \<le> j \<and> j < k \<longrightarrow> bit n j) \<and> \<not> bit n k \<and>
    leaves u = concat (map (\<lambda>j. case Fo j of None \<Rightarrow> [] | Some v \<Rightarrow> leaves v) (rev [h..<k])) @ leaves t \<and>
    (nonzero u \<longrightarrow> nonzero t \<and> (\<forall>j. h \<le> j \<and> j < k \<longrightarrow> nonzeroO (Fo j))) \<and>
    ((\<forall>j v. bit n j \<longrightarrow> Fo j = Some v \<longrightarrow> height v \<le> j) \<longrightarrow> height t \<le> h \<longrightarrow> height u \<le> k)"
    using assms
  proof (induction n Fo h t rule: carry.induct)
    case (1 n Fo h t)
    show ?case
    proof (cases "bit n h")
      case False then show ?thesis using 1(2) by (subst (asm) carry.simps) auto
    next
      case True
      note IH = 1(1)[OF True] 
      have e: "carry n Fo (Suc h) (onto (Fo h) t) = (k, u)" using 1(2) True by (subst (asm) carry.simps) simp
      have h: "Suc h \<le> k" using IH[OF e] by simp
      then have r: "rev [h..<k] = rev [Suc h..<k] @ [h]" by (simp add: upt_conv_Cons)
      have l: "leaves (onto (Fo h) t) = (case Fo h of None \<Rightarrow> [] | Some v \<Rightarrow> leaves v) @ leaves t"
        and z: "nonzero (onto (Fo h) t) \<Longrightarrow> nonzero t \<and> nonzeroO (Fo h)"
        and g: "(\<forall>v. Fo h = Some v \<longrightarrow> height v \<le> h) \<Longrightarrow> height t \<le> h \<Longrightarrow> height (onto (Fo h) t) \<le> Suc h"
        by (cases "Fo h"; simp add: nonzeroO_def)+
      have j: "h \<le> j \<and> j < k \<longleftrightarrow> j = h \<or> (Suc h \<le> j \<and> j < k)" for j using h by auto
      show ?thesis using IH[OF e] True r l z g h unfolding j by auto
    qed
  qed
  then show "h \<le> k" "\<forall>j. h \<le> j \<and> j < k \<longrightarrow> bit n j" "\<not> bit n k"
    "leaves u = concat (map (\<lambda>j. case Fo j of None \<Rightarrow> [] | Some v \<Rightarrow> leaves v) (rev [h..<k])) @ leaves t"
    "nonzero u \<Longrightarrow> nonzero t \<and> (\<forall>j. h \<le> j \<and> j < k \<longrightarrow> nonzeroO (Fo j))"
    "(\<forall>j v. bit n j \<longrightarrow> Fo j = Some v \<longrightarrow> height v \<le> j) \<Longrightarrow> height t \<le> h \<Longrightarrow> height u \<le> k"
    by blast+
qed

lemma rows_from:
  assumes "\<forall>j < h. bit n j" "h \<le> 64" shows "rows n = filter (\<lambda>r. h \<le> r) (rows n) @ rev [0..<h]"
proof -
  have "filter (bit n) [0..<64] = filter (bit n) ([0..<h] @ [h..<64])" using upt_add_eq_append[of 0 h "64 - h"] assms(2) by simp
  also have "\<dots> = [0..<h] @ filter (\<lambda>r. h \<le> r) (filter (bit n) [0..<64])"
  proof -
    have "filter (bit n) [0..<h] = [0..<h]" using assms(1) by simp
    moreover have "filter (\<lambda>r. h \<le> r) (filter (bit n) [0..<64]) = filter (bit n) [h..<64]"
      using upt_add_eq_append[of 0 h "64 - h"] assms(2) by (auto simp: filter_empty_conv intro!: filter_cong)
    ultimately show ?thesis by simp
  qed
  finally show ?thesis by (simp add: rows_def rev_filter)
qed

lemma carry_row_lt:
  assumes "\<forall>j < k. bit (n::u64) j" "unat n + 1 < 2 ^ 64" shows "k < 64"
proof (rule ccontr)
  assume "\<not> k < 64"
  then have "n = - 1" using assms(1) by (intro bit_eqI) simp
  then show False using assms(2) by (simp add: unsigned_minus_1_eq_mask mask_eq_exp_minus_1)
qed

lemma rows_inc:
  assumes "\<forall>j < k. bit n j" "\<not> bit n k" "unat n + 1 < 2 ^ 64"
  shows "rows (n + 1) = filter (\<lambda>r. k \<le> r) (rows n) @ [k]"
proof -
  have "filter (bit (n + 1)) [0..<64] = k # filter (\<lambda>r. k \<le> r) (filter (bit n) [0..<64])"
  proof (rule strict_sorted_equal)
    have "k < r" if "k \<le> r" "bit n r" for r using that assms(2) by (cases "k = r") auto
    then show "sorted_wrt (<) (k # filter (\<lambda>r. k \<le> r) (filter (bit n) [0..<64]))"
      using sorted_wrt_filter[OF sorted_rows, of "\<lambda>r. k \<le> r" n] by auto
    show "set (filter (bit (n + 1)) [0..<64]) = set (k # filter (\<lambda>r. k \<le> r) (filter (bit n) [0..<64]))"
      using bit_inc[OF assms] carry_row_lt[OF assms(1,3)] assms(2) by (auto simp: le_less)
  qed (intro sorted_wrt_filter; simp)
  then show ?thesis by (simp add: rows_def rev_filter)
qed

section \<open>Stump.add adds to the forest\<close>

lemma carry_bit: "drop_bit h (n::u64) AND 1 = 1 \<longleftrightarrow> bit n h"
  by (simp add: bit_iff_odd_drop_bit and_one_eq mod_2_eq_odd)

lemma rows_tail:
  assumes "bit n h"
  shows "filter (\<lambda>r. h \<le> r) (rows n) = filter (\<lambda>r. Suc h \<le> r) (rows n) @ [h]"
proof -
  have "h < 64" using bit_imp_le_length[OF assms] by simp
  have "filter (\<lambda>r. h \<le> r) (filter (bit n) [0..<64]) = h # filter (\<lambda>r. Suc h \<le> r) (filter (bit n) [0..<64])"
    by (rule strict_sorted_equal)
      (use \<open>h < 64\<close> assms in \<open>auto intro!: sorted_wrt_filter simp: Suc_le_eq le_less\<close>)
  then show ?thesis unfolding rows_def rev_filter[symmetric] by (simp only: rev.simps)
qed

lemma addRoots_eq:
  assumes "forest_nonzero n Fo" "h \<le> 64"
  shows "\<exists>pos' sb'. addRoots n afterRows (of_nat h) (map (\<lambda>r. rhash (Fo r)) (filter (\<lambda>r. h \<le> r) (rows n))) pos (thash t) (of_pairs sb) =
    Inr (map (\<lambda>r. rhash (Fo r)) (filter (\<lambda>r. fst (carry n Fo h t) \<le> r) (rows n)), pos', thash (snd (carry n Fo h t)), of_pairs sb')"
  using assms(2)
proof (induction "64 - h" arbitrary: h t pos sb rule: less_induct)
  case less
  have u: "unat (of_nat h :: u8) = h" using less.prems by (simp add: unat_of_nat)
  show ?case
  proof (cases "bit n h")
    case False
    then show ?thesis using u by (subst addRoots.simps, subst (1 2) carry.simps) (auto simp: carry_bit)
  next
    case True
    then have h: "h < 64" using bit_imp_le_length[OF True] by simp
    have s: "(of_nat h :: u8) + 1 = of_nat (Suc h)" by simp
    note rt = rows_tail[OF True]
    have IH: "\<exists>pos' sb'. addRoots n afterRows (of_nat (Suc h)) (map (\<lambda>r. rhash (Fo r)) (filter (\<lambda>r. Suc h \<le> r) (rows n))) pos
        (thash (onto (Fo h) t)) (of_pairs sb) =
      Inr (map (\<lambda>r. rhash (Fo r)) (filter (\<lambda>r. fst (carry n Fo h t) \<le> r) (rows n)), pos', thash (snd (carry n Fo h t)), of_pairs sb')" for pos sb
      using less.hyps[of "Suc h" pos "onto (Fo h) t" sb] h True by (simp add: carry.simps[of n Fo h t])
    have nz: "Fo h \<noteq> None \<longleftrightarrow> rhash (Fo h) \<noteq> empty"
      using forest_nonzeroD[OF assms(1) True] nonzero_thash by (cases "Fo h") (auto simp: nonzeroO_def)
    show ?thesis
    proof (cases "Fo h")
      case None
      then show ?thesis using IH[of pos sb] True u nz rt
        by (subst addRoots.simps) (simp add: carry_bit s Let_def)
    next
      case (Some v)
      then show ?thesis using IH[of "parent pos afterRows" "sb @ [(leftSib pos, thash v), (pos, thash t)]"] True u nz rt
        by (subst addRoots.simps) (simp add: carry_bit s Let_def)
    qed
  qed
qed

lemma carry_row_exists: obtains k where "\<forall>j < k. bit (n::u64) j" "\<not> bit n k"
proof -
  have "\<not> bit n 64" using bit_imp_le_length[of n 64] by auto
  then obtain k where "\<not> bit n k" "\<forall>j < k. bit n j" using exists_least_iff[of "\<lambda>k. \<not> bit n k"] by blast
  then show ?thesis using that by blast
qed

lemma rootsToDestory_inner_eq:
  assumes "\<not> bit n k" "k \<le> 64" "h \<le> k" "\<forall>j. h \<le> j \<and> j < k \<longrightarrow> bit n j"
  shows "rootsToDestory_inner n rem (of_nat h) (map g (filter (\<lambda>r. h \<le> r) (rows n))) del =
    Inr (map g (filter (\<lambda>r. k \<le> r) (rows n)),
      del @ map (\<lambda>j. rootPosition n (of_nat j) (treeRows (n + rem))) (filter (\<lambda>j. g j = empty) [h..<k]))"
  using assms(3,4)
proof (induction "k - h" arbitrary: h del)
  case 0
  have "unat (of_nat k :: u8) = k" using assms(2) by (simp add: unat_of_nat)
  moreover have "h = k" using 0 by simp
  ultimately show ?case using assms(1) by (subst rootsToDestory_inner.simps) (simp add: carry_bit)
next
  case (Suc d)
  have hk: "h < k" using Suc.hyps(2) by simp
  have b: "bit n h" using Suc.prems hk by simp
  have u: "unat (of_nat h :: u8) = h" using hk assms(2) by (simp add: unat_of_nat)
  have s: "(of_nat h :: u8) + 1 = of_nat (Suc h)" by simp
  have IH: "rootsToDestory_inner n rem (of_nat (Suc h)) (map g (filter (\<lambda>r. Suc h \<le> r) (rows n))) del =
    Inr (map g (filter (\<lambda>r. k \<le> r) (rows n)),
      del @ map (\<lambda>j. rootPosition n (of_nat j) (treeRows (n + rem))) (filter (\<lambda>j. g j = empty) [Suc h..<k]))" for del
    using Suc.hyps(1)[of "Suc h" del] Suc.hyps(2) Suc.prems hk by simp
  show ?case using IH b u hk
    by (subst rootsToDestory_inner.simps) (simp add: carry_bit s rows_tail[OF b] upt_conv_Cons)
qed

text \<open>The rows whose root is empty and is written over when \<open>m\<close> leaves are added.\<close>

definition destroyed :: "u64 \<Rightarrow> nat \<Rightarrow> (nat \<Rightarrow> Hash) \<Rightarrow> nat list" where
  "destroyed n m g = filter (\<lambda>h. bit n h \<and> g h = empty \<and>
     (unat n div 2 ^ Suc h + 1) * 2 ^ Suc h \<le> unat n + m) [0..<64]"

lemma div_inc_low:
  assumes "\<forall>j < k. bit (N::nat) j" "h < k" shows "(N div 2 ^ Suc h + 1) * 2 ^ Suc h = N + 1"
proof -
  have "N mod 2 ^ Suc h = mask (Suc h)"
  proof (rule bit_eqI)
    show "bit (N mod 2 ^ Suc h) j = bit (mask (Suc h) :: nat) j" for j
      unfolding take_bit_eq_mod[symmetric] using assms by (auto simp: bit_take_bit_iff bit_mask_iff)
  qed
  moreover have "N = N div 2 ^ Suc h * 2 ^ Suc h + N mod 2 ^ Suc h" by (simp only: div_mult_mod_eq)
  moreover have "mask (Suc h) + 1 = (2::nat) ^ Suc h" by (simp add: mask_eq_exp_minus_1)
  ultimately have "N + 1 = N div 2 ^ Suc h * 2 ^ Suc h + 2 ^ Suc h" by linarith
  then show ?thesis by (simp only: add_mult_distrib mult_1)
qed

lemma div_inc_high:
  assumes "\<not> bit (N::nat) k" "k < h" shows "(N + 1) div 2 ^ h = N div 2 ^ h"
proof -
  have "N mod 2 ^ h \<noteq> 2 ^ h - 1"
  proof
    assume "N mod 2 ^ h = 2 ^ h - 1"
    then have "bit (N mod 2 ^ h) k" using assms(2) unfolding mask_eq_exp_minus_1[symmetric] by (simp add: bit_mask_iff)
    then show False using assms unfolding take_bit_eq_mod[symmetric] by (simp add: bit_take_bit_iff)
  qed
  moreover have "N mod 2 ^ h < 2 ^ h" by simp
  ultimately have "(N mod 2 ^ h + 1) div 2 ^ h = 0" by (intro div_less) linarith
  moreover have "N + 1 = N div 2 ^ h * 2 ^ h + (N mod 2 ^ h + 1)" by (simp only: div_mult_mod_eq flip: add.assoc)
  moreover have "(2::nat) ^ h \<noteq> 0" by simp
  ultimately show ?thesis using div_mult_self3[of "2 ^ h" "N div 2 ^ h" "N mod 2 ^ h + 1"] by presburger
qed

lemma destroyed_step:
  assumes "\<forall>j < k. bit n j" "\<not> bit n k" "unat n + 1 < 2 ^ 64" "x \<noteq> empty"
  shows "destroyed n (Suc m) g = filter (\<lambda>j. g j = empty) [0..<k] @ destroyed (n + 1) m (g(k := x))"
proof -
  have k: "k < 64" using carry_row_lt[OF assms(1,3)] .
  have u: "unat (n + 1) = unat n + 1" using assms(3) by (simp add: unat_word_ariths)
  have low: "(unat n div 2 ^ Suc h + 1) * 2 ^ Suc h = unat n + 1" if "h < k" for h
    using div_inc_low[of k "unat n" h] assms(1) that by (simp add: bit_unat_iff)
  have high: "(unat n + 1) div 2 ^ Suc h = unat n div 2 ^ Suc h" if "k \<le> h" for h
    using div_inc_high[of "unat n" k "Suc h"] assms(2) that by (simp add: bit_unat_iff)
  have e: "[0..<64] = [0..<k] @ [k..<64]" using upt_add_eq_append[of 0 k "64 - k"] k by simp
  have "filter (\<lambda>h. bit n h \<and> g h = empty \<and> (unat n div 2 ^ Suc h + 1) * 2 ^ Suc h \<le> unat n + Suc m) [0..<k]
      = filter (\<lambda>j. g j = empty) [0..<k]"
    using assms(1) low by (intro filter_cong) auto
  moreover have "filter (\<lambda>h. bit (n + 1) h \<and> (g(k := x)) h = empty \<and>
      (unat (n + 1) div 2 ^ Suc h + 1) * 2 ^ Suc h \<le> unat (n + 1) + m) [0..<k] = []"
    using bit_inc[OF assms(1-3)] by (auto simp: filter_empty_conv)
  moreover have "filter (\<lambda>h. bit n h \<and> g h = empty \<and> (unat n div 2 ^ Suc h + 1) * 2 ^ Suc h \<le> unat n + Suc m) [k..<64]
     = filter (\<lambda>h. bit (n + 1) h \<and> (g(k := x)) h = empty \<and>
      (unat (n + 1) div 2 ^ Suc h + 1) * 2 ^ Suc h \<le> unat (n + 1) + m) [k..<64]"
    using bit_inc[OF assms(1-3)] assms(2,4) high unfolding u by (intro filter_cong) (auto simp del: power_Suc)
  ultimately show ?thesis unfolding destroyed_def e filter_append by simp
qed

lemma less_next_multiple: "0 < b \<Longrightarrow> (N::nat) < (N div b + 1) * b"
  using dividend_less_div_times[of b N] by (simp add: add.commute)

lemma rootsToDestory_outer_eq:
  assumes "unat n + m \<le> 2 ^ unat F" "unat F \<le> 63" "F = treeRows (n + of_nat m)"
  shows "rootsToDestory_outer m n (map g (rows n)) del =
    Inr (del @ map (\<lambda>h. rootPosition n (of_nat h) F) (destroyed n m g))"
  using assms
proof (induction m arbitrary: n g del)
  case 0
  have "destroyed n 0 g = []"
  proof -
    have "unat n < (unat n div 2 ^ Suc h + 1) * 2 ^ Suc h" for h
      by (rule less_next_multiple) simp
    then show ?thesis by (auto simp: destroyed_def filter_empty_conv not_le simp del: power_Suc)
  qed
  then show ?case by simp
next
  case (Suc m)
  obtain k where k: "\<forall>j < k. bit n j" "\<not> bit n k" by (rule carry_row_exists)
  have "(2::nat) ^ unat F \<le> 2 ^ 63" using Suc.prems(2) by (intro power_increasing) auto
  then have lt: "unat n + 1 < 2 ^ 64" using Suc.prems(1) by simp
  have u: "unat (n + 1) = unat n + 1" using lt by (simp add: unat_word_ariths)
  have k64: "k < 64" using carry_row_lt[OF k(1) lt] .
  let ?x = "push_bit 248 1 :: Hash" let ?g = "g(k := ?x)"
  have x: "?x \<noteq> empty" by (simp add: empty_def push_bit_eq_mult)
  have rows': "map g (filter (\<lambda>r. k \<le> r) (rows n)) @ [?x] = map ?g (rows (n + 1))"
    using k(2) rows_iff by (simp add: rows_inc[OF k lt]) 
  have inner: "rootsToDestory_inner n (of_nat (Suc m)) 0 (map g (rows n)) del =
    Inr (map g (filter (\<lambda>r. k \<le> r) (rows n)),
      del @ map (\<lambda>j. rootPosition n (of_nat j) F) (filter (\<lambda>j. g j = empty) [0..<k]))"
    using rootsToDestory_inner_eq[OF k(2), of 0 "of_nat (Suc m)" g del] k(1) k64 Suc.prems(3) by simp
  have pos: "rootPosition (n + 1) (of_nat h) F = rootPosition n (of_nat h) F" if "h \<in> set (destroyed (n + 1) m ?g)" for h
  proof -
    have h: "bit (n + 1) h" "h \<noteq> k" using that x by (auto simp: destroyed_def)
    then have kh: "k < h" using bit_inc[OF k lt] by simp
    have le: "unat (n + 1) \<le> 2 ^ unat F" "unat n \<le> 2 ^ unat F" using Suc.prems(1) u by auto
    have hF: "h \<le> unat F" using rootOffset_valid(1)[OF h(1) le(1)] .
    have "(unat n + 1) div 2 ^ Suc h = unat n div 2 ^ Suc h"
      using div_inc_high[of "unat n" k "Suc h"] k(2) kh by (simp add: bit_unat_iff)
    then show ?thesis
      by (simp only: rootPosition_posn[OF hF Suc.prems(2) le(1)] rootPosition_posn[OF hF Suc.prems(2) le(2)] u)
  qed
  have IH: "rootsToDestory_outer m (n + 1) (map ?g (rows (n + 1))) del' =
    Inr (del' @ map (\<lambda>h. rootPosition (n + 1) (of_nat h) F) (destroyed (n + 1) m ?g))" for del'
    using Suc.prems u by (intro Suc.IH) (auto simp: add_ac)
  show ?case using inner IH pos destroyed_step[OF k lt x, of m g] rows' by simp
qed

lemma insert_leaf_roots:
  assumes "unat n + 1 < 2 ^ 64" "carry n Fo 0 (Tip x) = (k, t)"
  shows "Roots (stump_of (n + 1) (insert_leaf n Fo x)) =
    map (\<lambda>r. rhash (Fo r)) (filter (\<lambda>r. k \<le> r) (rows n)) @ [thash t]"
proof -
  note c = carry_spec[OF assms(2)]
  have "k \<notin> set (rows n)" using c(3) by (simp add: rows_iff)
  then show ?thesis using rows_inc[OF _ c(3) assms(1)] c(2) assms(2) by (simp add: insert_leaf_def)
qed

lemma insert_leaf_nonzero:
  assumes "unat n + 1 < 2 ^ 64" "forest_nonzero (n + 1) (insert_leaf n Fo x)"
  shows "forest_nonzero n Fo"
proof -
  obtain k t where e: "carry n Fo 0 (Tip x) = (k, t)" by (cases "carry n Fo 0 (Tip x)")
  note c = carry_spec[OF e] and b = bit_inc[OF _ carry_spec(3)[OF e] assms(1)]
  have "nonzeroO (Fo h)" if h: "bit n h" for h
  proof (cases "h < k")
    case True
    have "nonzeroO (insert_leaf n Fo x k)" using forest_nonzeroD[OF assms(2), of k] b[of k] c(2) by simp
    then have "nonzero t" using e by (simp add: insert_leaf_def nonzeroO_def)
    then show ?thesis using c(5) True by simp
  next
    case False
    then have "k < h" using h c(3) by (metis linorder_neqE_nat)
    then show ?thesis using forest_nonzeroD[OF assms(2), of h] b[of h] c(2) e h by (simp add: insert_leaf_def)
  qed
  then show ?thesis by (simp add: forest_nonzero_def list_all_iff rows_iff)
qed

lemma insert_leaf_leaves:
  assumes "unat n + 1 < 2 ^ 64"
  shows "forest_leaves (n + 1) (insert_leaf n Fo x) = forest_leaves n Fo @ [x]"
proof -
  obtain k t where e: "carry n Fo 0 (Tip x) = (k, t)" by (cases "carry n Fo 0 (Tip x)")
  note c = carry_spec[OF e]
  let ?l = "\<lambda>h. case Fo h of None \<Rightarrow> [] | Some v \<Rightarrow> leaves v"
  let ?l' = "\<lambda>h. case insert_leaf n Fo x h of None \<Rightarrow> [] | Some v \<Rightarrow> leaves v"
  have k: "k \<le> 64" using carry_row_lt[of k n] c(2) assms by simp
  have gt: "k < r" if "r \<in> set (rows n)" "k \<le> r" for r using that c(3) rows_iff by (metis le_neq_implies_less)
  then have m: "map ?l' (filter (\<lambda>r. k \<le> r) (rows n)) = map ?l (filter (\<lambda>r. k \<le> r) (rows n))"
    using e by (auto simp: insert_leaf_def)
  have l: "?l' k = leaves t" using e by (simp add: insert_leaf_def)
  have r: "rows (n + 1) = filter (\<lambda>r. k \<le> r) (rows n) @ [k]" using rows_inc[OF _ c(3) assms] c(2) by simp
  have "forest_leaves (n + 1) (insert_leaf n Fo x) =
      concat (map ?l (filter (\<lambda>r. k \<le> r) (rows n))) @ leaves t"
    unfolding forest_leaves_def r map_append concat_append m by (simp add: l)
  also have "\<dots> = concat (map ?l (filter (\<lambda>r. k \<le> r) (rows n) @ rev [0..<k])) @ [x]" using c(4) by simp
  also have "\<dots> = forest_leaves n Fo @ [x]" using rows_from[of k n] c(2) k by (simp add: forest_leaves_def)
  finally show ?thesis .
qed

lemma insert_leaf_ok:
  assumes "unat n + 1 < 2 ^ 64" "forest_ok n Fo" shows "forest_ok (n + 1) (insert_leaf n Fo x)"
proof -
  obtain k t where e: "carry n Fo 0 (Tip x) = (k, t)" by (cases "carry n Fo 0 (Tip x)")
  note c = carry_spec[OF e] and b = bit_inc[OF _ carry_spec(3)[OF e] assms(1)]
  have "height t \<le> k" using c(6) forest_okD[OF assms(2)] by simp
  then show ?thesis using b c(2) forest_okD[OF assms(2)] e
    by (auto simp: forest_ok_def list_all_iff rows_iff insert_leaf_def split: option.splits)
qed

lemma insert_leaves_spec:
  assumes "unat n + length xs < 2 ^ 64" "forest_ok n Fo"
  shows "forest_leaves (n + of_nat (length xs)) (insert_leaves n Fo xs) = forest_leaves n Fo @ xs"
    "forest_ok (n + of_nat (length xs)) (insert_leaves n Fo xs)"
proof -
  have "forest_leaves (n + of_nat (length xs)) (insert_leaves n Fo xs) = forest_leaves n Fo @ xs \<and>
    forest_ok (n + of_nat (length xs)) (insert_leaves n Fo xs)"
    using assms
  proof (induction xs arbitrary: n Fo)
    case (Cons x xs)
    have lt: "unat n + 1 < 2 ^ 64" using Cons.prems by simp
    then have "unat (n + 1) = unat n + 1" by (simp add: unat_word_ariths)
    then show ?case
      using Cons.IH[of "n + 1" "insert_leaf n Fo x"] insert_leaf_ok[OF lt Cons.prems(2)]
        insert_leaf_leaves[OF lt] Cons.prems by (simp add: add_ac)
  qed simp
  then show "forest_leaves (n + of_nat (length xs)) (insert_leaves n Fo xs) = forest_leaves n Fo @ xs"
    "forest_ok (n + of_nat (length xs)) (insert_leaves n Fo xs)" by auto
qed

lemma insert_leaves_nonzero:
  "unat n + length xs < 2 ^ 64 \<Longrightarrow> forest_nonzero (n + of_nat (length xs)) (insert_leaves n Fo xs) \<Longrightarrow> forest_nonzero n Fo"
proof (induction xs arbitrary: n Fo)
  case (Cons x xs)
  have lt: "unat n + 1 < 2 ^ 64" using Cons.prems by simp
  then have "unat (n + 1) = unat n + 1" by (simp add: unat_word_ariths)
  then show ?case using Cons.IH[of "n + 1" "insert_leaf n Fo x"] Cons.prems insert_leaf_nonzero[OF lt]
    by (simp add: add_ac)
qed simp

lemma capacity:
  assumes "unat n + m \<le> 2 ^ 63"
  shows "unat (of_nat m :: u64) = m" "unat (n + of_nat m) = unat n + m"
    "unat n + m \<le> 2 ^ unat (treeRows (n + of_nat m))" "unat (treeRows (n + of_nat m)) \<le> 63"
proof -
  show m: "unat (of_nat m :: u64) = m" using assms by (simp add: unat_of_nat)
  then show u: "unat (n + of_nat m) = unat n + m" using assms by (simp add: unat_word_ariths)
  show "unat n + m \<le> 2 ^ unat (treeRows (n + of_nat m))" using le_treeRows[of "n + of_nat m"] u by simp
  show "unat (treeRows (n + of_nat m)) \<le> 63" using treeRows_least[of "n + of_nat m" 63] u assms by simp
qed

lemma rootsToDestory_eq:
  assumes "unat n + m \<le> 2 ^ 63"
  shows "rootsToDestory (of_nat m) n (map g (rows n)) =
    Inr (map (\<lambda>h. rootPosition n (of_nat h) (treeRows (n + of_nat m))) (destroyed n m g))"
  using rootsToDestory_outer_eq[OF capacity(3,4)[OF assms] refl, of g "[]"] capacity(1)[OF assms]
  by (simp add: rootsToDestory_def)

lemma addLeaves_eq:
  assumes "unat n + length xs \<le> 2 ^ 63" "forest_nonzero (n + of_nat (length xs)) (insert_leaves n Fo xs)"
  shows "\<exists>subs. addLeaves afterRows xs (stump_of n Fo) (map of_pairs acc) =
    Inr (stump_of (n + of_nat (length xs)) (insert_leaves n Fo xs), map of_pairs subs)"
  using assms
proof (induction xs arbitrary: n Fo acc)
  case (Cons x xs)
  let ?n = "n + 1" and ?Fo = "insert_leaf n Fo x"
  have lt: "unat n + 1 < 2 ^ 64" using Cons.prems by simp
  then have u: "unat (n + 1) = unat n + 1" by (simp add: unat_word_ariths)
  have nz: "forest_nonzero n Fo" using insert_leaves_nonzero[of n "x # xs" Fo] Cons.prems by simp
  obtain k t where e: "carry n Fo 0 (Tip x) = (k, t)" by (cases "carry n Fo 0 (Tip x)")
  obtain ds where d: "rootsToDestory (of_nat (length (x # xs))) n (map (\<lambda>h. rhash (Fo h)) (rows n)) = Inr ds"
    using rootsToDestory_eq[OF Cons.prems(1)] by blast
  obtain pos sb where a: "addRoots n afterRows 0 (map (\<lambda>r. rhash (Fo r)) (rows n)) (movePast afterRows ds n) x hnp_empty =
      Inr (map (\<lambda>r. rhash (Fo r)) (filter (\<lambda>r. k \<le> r) (rows n)), pos, thash t, of_pairs sb)"
    using addRoots_eq[OF nz, of 0 afterRows "movePast afterRows ds n" "Tip x" "[]"] e by auto
  have st: "\<lparr>Roots = map (\<lambda>r. rhash (Fo r)) (filter (\<lambda>r. k \<le> r) (rows n)) @ [thash t], NumLeaves = n + 1\<rparr> = stump_of ?n ?Fo"
    using insert_leaf_roots[OF lt e] by (simp add: stump_of_def)
  have IH: "\<exists>subs. addLeaves afterRows xs (stump_of ?n ?Fo) (map of_pairs (acc @ [sb @ [(pos, thash t)]])) =
    Inr (stump_of (?n + of_nat (length xs)) (insert_leaves ?n ?Fo xs), map of_pairs subs)"
    using Cons.prems u by (intro Cons.IH) (auto simp: add_ac)
  show ?case using IH d a st by (auto simp: add_ac)
qed auto

lemma mergeSubTrees_pairs: "\<exists>c. mergeSubTrees (map of_pairs subs) (of_pairs u) = Inr (of_pairs c)"
proof (induction subs arbitrary: u rule: induct_list012)
  case (3 x y zs)
  then show ?case by (auto simp: getHashAndPosHashSubset_pairs mergeSortedHashAndPos_pairs)
qed (auto simp: mergeSortedHashAndPos_pairs)

lemma Stump_add_eq:
  assumes "unat n + length xs \<le> 2 ^ 63" "forest_nonzero (n + of_nat (length xs)) (insert_leaves n Fo xs)"
  shows "\<exists>hs ps. Stump_add (stump_of n Fo) xs =
    Inr (stump_of (n + of_nat (length xs)) (insert_leaves n Fo xs), hs, ps,
      map (\<lambda>h. rootPosition n (of_nat h) (treeRows (n + of_nat (length xs)))) (destroyed n (length xs) (\<lambda>h. rhash (Fo h))))"
proof -
  let ?R = "treeRows (n + of_nat (length xs))"
  obtain subs where s: "addLeaves ?R xs (stump_of n Fo) [] =
    Inr (stump_of (n + of_nat (length xs)) (insert_leaves n Fo xs), map of_pairs subs)"
    using addLeaves_eq[OF assms, of ?R "[]"] by auto
  obtain c where "mergeSubTrees (map of_pairs subs) hnp_empty = Inr (of_pairs c)"
    using mergeSubTrees_pairs[of subs "[]"] by auto
  then show ?thesis using s rootsToDestory_eq[OF assms(1)] by (simp add: Stump_add_def Let_def)
qed

end
