(* ===== verification/ProofRun.thy ===== *)
theory ProofRun
  imports StumpAdd
begin

text \<open>
  Every run of \<open>calculateHashes\<close> on targets of the forest, whatever the hashes it is given. With
  at least as many proof hashes as the targets need it returns, and the hashes it returns are the
  ones computed from the given hashes row by row (\<open>computed\<close>, \<open>calculateHashes_run\<close>); with
  fewer it panics (\<open>calculateHashes_short\<close>).
\<close>

unbundle bit_operations_syntax

section \<open>The hashes a proof stands for\<close>

lemma distinct_needed: "distinct (needed n F ts)"
proof -
  have "inj sibling" by (metis injI sibling_sibling)
  then show ?thesis unfolding needed_def needs_def
    by (simp add: distinct_map climbL_def inj_on_subset[of sibling UNIV])
qed

lemma needed_disjoint: "p \<in> set (needed n F ts) \<Longrightarrow> p \<notin> climbs n F (set ts)"
  by (auto simp: needed_def needs_def)

text \<open>
  The hash at a position when the targets have the hashes \<open>dels\<close> and the needed positions the
  hashes \<open>pf\<close>: given at those positions, computed from the two children above them.
\<close>

primrec computed_row :: "u64 \<Rightarrow> u8 \<Rightarrow> u64 list \<Rightarrow> Hash list \<Rightarrow> Hash list \<Rightarrow> nat \<Rightarrow> u64 \<Rightarrow> Hash" where
  "computed_row n F ts dels pf 0 p =
     (case map_of (zip (ts @ needed n F ts) (dels @ pf)) p of None \<Rightarrow> empty | Some x \<Rightarrow> x)"
| "computed_row n F ts dels pf (Suc r) p =
     (case map_of (zip (ts @ needed n F ts) (dels @ pf)) p of
        None \<Rightarrow> getNextHash (leftChild p F) (computed_row n F ts dels pf r (leftChild p F))
                  (computed_row n F ts dels pf r (rightChild p F))
      | Some x \<Rightarrow> x)"

definition computed :: "u64 \<Rightarrow> u8 \<Rightarrow> u64 list \<Rightarrow> Hash list \<Rightarrow> Hash list \<Rightarrow> u64 \<Rightarrow> Hash" where
  "computed n F ts dels pf p = computed_row n F ts dels pf (unat (detectRow p F)) p"

lemma computed_given:
  assumes "map_of (zip (ts @ needed n F ts) (dels @ pf)) p = Some x" shows "computed n F ts dels pf p = x"
  using assms by (cases "unat (detectRow p F)") (auto simp: computed_def)

lemma computed_lists:
  assumes "targets_ok n F ts" "distinct ts" "length dels = length ts" "length pf = length (needed n F ts)"
  shows "map (computed n F ts dels pf) ts = dels" "map (computed n F ts dels pf) (needed n F ts) = pf"
proof -
  let ?xs = "ts @ needed n F ts"
  have d: "distinct ?xs" using assms(2) distinct_needed needed_disjoint climbs.target by fastforce
  have "map (computed n F ts dels pf) ?xs = dels @ pf"
  proof (rule nth_equalityI)
    show l: "length (map (computed n F ts dels pf) ?xs) = length (dels @ pf)" using assms by simp
    fix i assume "i < length (map (computed n F ts dels pf) ?xs)"
    then have i: "i < length ?xs" by simp
    have "map_of (zip ?xs (dels @ pf)) (?xs ! i) = Some ((dels @ pf) ! i)"
      using map_of_zip_nth[of ?xs "dels @ pf" i] d i assms(3,4) by simp
    then show "map (computed n F ts dels pf) ?xs ! i = (dels @ pf) ! i"
      using computed_given unfolding nth_map[OF i] by blast
  qed
  then show "map (computed n F ts dels pf) ts = dels" "map (computed n F ts dels pf) (needed n F ts) = pf"
    using assms(3) by auto
qed

lemma getNextHash_swap:
  "isLeftNiece p \<Longrightarrow> \<not> isLeftNiece q \<Longrightarrow> getNextHash p a b = getNextHash q b a"
  by (auto simp: getNextHash_def)

lemma labels_computed:
  assumes "targets_ok n F ts"
  shows "labels n F (climbs n F (set ts)) (computed n F ts dels pf)"
  unfolding labels_def
proof (intro ballI impI)
  let ?K = "computed n F ts dels pf"
  fix c assume c: "c \<in> climbs n F (set ts)" "\<not> root n F c"
  have f: "fits n F" "\<forall>t \<in> set ts. node n F t" using assms by (auto simp: targets_ok_def)
  have nd: "node n F c" using climbs_node[OF f c(1)] .
  obtain h r k where a: "place n F c h r k" "r < h" using inner[OF f(1) nd c(2)] .
  note s = sibling_node[OF f(1) nd c(2)] and ch = children_of_parent[OF f(1) nd c(2)]
  have r63: "r < 63" using place_63[OF f(1) a(1)] a(2) by simp
  have rc: "unat (detectRow c F) = r" "unat (detectRow (sibling c) F) = r" "unat (detectRow (parent c F) F) = Suc r"
    using place_row(5)[OF f(1) a(1)] place_row(5)[OF f(1) node_sibling[OF f(1) a]]
      place_row(5)[OF f(1) node_parent[OF f(1) a]] r63 by (simp_all del: of_nat_Suc)
  have "parent c F \<notin> set (ts @ needed n F ts)"
    using target_not_parent[OF assms c] needed_disjoint[of "parent c F" n F ts] climbs.up[OF c] by auto
  then have "map_of (zip (ts @ needed n F ts) (dels @ pf)) (parent c F) = None"
    by (auto simp: map_of_eq_None_iff dest: set_zip_leftD)
  then have "?K (parent c F) = getNextHash (leftChild (parent c F) F) (?K (leftChild (parent c F) F)) (?K (rightChild (parent c F) F))"
    using rc by (simp add: computed_def ch)
  then show "?K (parent c F) = getNextHash c (?K c) (?K (sibling c))"
    using getNextHash_swap[of "sibling c" c] s(4) unfolding ch by (cases "isLeftNiece c") auto
qed

section \<open>Every run of calculateHashes on targets of the forest\<close>

lemma calculateHashes_loop_short:
  assumes "targets_ok n F T" "ascending T" "C = climbs n F (set T)" "F = treeRows n" "labels n F C H"
    "pf = take m (map H (needs n F C (climbL n F T)))" "m < length (needs n F C (climbL n F T))"
    "cut n F C x" "row \<le> F" "\<forall>c \<in> C. x \<le> unat c \<longrightarrow> row \<le> detectRow c F"
    "N = nexts n F C (below x (climbL n F T))" "length (needs n F C (below x (climbL n F T))) \<le> m"
  shows "calculateHashes_loop n F (of_pairs (labelled H T)) pf row (cnt T x) (of_pairs (labelled H N)) (cnt N x)
      (length (needs n F C (below x (climbL n F T)))) rts = Some (Inl Panic)"
  using assms(8-12)
proof (induction "card {c \<in> C. x \<le> unat c}" arbitrary: x row N rts rule: less_induct)
  case less
  let ?cs = "climbL n F T" and ?M = "map H (needs n F C (climbL n F T))"
  have f: "fits n F" "\<forall>t \<in> set T. node n F t" using assms(1) by (auto simp: targets_ok_def)
  have "\<exists>c \<in> C. x \<le> unat c"
  proof (rule ccontr)
    assume "\<not> ?thesis"
    then have "below x ?cs = ?cs" by (intro below_all) (auto simp: assms(3) not_le)
    then show False using less.prems(5) assms(7) by simp
  qed
  then obtain p where p: "p \<in> C" "x \<le> unat p" "\<forall>c \<in> C. x \<le> unat c \<longrightarrow> p \<le> c" by (rule least_above)
  define x' where "x' = advance n F C p"
  define N' where "N' = nexts n F C (below x' ?cs)"
  have nd: "node n F p" using climbs_node[OF f] assms(3) p(1) by blast
  have row: "row \<le> detectRow p F" using less.prems(3) p by blast
  note rl = possibleRow_loop_node(2)[OF f(1) nd row] maxRow_loop_node[OF f(1) nd row]
    root_treeRows[OF f(1) nd assms(4)]
  obtain s where g: "getNextPos T N (cnt T x) (cnt N x) = (p, if p \<in> set T then 0 else 1, s)"
    "\<not> root n F p \<longrightarrow> s = (if sibling p \<in> C then (if sibling p \<in> set T then 0 else 1) else - 1)"
    using climb_next(1)[OF assms(1-3) less.prems(1) p less.prems(4)] by blast
  note c = climb_counts[OF assms(1-3) less.prems(1) p less.prems(4) N'_def x'_def]
  note l = climb_lists[OF assms(1,3) less.prems(1) p refl refl, folded x'_def, folded N'_def less.prems(4)]
  have xx: "unat p < x'" by (simp add: x'_def advance_def)
  have rows: "\<forall>c \<in> C. x' \<le> unat c \<longrightarrow> detectRow p F \<le> detectRow c F"
    using detectRow_mono[OF f(1) nd] climbs_node[OF f] assms(3) xx by (auto simp: word_le_nat_alt)
  note IH = less.hyps[OF above_decreases[OF p(1,2) xx] climb_advance(1)[OF assms(1,3) less.prems(1) p, folded x'_def] rl(1) rows N'_def]
  note h = climb_hash[OF assms(1-3) less.prems(1) p less.prems(4), of H]
  let ?i = "length (needs n F C (below x ?cs))"
  have full: "nthR ?M ?i = Inr (H (sibling p))" if "\<not> root n F p" "sibling p \<notin> C"
    using next_need[OF l(5)[OF that], of ?M H] by simp
  have pfh: "nthR pf ?i = (if ?i < m then Inr (H (sibling p)) else Inl Panic)" if "\<not> root n F p" "sibling p \<notin> C"
    using full[OF that] less.prems(5) assms(6,7) by (auto simp: nthR_def split: if_splits)
  have law: "\<not> root n F p \<Longrightarrow> getNextHash p (H p) (H (sibling p)) = H (parent p F)"
    using assms(5) p(1) by (simp add: labels_def)
  show ?case
  proof (cases "root n F p")
    case True
    then show ?thesis using IH c l g less.prems(2,5) rl h
      by (subst calculateHashes_loop.simps) (cases "p \<in> set T"; simp add: Let_def)
  next
    case False
    then show ?thesis using IH c l g less.prems(2,5) rl h pfh law
      by (subst calculateHashes_loop.simps)
        (cases "sibling p \<in> C"; cases "p \<in> set T"; cases "sibling p \<in> set T"; cases "?i < m"; simp add: Let_def)
  qed
qed

lemma calculateHashes_short:
  assumes "targets_ok n F ts" "distinct ts" "F = treeRows n" "length dels = length ts"
    "length pf < length (needed n F ts)"
  shows "calculateHashes n (Some dels) \<lparr>Targets = ts, proofHashes = pf\<rparr> = Inl Panic"
proof -
  let ?T = "sort ts" let ?C = "climbs n F (set ts)"
  define pf' where "pf' = pf @ replicate (length (needed n F ts) - length pf) empty"
  define H where "H = computed n F ts dels pf'"
  have asc: "ascending ?T" using assms(2) by (simp add: strict_sorted_iff)
  have ok: "targets_ok n F ?T" using assms(1) by (simp add: targets_ok_def)
  have cl: "climbL n F ?T = climbL n F ts" by (simp add: climbL_def)
  have K: "map H ts = dels" "map H (needed n F ts) = pf'"
    using computed_lists[OF assms(1,2,4), of pf'] assms(5) by (auto simp: H_def pf'_def)
  have z: "nexts n F ?C (below 0 (climbL n F ?T)) = []" "needs n F ?C (below 0 (climbL n F ?T)) = []"
    by (simp_all add: nexts_def needs_def heads_def)
  have "pf = take (length pf) (map H (needs n F ?C (climbL n F ?T)))"
    using K(2) by (simp add: needed_def cl pf'_def)
  then have "calculateHashes_loop n F (of_pairs (labelled H ?T)) pf 0 0 hnp_empty 0 0 [] = Some (Inl Panic)"
    using calculateHashes_loop_short[OF ok asc _ assms(3), of ?C H pf "length pf" 0 0 "[]" "[]"] labels_computed[OF assms(1)] z assms(5)
    by (simp add: needed_def cl cut_def H_def)
  then show ?thesis
    using toHashAndPos_labelled[of ts H] K(1) by (simp add: calculateHashes_def Let_def assms(3)[symmetric])
qed

lemma calculateHashes_run:
  assumes "targets_ok n F ts" "distinct ts" "F = treeRows n" "length dels = length ts"
    "length (needed n F ts) \<le> length pf" "K = computed n F ts dels (take (length (needed n F ts)) pf)"
  shows "calculateHashes n (Some dels) \<lparr>Targets = ts, proofHashes = pf\<rparr> =
    Inr (of_pairs (labelled K (climbL n F ts)), map (\<lambda>h. K (rootPosition n (of_nat h) F)) (touched n F ts))"
proof -
  have K: "map K ts = dels" "map K (needed n F ts) = take (length (needed n F ts)) pf"
    using computed_lists[OF assms(1,2,4), of "take (length (needed n F ts)) pf"] assms(5) unfolding assms(6) by simp_all
  have "calculateHashes n (Some dels) \<lparr>Targets = ts, proofHashes = pf\<rparr> =
    Inr (of_pairs (labelled K (climbL n F ts)), map K (filter (root n F) (climbL n F ts)))"
    using calculateHashes_labelled[OF assms(1-3), of K pf "Some dels"] labels_computed[OF assms(1), of dels "take (length (needed n F ts)) pf"] K
    unfolding assms(6)[symmetric] by simp
  then show ?thesis by (simp add: roots_climbed[OF assms(1)] comp_def)
qed

end
