(* ===== verification/ProofSound.thy ===== *)
theory ProofSound
  imports ProofRun
begin

text \<open>
  Soundness of \<open>Verify\<close>: when it accepts a proof whose targets are nodes of the forest, none under
  another, and none of the hashes it was given is the empty hash, then every claimed hash is the
  hash of a node of a tree of the forest, on the path from the root that the target's position
  gives; or a pair of hashes was found that breaks the hash function (\<open>breaks\<close>). Which tree it is
  the stump does not check.
\<close>

unbundle bit_operations_syntax

section \<open>Soundness of Verify\<close>

primrec tree_pairs :: "utree \<Rightarrow> (Hash \<times> Hash) list" where
  "tree_pairs (Tip h) = []"
| "tree_pairs (Node l r) = (thash l, thash r) # tree_pairs l @ tree_pairs r"

text \<open>The pairs of hashes that are hashed together in a forest.\<close>

definition forest_pairs :: "u64 \<Rightarrow> forest \<Rightarrow> (Hash \<times> Hash) list" where
  "forest_pairs n Fo = concat (map (\<lambda>h. case Fo h of None \<Rightarrow> [] | Some t \<Rightarrow> tree_pairs t) (rows n))"

text \<open>The subtree of \<open>u\<close> on the path that leads from the root of its tree to position \<open>p\<close>.\<close>

definition path_at :: "u64 \<Rightarrow> u8 \<Rightarrow> utree \<Rightarrow> u64 \<Rightarrow> utree option" where
  "path_at n F u p = subtree_at n F (\<lambda>_. Some u) p"

text \<open>
  A break of the hash function: a pair of hashes that was hashed while the proof was checked
  gives the zero hash, the hash of a leaf, or the hash of another pair of the forest.
\<close>

definition breaks :: "u64 \<Rightarrow> u8 \<Rightarrow> forest \<Rightarrow> u64 list \<Rightarrow> (u64 \<Rightarrow> Hash) \<Rightarrow> bool" where
  "breaks n F Fo ts K \<longleftrightarrow> (\<exists>c \<in> climbs n F (set ts). \<not> root n F c \<and>
     (let ab = (K (leftSib c), K (rightSib c)); x = parentHash (fst ab) (snd ab)
      in x = empty \<or> x \<in> set (forest_leaves n Fo) \<or>
         (\<exists>cd \<in> set (forest_pairs n Fo). parentHash (fst cd) (snd cd) = x \<and> cd \<noteq> ab)))"

lemma sub_parts:
  "sub u d k = Some s \<Longrightarrow> set (leaves s) \<subseteq> set (leaves u) \<and> set (tree_pairs s) \<subseteq> set (tree_pairs u)"
proof (induction d arbitrary: k s)
  case (Suc d)
  then obtain v where v: "sub u d (k div 2) = Some v" "child (even k) v = Some s"
    by (auto simp: bind_eq_Some_conv)
  then have "set (leaves s) \<subseteq> set (leaves v) \<and> set (tree_pairs s) \<subseteq> set (tree_pairs v)"
    by (cases v) (auto split: if_splits)
  then show ?case using Suc.IH[OF v(1)] by blast
qed simp

lemma forest_parts:
  assumes "g \<in> set (rows n)" "Fo g = Some u" "sub u d k = Some s"
  shows "s = Tip x \<Longrightarrow> x \<in> set (forest_leaves n Fo)"
    "s = Node a b \<Longrightarrow> (thash a, thash b) \<in> set (forest_pairs n Fo)"
  using assms(1,2) sub_parts[OF assms(3)] by (force simp: forest_leaves_def forest_pairs_def)+

lemma leftSib_node:
  assumes "fits n F" "node n F p" "\<not> root n F p"
  shows "leftSib p = (if isLeftNiece p then p else sibling p)" "rightSib p = (if isLeftNiece p then sibling p else p)"
proof -
  show "leftSib p = (if isLeftNiece p then p else sibling p)"
  proof (cases "isLeftNiece p")
    case True
    then have "even p" by (simp add: isLeftNiece_def and_one_eq mod_2_eq_odd split: if_splits)
    then have "n \<noteq> 0" if "bit p n" for n using that by (cases n) (auto simp: bit_0)
    then show ?thesis using True unfolding leftSib_def
      by (simp, intro bit_eqI) (auto simp: bit_and_iff bit_not_iff bit_1_iff)
  next
    case False
    then have "odd p" by (simp add: isLeftNiece_def and_one_eq mod_2_eq_odd split: if_splits)
    then have "bit p n" if "n = 0" for n using that by (simp add: bit_0)
    then show ?thesis using False unfolding leftSib_def sibling_def
      by (simp, intro bit_eqI) (auto simp: bit_and_iff bit_xor_iff bit_not_iff bit_1_iff)
  qed
  show "rightSib p = (if isLeftNiece p then sibling p else p)"
    using sibling_node(5,6)[OF assms] by auto
qed

lemma climb_sibling:
  assumes "c \<in> climbs n F (set ts)" "\<not> root n F c"
  shows "sibling c \<in> climbs n F (set ts) \<or> sibling c \<in> set (needed n F ts)"
  using assms by (auto simp: needed_def needs_def)

lemma computed_nonempty:
  assumes "targets_ok n F ts" "labels n F (climbs n F (set ts)) K" "\<forall>t \<in> set ts. K t \<noteq> empty"
    "\<forall>t \<in> set (needed n F ts). K t \<noteq> empty" "\<not> breaks n F Fo ts K" "c \<in> climbs n F (set ts)"
  shows "K c \<noteq> empty"
  using assms(6)
proof (induction "unat c" arbitrary: c rule: less_induct)
  case less
  have f: "fits n F" "\<forall>t \<in> set ts. node n F t" using assms(1) by (auto simp: targets_ok_def)
  show ?case
  proof (cases "c \<in> set ts")
    case False
    then obtain d where d: "d \<in> climbs n F (set ts)" "\<not> root n F d" "c = parent d F"
      using less.prems climbs_cases[of c n F "set ts"] by blast
    have nd: "node n F d" using climbs_node[OF f d(1)] .
    note s = sibling_node[OF f(1) nd d(2)]
    have "d < c" "sibling d < c" using parent_node(2)[OF f(1) nd d(2)] parent_node(2)[OF f(1) s(1,2)] s(3) d(3) by auto
    then have "K d \<noteq> empty" "K (sibling d) \<noteq> empty"
      using less.hyps d(1) climb_sibling[OF d(1,2)] assms(4) by (auto simp: word_less_nat_alt)
    then have "K c = parentHash (K (leftSib d)) (K (rightSib d))"
      using assms(2) d unfolding leftSib_node[OF f(1) nd d(2)] by (auto simp: labels_def getNextHash_def)
    moreover have "parentHash (K (leftSib d)) (K (rightSib d)) \<noteq> empty"
      using assms(5) d by (auto simp: breaks_def Let_def)
    ultimately show ?thesis by simp
  qed (use assms(3) in simp)
qed

lemma path_found:
  assumes "targets_ok n F ts" "labels n F (climbs n F (set ts)) K" "\<not> breaks n F Fo ts K"
    "\<forall>c \<in> climbs n F (set ts) \<union> set (needed n F ts). K c \<noteq> empty"
    "g \<in> set (rows n)" "Fo g = Some u" "K (rootPosition n (of_nat h) F) = thash u"
  shows "place n F c h r k \<Longrightarrow> c \<in> climbs n F (set ts) \<Longrightarrow> \<exists>s. sub u (h - r) k = Some s \<and> thash s = K c"
proof (induction "h - r" arbitrary: c r k)
  case 0
  have f: "fits n F" using assms(1) by (simp add: targets_ok_def)
  then have "r = h" using 0 place_row(1)[OF f 0(2)] by simp
  then show ?case using place_root[OF f] 0 assms(7) by auto
next
  case (Suc d)
  have f: "fits n F" "\<forall>t \<in> set ts. node n F t" using assms(1) by (auto simp: targets_ok_def)
  have rh: "r < h" and dh: "d = h - Suc r" using Suc.hyps(2) by simp_all
  have nd: "node n F c" using climbs_node[OF f Suc.prems(2)] .
  have nr: "\<not> root n F c" using root_iff(1)[OF f(1) Suc.prems(1)] rh by simp
  note pc = node_parent[OF f(1) Suc.prems(1) rh] and ls = leftSib_node[OF f(1) nd nr]
  obtain v where v: "sub u (h - Suc r) (k div 2) = Some v" "thash v = K (parent c F)"
    using Suc.hyps(1)[OF dh pc climbs.up[OF Suc.prems(2) nr]] by blast
  have "K c \<noteq> empty" "K (sibling c) \<noteq> empty" using assms(4) Suc.prems(2) climb_sibling[OF Suc.prems(2) nr] by auto
  then have kp: "K (parent c F) = parentHash (K (leftSib c)) (K (rightSib c))"
    using assms(2) Suc.prems(2) nr unfolding ls by (auto simp: labels_def getNextHash_def)
  have nb: "parentHash (K (leftSib c)) (K (rightSib c)) \<notin> set (forest_leaves n Fo)"
    "cd \<in> set (forest_pairs n Fo) \<Longrightarrow> parentHash (fst cd) (snd cd) = parentHash (K (leftSib c)) (K (rightSib c)) \<Longrightarrow>
       cd = (K (leftSib c), K (rightSib c))" for cd
    using assms(3) Suc.prems(2) nr by (auto simp: breaks_def Let_def)
  obtain a b where ab: "v = Node a b"
    using forest_parts(1)[where Fo = Fo, OF assms(5,6) v(1)] v(2) kp nb(1) by (cases v) auto
  have "(thash a, thash b) = (K (leftSib c), K (rightSib c))"
    using nb(2)[OF forest_parts(2)[where Fo = Fo, OF assms(5,6) v(1) ab]] v(2) kp ab by simp
  moreover have "h - r = Suc (h - Suc r)" using rh by simp
  moreover have "isLeftNiece c \<longleftrightarrow> even k" using node_rightSib(2)[OF f(1) Suc.prems(1) rh] .
  ultimately show ?case using v(1) ab ls by (auto split: if_splits)
qed

lemma Verify_roots:
  assumes "targets_ok n F ts" "distinct ts" "F = treeRows n" "length dels = length ts"
    "Verify (stump_of n Fo) dels \<lparr>Targets = ts, proofHashes = pf\<rparr> = Inr js"
    "K = computed n F ts dels (take (length (needed n F ts)) pf)"
  shows "length (needed n F ts) \<le> length pf"
    "h \<in> set (touched n F ts) \<Longrightarrow> \<exists>g \<in> set (rows n). K (rootPosition n (of_nat h) F) = rhash (Fo g)"
proof -
  show l: "length (needed n F ts) \<le> length pf"
  proof (rule ccontr)
    assume "\<not> ?thesis"
    then have "Verify (stump_of n Fo) dels \<lparr>Targets = ts, proofHashes = pf\<rparr> = Inl Panic"
      using calculateHashes_short[OF assms(1-4), of pf] by (intro Verify_mismatch) (simp_all add: assms(4))
    then show False using assms(5) by simp
  qed
  note ch = calculateHashes_run[OF assms(1-4) l assms(6)]
  have "subseq (map (\<lambda>h. K (rootPosition n (of_nat h) F)) (touched n F ts)) (rev (Roots (stump_of n Fo)))"
    using Verify_iff(1)[of dels "\<lparr>Targets = ts, proofHashes = pf\<rparr>" "stump_of n Fo"] ch assms(4,5) by auto
  then show "h \<in> set (touched n F ts) \<Longrightarrow> \<exists>g \<in> set (rows n). K (rootPosition n (of_nat h) F) = rhash (Fo g)"
    using subseq_mem[of _ _ "K (rootPosition n (of_nat h) F)"] by fastforce
qed

lemma climbs_root:
  assumes "fits n F" "place n F c h r k" "c \<in> climbs n F T"
  shows "rootPosition n (of_nat h) F \<in> climbs n F T"
  using assms(2,3)
proof (induction "h - r" arbitrary: c r k)
  case 0
  then have "r = h" using place_row(1)[OF assms(1) 0(2)] by simp
  then show ?case using place_root[OF assms(1)] 0 by auto
next
  case (Suc d)
  have rh: "r < h" and dh: "d = h - Suc r" using Suc.hyps(2) by simp_all
  have "\<not> root n F c" using root_iff(1)[OF assms(1) Suc.prems(1)] rh by simp
  then show ?case using Suc.hyps(1)[OF dh node_parent[OF assms(1) Suc.prems(1) rh]] climbs.up Suc.prems(2) by blast
qed

lemma path_at_place:
  assumes "fits n F" "place n F p h r k" shows "path_at n F u p = sub u (h - r) k"
  by (simp add: path_at_def subtree_at_place[OF assms])

lemma Verify_finds:
  assumes "targets_ok n F ts" "distinct ts" "F = treeRows n" "length dels = length ts"
    "empty \<notin> set dels" "empty \<notin> set pf"
    "Verify (stump_of n Fo) dels \<lparr>Targets = ts, proofHashes = pf\<rparr> = Inr js"
    "K = computed n F ts dels (take (length (needed n F ts)) pf)" "\<not> breaks n F Fo ts K" "i < length ts"
  shows "\<exists>g \<in> set (rows n). \<exists>u s. Fo g = Some u \<and> path_at n F u (ts ! i) = Some s \<and> thash s = dels ! i"
proof -
  have f: "fits n F" "\<forall>t \<in> set ts. node n F t" using assms(1) by (auto simp: targets_ok_def)
  note V = Verify_roots[OF assms(1-4,7,8)]
  have K: "map K ts = dels" "map K (needed n F ts) = take (length (needed n F ts)) pf"
    using computed_lists[OF assms(1,2,4), of "take (length (needed n F ts)) pf"] V(1) unfolding assms(8) by simp_all
  have lab: "labels n F (climbs n F (set ts)) K" unfolding assms(8) by (rule labels_computed[OF assms(1)])
  have e: "\<forall>t \<in> set ts. K t \<noteq> empty" "\<forall>t \<in> set (needed n F ts). K t \<noteq> empty"
    using assms(5,6) K by (metis image_eqI list.set_map, metis image_eqI in_set_takeD list.set_map)
  then have ne: "\<forall>c \<in> climbs n F (set ts) \<union> set (needed n F ts). K c \<noteq> empty"
    using computed_nonempty[OF assms(1) lab _ _ assms(9)] by blast
  have ti: "ts ! i \<in> climbs n F (set ts)" using assms(10) by (simp add: climbs.target)
  obtain h r k where p: "place n F (ts ! i) h r k" using node_place[OF f(1)] f(2) assms(10) by (metis nth_mem)
  have rc: "rootPosition n (of_nat h) F \<in> climbs n F (set ts)" using climbs_root[OF f(1) p ti] .
  have "h \<in> set (touched n F ts)"
    using rc p bit_imp_le_length[of n h] by (auto simp: touched_def place_def in_tree_def bit_unat_iff)
  then obtain g where g: "g \<in> set (rows n)" "K (rootPosition n (of_nat h) F) = rhash (Fo g)" using V(2) by blast
  then obtain u where u: "Fo g = Some u" "K (rootPosition n (of_nat h) F) = thash u"
    using ne rc by (cases "Fo g") auto
  obtain s where "sub u (h - r) k = Some s" "thash s = K (ts ! i)"
    using path_found[OF assms(1) lab assms(9) ne g(1) u p ti] by blast
  then show ?thesis using g(1) u(1) path_at_place[OF f(1) p] K(1) assms(10) by (metis nth_map)
qed

end
