(* ===== verification/ProofLimits.thy ===== *)
theory ProofLimits
  imports ProofSound
begin

text \<open>
  What \<open>Verify\<close> does outside the hypotheses of soundness. A target that is no position of the
  forest sends the row loop of \<open>calculateHashes\<close> round for ever (\<open>calculateHashes_diverges\<close>). A
  proof made of empty hashes carries the claimed hash unchanged to a root, so that \<open>Verify\<close> accepts
  the hash of any root at any position of the forest (\<open>Verify_empty_proof\<close>).
\<close>

unbundle bit_operations_syntax

section \<open>Targets outside the forest\<close>

lemma maxRow_loop_bound:
  "maxRow_loop p F n row = Some y \<Longrightarrow> p \<le> maxPositionAtRow_val y F n"
  by (rule maxRow_loop.raw_induct[where P = "\<lambda>p F n row y. p \<le> maxPositionAtRow_val y F n"])
    (auto split: if_splits)

lemma maxPositionAtRow_val_bound:
  assumes "unat F < 63" "unat n \<le> 2 ^ unat F" shows "unat (maxPositionAtRow_val row F n) < 2 ^ (unat F + 1)"
proof -
  have "unat (x - 1) < 2 ^ (unat F + 1)" if "x \<noteq> 0" "unat x < 2 ^ (unat F + 1)" for x :: u64
    using that unat_minus_one[OF that(1)] by simp
  moreover have "unat (x AND (push_bit (unat F) 2 - 1)) < 2 ^ (unat F + 1)" for x :: u64
  proof -
    have "push_bit (unat F) 2 - 1 = (mask (unat F + 1) :: u64)" by (simp add: mask_eq_exp_minus_1 push_bit_eq_mult)
    then have "x AND (push_bit (unat F) 2 - 1) = take_bit (unat F + 1) x" by (simp add: take_bit_eq_mask)
    then show ?thesis by (simp add: unsigned_take_bit_eq del: power_Suc)
  qed
  moreover have "unat n < 2 ^ (unat F + 1)" using assms(2) by (simp add: less_le_trans[OF le_imp_less_Suc])
  ultimately show ?thesis
    by (auto simp: maxPositionAtRow_val_def maxPositionAtRow_def parentMany_def Let_def split: sum.splits if_splits)
qed

lemma maxRow_loop_diverges:
  assumes "unat F < 63" "unat n \<le> 2 ^ unat F" "2 ^ (unat F + 1) \<le> unat p"
  shows "maxRow_loop p F n row = None"
proof (cases "maxRow_loop p F n row")
  case (Some y)
  then show ?thesis using maxRow_loop_bound[OF Some] maxPositionAtRow_val_bound[OF assms(1,2), of y] assms(3)
    by (simp add: word_le_nat_alt)
qed simp

lemma getNextPos_first:
  assumes "ascending (p # ps)" shows "\<exists>s. getNextPos (p # ps) [] 0 0 = (p, 0, s)"
  using getNextPos_some[of "p # ps" "[]" p 0] assms by (auto simp: cnt_0I le_less)

lemma calculateHashes_diverges:
  assumes "ts \<noteq> []" "distinct ts" "length dels = length ts" "unat (treeRows n) < 63"
    "\<forall>t \<in> set ts. 2 ^ (unat (treeRows n) + 1) \<le> unat t"
  shows "calculateHashes n (Some dels) \<lparr>Targets = ts, proofHashes = pf\<rparr> = Inl Diverge"
proof -
  define H where "H = (\<lambda>p. the (map_of (zip ts dels) p))"
  have H: "map H ts = dels"
    using assms(2,3) by (intro nth_equalityI) (auto simp: H_def map_of_zip_nth)
  obtain p ps where p: "sort ts = p # ps" using assms(1) by (metis list.exhaust set_empty set_sort)
  have asc: "ascending (p # ps)" using assms(2) p by (metis sorted_sort distinct_sort strict_sorted_iff)
  have n: "unat n \<le> 2 ^ unat (treeRows n)" using le_treeRows[of n] assms(4) by simp
  have "p \<in> set ts" using p by (metis list.set_intros(1) set_sort)
  then have "maxRow_loop p (treeRows n) n 0 = None"
    using maxRow_loop_diverges[OF assms(4) n] assms(5) by blast
  then have "calculateHashes_loop n (treeRows n) (of_pairs (labelled H (sort ts))) pf 0 0 hnp_empty 0 0 [] = None"
    using getNextPos_first[OF asc] unfolding p
    by (subst calculateHashes_loop.simps) (auto simp: hnp_empty_def of_pairs_def labelled_def comp_def)
  then show ?thesis
    using toHashAndPos_labelled[of ts H] H by (simp add: calculateHashes_def Let_def)
qed

section \<open>Proofs made of empty hashes\<close>

lemma climbs_single:
  assumes "fits n F" "place n F t h r k" "c \<in> climbs n F {t}"
  shows "\<exists>s. r \<le> s \<and> place n F c h s (k div 2 ^ (s - r))"
  using assms(3)
proof induction
  case (target t')
  then show ?case using assms(2) by (intro exI[of _ r]) auto
next
  case (up c)
  then obtain s where s: "r \<le> s" "place n F c h s (k div 2 ^ (s - r))" by blast
  then have "s < h" using root_iff(1)[OF assms(1) s(2)] up(2) place_row(1)[OF assms(1) s(2)] by simp
  then have "place n F (parent c F) h (Suc s) (k div 2 ^ (Suc s - r))"
    using node_parent[OF assms(1) s(2)] s(1) by (simp add: Suc_diff_le div_mult2_eq[symmetric] mult.commute)
  then show ?case using s(1) le_Suc_eq by blast
qed

lemma single_sibling:
  assumes "fits n F" "place n F t h r k" "c \<in> climbs n F {t}" "\<not> root n F c"
  shows "sibling c \<notin> climbs n F {t}"
proof
  assume a: "sibling c \<in> climbs n F {t}"
  obtain s where s: "place n F c h s (k div 2 ^ (s - r))" using climbs_single[OF assms(1-3)] by blast
  obtain u where u: "place n F (sibling c) h u (k div 2 ^ (u - r))" using climbs_single[OF assms(1,2) a] by blast
  have "s < h" using root_iff(1)[OF assms(1) s] assms(4) place_row(1)[OF assms(1) s] by simp
  note w = node_sibling[OF assms(1) s this]
  have "(of_nat u :: u8) = of_nat s" using place_row(5)[OF assms(1) u] place_row(5)[OF assms(1) w] by simp
  then have "unat (of_nat u :: u8) = unat (of_nat s :: u8)" by (rule arg_cong)
  then have "u = s" using place_63[OF assms(1) s] place_63[OF assms(1) u] by simp
  then show False using s u by (simp add: place_def)
qed

lemma single_root:
  assumes "fits n F" "place n F t h r k"
  shows "filter (root n F) (climbL n F [t]) = [rootPosition n (of_nat h) F]"
proof (rule strict_sorted_equal)
  have "c = rootPosition n (of_nat h) F" if c: "c \<in> climbs n F {t}" "root n F c" for c
  proof -
    obtain s where s: "place n F c h s (k div 2 ^ (s - r))" using climbs_single[OF assms c(1)] by blast
    then have "s = h" using root_iff(1)[OF assms(1) s] c(2) by simp
    then show ?thesis using place_root[OF assms(1)] s by auto
  qed
  moreover have "rootPosition n (of_nat h) F \<in> climbs n F {t}"
    using climbs_root[OF assms, of "{t}"] climbs.target[of t "{t}"] by simp
  moreover have "root n F (rootPosition n (of_nat h) F)"
    using root_iff(1)[OF assms(1) root_place[OF assms(1), of h]] assms(2) by (simp add: place_def in_tree_def bit_unat_iff)
  ultimately have "{c \<in> climbs n F {t}. root n F c} = {rootPosition n (of_nat h) F}" by blast
  then show "set (filter (root n F) (climbL n F [t])) = set [rootPosition n (of_nat h) F]" by simp
qed (auto intro: ascending_filter)

lemma calculateHashes_empty_proof:
  assumes "fits n F" "F = treeRows n" "node n F t" "pf = replicate (length (needed n F [t])) empty"
    "dels = Some [x] \<or> dels = None \<and> x = empty"
  shows "calculateHashes n dels \<lparr>Targets = [t], proofHashes = pf\<rparr> =
    Inr (of_pairs (labelled (\<lambda>_. x) (climbL n F [t])), [x])"
proof -
  define H where "H = (\<lambda>p. if p \<in> climbs n F {t} then x else empty)"
  obtain h r k where p: "place n F t h r k" using node_place[OF assms(1,3)] .
  have ok: "targets_ok n F [t]" using assms(1,3) place_ancestor[OF assms(1) p p] by (auto simp: targets_ok_def)
  have lab: "labels n F (climbs n F (set [t])) H"
    using single_sibling[OF assms(1) p] climbs.up by (auto simp: labels_def H_def getNextHash_def)
  have "map H (needed n F [t]) = pf"
    using needed_disjoint[of _ n F "[t]"] unfolding assms(4) by (intro nth_equalityI) (auto simp: H_def dest: nth_mem)
  moreover have "H t = x" by (simp add: H_def climbs.target)
  moreover have "labelled H (climbL n F [t]) = labelled (\<lambda>_. x) (climbL n F [t])" by (auto simp: labelled_def H_def)
  moreover have "H (rootPosition n (of_nat h) F) = x" using climbs_root[OF assms(1) p, of "{t}"] climbs.target[of t "{t}"] by (simp add: H_def)
  ultimately show ?thesis
    using calculateHashes_labelled[OF ok _ assms(2) lab, of pf dels] assms(4,5) single_root[OF assms(1) p] by auto
qed

lemma Verify_empty_proof:
  assumes "fits (NumLeaves s) F" "F = treeRows (NumLeaves s)" "node (NumLeaves s) F t" "x \<in> set (Roots s)"
    "pr = \<lparr>Targets = [t], proofHashes = replicate (length (needed (NumLeaves s) F [t])) empty\<rparr>"
  shows "\<exists>j < length (Roots s). Roots s ! j = x \<and> Verify s [x] pr = Inr [j] \<and>
    (\<exists>hs ps. Stump_del s [x] pr = Inr (s\<lparr>Roots := (Roots s)[j := empty]\<rparr>, hs, ps))"
proof -
  note ch = calculateHashes_empty_proof[OF assms(1-3) refl, folded assms(5)]
  have l: "length [x] = length (Targets pr)" using assms(5) by simp
  have "subseq [x] (rev (Roots s))" using assms(4) by (simp add: subseq_singleton_left)
  then obtain js where v: "Verify s [x] pr = Inr js"
    using Verify_iff(1)[OF l ch, of x] by auto
  then have "subseq js (rev [0..<length (Roots s)])" "map ((!) (Roots s)) js = [x]"
    using Verify_iff(2)[OF l ch, of x] by auto
  then obtain j where j: "js = [j]" "Roots s ! j = x" "j < length (Roots s)" by (auto simp: subseq_singleton_left)
  moreover have "\<exists>hs ps. Stump_del s [x] pr = Inr (s\<lparr>Roots := (Roots s)[j := empty]\<rparr>, hs, ps)"
    using ch[of None empty] v j(1) by (simp add: Stump_del_def)
  ultimately show ?thesis using v by blast
qed

end
