(* ===== verification/ProofUndo.thy ===== *)
theory ProofUndo
  imports CachedProof
begin

text \<open>
  \<open>Proof.Undo\<close> of \<open>prove.go\<close>, which moves a cached proof back over a block: \<open>Proof_undoAdd\<close> for
  the additions and \<open>Proof_undoDel\<close> for the deletions. Slices that a loop ranges over while it
  writes to them are modelled with the sharing Go gives them.
\<close>

unbundle bit_operations_syntax

section \<open>Undoing additions\<close>

fun pruneEdges_loop :: "u64 \<Rightarrow> u64 \<Rightarrow> u8 \<Rightarrow> u8 \<Rightarrow> u64 list \<Rightarrow> Hash list \<Rightarrow> hashAndPos \<Rightarrow> hashAndPos result" where
  "pruneEdges_loop numAdds numLeaves forestRows prevForestRows [] hs kept = Inr kept"
| "pruneEdges_loop numAdds numLeaves forestRows prevForestRows (target # ps) hs kept =
     (let row = detectRow target forestRows
      in if row > prevForestRows
         then pruneEdges_loop numAdds numLeaves forestRows prevForestRows ps (tl hs) kept
         else (let offset = target - startPositionAtRow row forestRows
               in bindR (maxPositionAtRow row prevForestRows (numLeaves - numAdds)) (\<lambda>maxPos.
                  if startPositionAtRow row prevForestRows + offset \<le> maxPos
                  then (case hs of
                          [] \<Rightarrow> Inl Panic
                        | h # hs' \<Rightarrow> pruneEdges_loop numAdds numLeaves forestRows prevForestRows ps hs'
                                      (hnp_Append kept target h))
                  else pruneEdges_loop numAdds numLeaves forestRows prevForestRows ps (tl hs) kept)))"

definition pruneEdges :: "hashAndPos \<Rightarrow> u64 \<Rightarrow> u64 \<Rightarrow> u8 \<Rightarrow> u8 \<Rightarrow> hashAndPos result" where
  "pruneEdges hnp numAdds numLeaves forestRows prevForestRows =
     pruneEdges_loop numAdds numLeaves forestRows prevForestRows (positions hnp) (hashes hnp) hnp_empty"

text \<open>The body of the loops that move positions back to before an empty root was written over.\<close>

definition beforeDestroyed :: "u64 \<Rightarrow> u64 \<Rightarrow> u64 \<Rightarrow> u64 \<Rightarrow> u64" where
  "beforeDestroyed numAdds numLeaves destroyedPos target =
     (let forestRows = treeRows numLeaves
      in if destroyedPos \<le> target then target
         else if biggerTrees target numLeaves \<noteq> biggerTrees destroyedPos (numLeaves - numAdds) then target
         else if isAncestor (parent destroyedPos forestRows) target forestRows
         then calcPrevPosition target destroyedPos forestRows
         else target)"

text \<open>The loop \<open>for i := 0; i < hnp.Len(); i++\<close> that deletes, which steps past the element that
  moves into the place of a deleted one.\<close>

function deleteUnder :: "u64 \<Rightarrow> u64 \<Rightarrow> hashAndPos \<Rightarrow> nat \<Rightarrow> hashAndPos result" where
  "deleteUnder numLeaves destroyedPos hnp i =
     (if i < hnp_Len hnp then
        (let target = positions hnp ! i
         in if biggerTrees destroyedPos numLeaves = biggerTrees target numLeaves \<or> target = destroyedPos
            then bindR (hnp_Delete hnp i) (\<lambda>hnp1. deleteUnder numLeaves destroyedPos hnp1 (i + 1))
            else deleteUnder numLeaves destroyedPos hnp (i + 1))
      else Inr hnp)"
  by pat_completeness auto
termination
  by (relation "measure (\<lambda>(numLeaves, destroyedPos, hnp, i). hnp_Len hnp - i)") (auto dest!: hnp_Delete_len)

declare deleteUnder.simps [simp del]

fun deleteUnderAll :: "u64 \<Rightarrow> u64 list \<Rightarrow> hashAndPos \<Rightarrow> hashAndPos result" where
  "deleteUnderAll numLeaves [] hnp = Inr hnp"
| "deleteUnderAll numLeaves (destroyedPos # toDestroy) hnp =
     bindR (deleteUnder numLeaves destroyedPos hnp 0) (deleteUnderAll numLeaves toDestroy)"

text \<open>The loop over the rows, \<open>k\<close> of them.\<close>

primrec deleteUnderRows :: "nat \<Rightarrow> u64 \<Rightarrow> u64 list \<Rightarrow> hashAndPos \<Rightarrow> hashAndPos result" where
  "deleteUnderRows 0 numLeaves toDestroy hnp = Inr hnp"
| "deleteUnderRows (Suc k) numLeaves toDestroy hnp =
     bindR (deleteUnderAll numLeaves toDestroy hnp) (deleteUnderRows k numLeaves toDestroy)"

definition remapBack :: "u8 \<Rightarrow> u8 \<Rightarrow> u64 \<Rightarrow> u64" where
  "remapBack forestRows prevForestRows pos =
     (let row = detectRow pos forestRows;
          offset = pos - startPositionAtRow row forestRows
      in offset + startPositionAtRow row prevForestRows)"

definition Proof_undoAdd ::
  "Proof \<Rightarrow> u64 \<Rightarrow> u64 \<Rightarrow> Hash list \<Rightarrow> u64 list \<Rightarrow> (Hash list \<times> Proof) result" where
  "Proof_undoAdd p numAdds numLeaves cachedHashes toDestroy =
     bindR (toHashAndPos (Targets p) cachedHashes) (\<lambda>targetsWithHash.
     bindR (proofPositions (positions targetsWithHash) numLeaves (treeRows numLeaves)) (\<lambda>(proofPos, _).
     bindR (toHashAndPos proofPos (proofHashes p)) (\<lambda>proofWithPos.
     let forestRows = treeRows numLeaves;
         prevForestRows = treeRows (numLeaves - numAdds);
         moved = (\<lambda>hnp. hnp\<lparr>positions := map (fold (beforeDestroyed numAdds numLeaves) toDestroy) (positions hnp)\<rparr>)
     in bindR (pruneEdges (moved targetsWithHash) numAdds numLeaves forestRows prevForestRows) (\<lambda>targetsWithHash1.
        bindR (pruneEdges (moved proofWithPos) numAdds numLeaves forestRows prevForestRows) (\<lambda>proofWithPos1.
        bindR (deleteUnderRows (unat prevForestRows + 1) numLeaves toDestroy proofWithPos1) (\<lambda>proofWithPos2.
        bindR (deleteUnderRows (unat prevForestRows + 1) numLeaves toDestroy targetsWithHash1) (\<lambda>targetsWithHash2.
        let remapped = (\<lambda>hnp. if prevForestRows < forestRows
              then hnp\<lparr>positions := map (remapBack forestRows prevForestRows) (positions hnp)\<rparr> else hnp);
            targetsWithHash3 = remapped targetsWithHash2;
            proofWithPos3 = remapped proofWithPos2
        in bindR (proofPositions (positions targetsWithHash3) (numLeaves - numAdds) prevForestRows) (\<lambda>(neededProofPos, _).
           bindR (getHashAndPosSubset proofWithPos3 neededProofPos) (\<lambda>proofWithPos4.
           Inr (hashes targetsWithHash3,
                \<lparr>Targets = positions targetsWithHash3, proofHashes = hashes proofWithPos4\<rparr>))))))))))"

section \<open>Undoing deletions\<close>

text \<open>The guard of the two loops of \<open>undoDel\<close>: the target is the previous sibling of the deleted
  node, which has moved up, or lies under it.\<close>

definition movedBy :: "u64 \<Rightarrow> u64 \<Rightarrow> u64 \<Rightarrow> bool" where
  "movedBy numLeaves blockTarget target \<longleftrightarrow>
     (let totalRows = treeRows numLeaves; sibPos = parent blockTarget totalRows
      in biggerTrees target numLeaves = biggerTrees blockTarget numLeaves \<and>
         (isAncestor sibPos target totalRows \<or> sibPos = target))"

text \<open>
  The loop over the cached targets, with \<open>k\<close> passes left. The slice it ranges over is the one it
  writes to and sorts, so each pass reads the position that is now at its index.
\<close>

primrec undoTargets ::
  "nat \<Rightarrow> u64 \<Rightarrow> u64 \<Rightarrow> Hash \<Rightarrow> nat \<Rightarrow> hashAndPos \<Rightarrow> hashAndPos \<Rightarrow> (hashAndPos \<times> hashAndPos) result" where
  "undoTargets 0 numLeaves blockTarget blockHash i targetsWithHashes newProofs = Inr (targetsWithHashes, newProofs)"
| "undoTargets (Suc k) numLeaves blockTarget blockHash i targetsWithHashes newProofs =
     bindR (nthR (positions targetsWithHashes) i) (\<lambda>target.
       if movedBy numLeaves blockTarget target
       then bindR (sort_hnp (hnp_Append newProofs blockTarget blockHash)) (\<lambda>newProofs1.
            bindR (sort_hnp (targetsWithHashes\<lparr>positions := (positions targetsWithHashes)
                     [i := calcPrevPosition target blockTarget (treeRows numLeaves)]\<rparr>)) (\<lambda>targetsWithHashes1.
            undoTargets k numLeaves blockTarget blockHash (i + 1) targetsWithHashes1 newProofs1))
       else undoTargets k numLeaves blockTarget blockHash (i + 1) targetsWithHashes newProofs)"

text \<open>
  The loop over the proof positions. It ranges over the slice \<open>ranged\<close>, which is the slice of
  \<open>proofWithPos\<close> (\<open>shared\<close>) until the first merge makes a new one.
\<close>

primrec undoProofs ::
  "nat \<Rightarrow> u64 \<Rightarrow> u64 \<Rightarrow> Hash \<Rightarrow> nat \<Rightarrow> u64 list \<Rightarrow> bool \<Rightarrow> hashAndPos \<Rightarrow> hashAndPos result" where
  "undoProofs 0 numLeaves blockTarget blockHash i ranged shared proofWithPos = Inr proofWithPos"
| "undoProofs (Suc k) numLeaves blockTarget blockHash i ranged shared proofWithPos =
     (let totalRows = treeRows numLeaves; sibPos = parent blockTarget totalRows
      in bindR (nthR ranged i) (\<lambda>target.
         if movedBy numLeaves blockTarget target
         then bindR (nthR (positions proofWithPos) i) (\<lambda>_.
              bindR (nthR (hashes proofWithPos) i) (\<lambda>sibHash.
              bindR (sort_hnp (proofWithPos\<lparr>positions := (positions proofWithPos)
                       [i := calcPrevPosition target blockTarget totalRows]\<rparr>)) (\<lambda>proofWithPos1.
              bindR (mergeSortedHashAndPos proofWithPos1
                       \<lparr>positions = [sibPos],
                        hashes = [if isLeftNiece blockTarget then parentHash blockHash sibHash
                                  else parentHash sibHash blockHash]\<rparr>) (\<lambda>proofWithPos2.
              undoProofs k numLeaves blockTarget blockHash (i + 1)
                (if shared then positions proofWithPos1 else ranged) False proofWithPos2))))
         else undoProofs k numLeaves blockTarget blockHash (i + 1) ranged shared proofWithPos))"

text \<open>The loop over the block targets, from the last to the first.\<close>

fun undoDel_loop ::
  "u64 \<Rightarrow> (u64 \<times> Hash) list \<Rightarrow> hashAndPos \<Rightarrow> hashAndPos \<Rightarrow> hashAndPos \<Rightarrow>
     (hashAndPos \<times> hashAndPos \<times> hashAndPos) result" where
  "undoDel_loop numLeaves [] targetsWithHashes newProofs proofWithPos =
     Inr (targetsWithHashes, newProofs, proofWithPos)"
| "undoDel_loop numLeaves ((blockTarget, blockHash) # bs) targetsWithHashes newProofs proofWithPos =
     bindR (undoTargets (hnp_Len targetsWithHashes) numLeaves blockTarget blockHash 0 targetsWithHashes newProofs)
       (\<lambda>(targetsWithHashes1, newProofs1).
     bindR (undoProofs (hnp_Len proofWithPos) numLeaves blockTarget blockHash 0 (positions proofWithPos) True proofWithPos)
       (\<lambda>proofWithPos1.
     undoDel_loop numLeaves bs targetsWithHashes1 newProofs1 proofWithPos1))"

text \<open>The loop that replaces proof hashes with the ones calculated from the block proof.\<close>

fun replaceHashes :: "hashAndPos \<Rightarrow> u64 list \<Rightarrow> nat \<Rightarrow> nat \<Rightarrow> Hash list \<Rightarrow> Hash list result" where
  "replaceHashes before0 [] i beforeIdx hs = Inr hs"
| "replaceHashes before0 (pos # ps) i beforeIdx hs =
     (let beforeIdx1 = skipBelow (positions before0) pos beforeIdx
      in if beforeIdx1 < hnp_Len before0 \<and> positions before0 ! beforeIdx1 = pos
         then bindR (nthR (hashes before0) beforeIdx1) (\<lambda>h.
              if i < length hs then replaceHashes before0 ps (i + 1) beforeIdx1 (hs[i := h]) else Inl Panic)
         else replaceHashes before0 ps (i + 1) beforeIdx1 hs)"

definition Proof_undoDel ::
  "Proof \<Rightarrow> u64 list \<Rightarrow> Hash list \<Rightarrow> Hash list \<Rightarrow> Proof \<Rightarrow> u64 \<Rightarrow> (Hash list \<times> Proof) result" where
  "Proof_undoDel p blockTargets blockHashes cachedHashes blockProof numLeaves =
     (let totalRows = treeRows numLeaves
      in if length blockTargets = 0 then Inr (cachedHashes, p)
         else bindR (toHashAndPos (Targets p) cachedHashes) (\<lambda>targetsWithHashes.
              bindR (proofPositions (positions targetsWithHashes) numLeaves totalRows) (\<lambda>(proofPos, _).
              bindR (toHashAndPos proofPos (proofHashes p)) (\<lambda>proofWithPos.
              bindR (toHashAndPos blockTargets blockHashes) (\<lambda>blockTargetsWithHash0.
              bindR (deTwinHashAndPos blockTargetsWithHash0 totalRows) (\<lambda>blockTargetsWithHash.
              if length (hashes blockTargetsWithHash) < hnp_Len blockTargetsWithHash then Inl Panic
              else bindR (undoDel_loop numLeaves
                     (rev (zip (positions blockTargetsWithHash) (hashes blockTargetsWithHash)))
                     targetsWithHashes hnp_empty proofWithPos) (\<lambda>(targetsWithHashes1, newProofs, proofWithPos1).
              bindR (mergeSortedHashAndPos proofWithPos1 newProofs) (\<lambda>proofWithPos2.
              bindR (calculateHashes numLeaves (Some blockHashes) blockProof) (\<lambda>(before0, _).
              bindR (replaceHashes before0 (positions proofWithPos2) 0 0 (hashes proofWithPos2)) (\<lambda>hs.
              bindR (mergeSortedHashAndPos (proofWithPos2\<lparr>hashes := hs\<rparr>) before0) (\<lambda>proofWithPos3.
              bindR (proofPositions (positions targetsWithHashes1) numLeaves totalRows) (\<lambda>(neededProofPos, _).
              bindR (getHashAndPosSubset proofWithPos3 neededProofPos) (\<lambda>proofWithPos4.
              Inr (hashes targetsWithHashes1,
                   \<lparr>Targets = positions targetsWithHashes1, proofHashes = hashes proofWithPos4\<rparr>))))))))))))))"

definition Proof_Undo ::
  "Proof \<Rightarrow> u64 \<Rightarrow> u64 \<Rightarrow> u64 list \<Rightarrow> Hash list \<Rightarrow> Hash list \<Rightarrow> u64 list \<Rightarrow> Proof \<Rightarrow> (Hash list \<times> Proof) result" where
  "Proof_Undo p numAdds numLeaves dels delHashes cachedHashes toDestroy pr =
     bindR (Proof_undoAdd p numAdds numLeaves cachedHashes toDestroy) (\<lambda>(cachedHashes1, p1).
       Proof_undoDel p1 dels delHashes cachedHashes1 pr (numLeaves - numAdds))"

end
