(* ===== verification/ProofMerge.thy ===== *)
theory ProofMerge
  imports ProofUndo ProofRun
begin

text \<open>
  The functions that combine proofs are correct for every labelling of the positions by hashes:
  \<open>AddProof\<close> returns the proof of the union of the targets, \<open>GetProofSubset\<close> the proof of the wanted
  targets, and \<open>GetMissingPositions\<close> the positions a proof of the desired targets still lacks.
\<close>

unbundle bit_operations_syntax

section \<open>The positions of a proof\<close>

lemma isLeftNiece_unat: "isLeftNiece p \<longleftrightarrow> even (unat p)"
  using bit_unat_iff[of p 0]
  by (simp add: isLeftNiece_def and_one_eq mod_2_eq_odd bit_0 split: if_splits)

lemma sibling_mono:
  assumes "fits n F" "node n F c" "node n F d" "\<not> root n F c" "\<not> root n F d" "c < d" "sibling c \<noteq> d"
  shows "sibling c < sibling d"
proof -
  note c = sibling_node(5,6)[OF assms(1,2,4)] and d = sibling_node(5,6)[OF assms(1,3,5)]
  have e: "isLeftNiece c \<longleftrightarrow> even (unat c)" "isLeftNiece d \<longleftrightarrow> even (unat d)" by (rule isLeftNiece_unat)+
  have ne: "unat (sibling c) \<noteq> unat d" using assms(7) by (simp add: word_unat_eq_iff)
  have arith: "x' < y'" if "x < y" "x' \<noteq> y" "even x \<Longrightarrow> x' = x + 1" "odd x \<Longrightarrow> x = x' + 1"
    "even y \<Longrightarrow> y' = y + 1" "odd y \<Longrightarrow> y = y' + 1" for x y x' y' :: nat
    using that by presburger
  have "unat c < unat d" using assms(6) by (simp add: word_less_nat_alt)
  from arith[OF this ne] show ?thesis using c d unfolding word_less_nat_alt e by blast
qed

lemma ascending_needed:
  assumes "targets_ok n F ts" shows "ascending (needed n F ts)"
proof -
  have f: "fits n F" "\<forall>t \<in> set ts. node n F t" using assms by (auto simp: targets_ok_def)
  let ?cs = "filter (\<lambda>c. \<not> root n F c \<and> sibling c \<notin> climbs n F (set ts)) (climbL n F ts)"
  have "ascending ?cs" by (intro ascending_filter) simp
  then show ?thesis unfolding needed_def needs_def sorted_wrt_map
  proof (rule sorted_wrt_mono_rel[rotated])
    fix c d assume "c \<in> set ?cs" "d \<in> set ?cs" "c < d"
    then show "sibling c < sibling d"
      using climbs_node[OF f] sibling_mono[OF f(1), of c d] by auto
  qed
qed

lemma proofPositions_sort:
  assumes "targets_ok n F ts" "distinct ts"
  shows "proofPositions (sort ts) n F = Inr (needed n F ts, nexts n F (climbs n F (set ts)) (climbL n F ts))"
proof -
  have "targets_ok n F (sort ts)" "ascending (sort ts)" using assms by (auto simp: targets_ok_def strict_sorted_iff)
  from proofPositions_eq[OF this] show ?thesis by (simp add: needed_def climbL_def)
qed

lemma set_needed:
  "set (needed n F ts) = {sibling c |c. c \<in> climbs n F (set ts) \<and> \<not> root n F c \<and> sibling c \<notin> climbs n F (set ts)}"
  by (auto simp: needed_def needs_def)

lemma set_computable:
  assumes "targets_ok n F ts"
  shows "set (nexts n F (climbs n F (set ts)) (climbL n F ts)) \<union> set ts = climbs n F (set ts)"
    "ascending (nexts n F (climbs n F (set ts)) (climbL n F ts))"
proof -
  let ?C = "climbs n F (set ts)"
  obtain x where x: "\<forall>c \<in> ?C. unat c < x" using finite_nat_set_iff_bounded[of "unat ` ?C"] by auto
  have b: "below x (climbL n F ts) = climbL n F ts" using x by (intro below_all) simp
  show "ascending (nexts n F ?C (climbL n F ts))" using ascending_nexts[OF assms refl, of x, unfolded b] .
  have "c \<in> (\<lambda>c. parent c F) ` {d \<in> ?C. \<not> root n F d \<and> unat d < x} \<union> set ts \<longleftrightarrow> c \<in> ?C" for c
    using x climbs_cases[of c n F "set ts"] by auto
  then show "set (nexts n F ?C (climbL n F ts)) \<union> set ts = ?C"
    using set_nexts[OF assms refl, of x, unfolded b] by blast
qed

lemma climbs_empty [simp]: "climbs n F {} = {}"
proof -
  have "c \<in> climbs n F {} \<Longrightarrow> False" for c by (induction rule: climbs.induct) auto
  then show ?thesis by blast
qed

lemma climbs_mono: "S \<subseteq> T \<Longrightarrow> c \<in> climbs n F S \<Longrightarrow> c \<in> climbs n F T"
  by (rotate_tac 1, induction rule: climbs.induct) (auto intro: climbs.intros)

lemma climbs_Un: "climbs n F (S \<union> T) = climbs n F S \<union> climbs n F T"
proof (intro equalityI subsetI)
  fix c assume "c \<in> climbs n F (S \<union> T)"
  then show "c \<in> climbs n F S \<union> climbs n F T" by induction (auto intro: climbs.intros)
qed (auto intro: climbs_mono)

lemma needed_Un:
  assumes "set cs = set ts \<union> set us"
  shows "set (needed n F cs) = (set (needed n F ts) \<union> set (needed n F us)) - climbs n F (set cs)"
  unfolding set_needed assms climbs_Un by auto

lemma targets_ok_subset: "targets_ok n F ts \<Longrightarrow> set us \<subseteq> set ts \<Longrightarrow> targets_ok n F us"
  by (auto simp: targets_ok_def)

lemma needed_subset:
  assumes "set us \<subseteq> set ts"
  shows "set (needed n F us) \<subseteq> set (needed n F ts) \<union> climbs n F (set ts)"
  using climbs_mono[OF assms] by (auto simp: set_needed)

section \<open>Slices with the hashes of a labelling\<close>

lemma subtract_labelled:
  assumes "ascending ps" "ascending b"
  shows "subtractSortedHashAndPos (of_pairs (labelled H ps)) b uint64Cmp =
    Inr (of_pairs (labelled H (filter (\<lambda>p. p \<notin> set b) ps)))"
  using subtractSortedHashAndPos_filter[of "labelled H ps" b] assms
  by (simp add: filter_labelled[of "\<lambda>p. p \<notin> set b"] strict_sorted_imp_sorted)

lemma subset_labelled:
  assumes "ascending ps" "ascending b"
  shows "getHashAndPosSubset (of_pairs (labelled H ps)) b =
    Inr (of_pairs (labelled H (filter (\<lambda>p. p \<in> set b) ps)))"
  using getHashAndPosSubset_filter[of "labelled H ps" b] assms
  by (simp add: filter_labelled[of "\<lambda>p. p \<in> set b"])

section \<open>Merging proofs\<close>

lemma AddProof_labelled:
  assumes "targets_ok n F (ts @ us)" "distinct ts" "distinct us" "F = treeRows n"
    "cs = mergeSortedSlicesFunc (sort ts) (sort us) uint64Cmp"
  shows "AddProof \<lparr>Targets = ts, proofHashes = map H (needed n F ts)\<rparr>
      \<lparr>Targets = us, proofHashes = map H (needed n F us)\<rparr> (map H ts) (map H us) n =
    Inr (map H cs, \<lparr>Targets = cs, proofHashes = map H (needed n F cs)\<rparr>)"
proof -
  let ?N = "\<lambda>ts. nexts n F (climbs n F (set ts)) (climbL n F ts)"
  let ?P = "mergeSortedSlicesFunc (needed n F ts) (needed n F us) uint64Cmp"
  let ?K = "mergeSortedSlicesFunc (?N ts) (?N us) uint64Cmp"
  have ok: "targets_ok n F ts" "targets_ok n F us" using assms(1) targets_ok_subset by fastforce+
  have asc: "ascending (sort ts)" "ascending (sort us)" using assms(2,3) by (auto simp: strict_sorted_iff)
  note cs = mergeSortedSlicesFunc_set[OF asc, folded assms(5)]
  have okc: "targets_ok n F cs" using assms(1) cs(1) targets_ok_subset by fastforce
  note P = mergeSortedSlicesFunc_set[OF ascending_needed[OF ok(1)] ascending_needed[OF ok(2)]]
  note K = mergeSortedSlicesFunc_set[OF set_computable(2)[OF ok(1)] set_computable(2)[OF ok(2)]]
  have "filter (\<lambda>p. p \<notin> set cs) (filter (\<lambda>p. p \<notin> set ?K) ?P) = needed n F cs"
  proof (rule strict_sorted_equal)
    have "climbs n F (set cs) = set ?K \<union> set cs"
      using set_computable(1)[OF ok(1)] set_computable(1)[OF ok(2)] cs(1) K(1) by (auto simp: climbs_Un)
    then show "set (filter (\<lambda>p. p \<notin> set cs) (filter (\<lambda>p. p \<notin> set ?K) ?P)) = set (needed n F cs)"
      using needed_Un[of cs ts us] cs(1) P(1) by auto
  qed (auto intro: ascending_filter P(2) ascending_needed[OF okc])
  then show ?thesis
    using proofPositions_sort[OF ok(1) assms(2)] proofPositions_sort[OF ok(2) assms(3)] P(2) K(2) cs(2)
    by (simp add: AddProof_def Let_def copySortedFunc_def assms(4)[symmetric] assms(5)[symmetric] toHashAndPos_labelled
        mergeSortedHashAndPos_pairs merge_labelled subtract_labelled ascending_filter del: filter_filter flip: labelled_eq)
qed

section \<open>Missing positions\<close>

lemma GetMissingPositions_eq:
  assumes "targets_ok n F ts" "distinct ts" "targets_ok n F ds" "distinct ds" "F = treeRows n"
  shows "GetMissingPositions n ts ds =
    Inr (filter (\<lambda>p. p \<notin> set (needed n F ts) \<union> climbs n F (set ts)) (needed n F (filter (\<lambda>d. d \<notin> set ts) ds)))"
proof -
  let ?m = "filter (\<lambda>d. d \<notin> set ts) ds" and ?N = "nexts n F (climbs n F (set ts)) (climbL n F ts)"
  have m: "subtractSortedSlice (sort ds) (sort ts) uint64Cmp = sort ?m"
    using assms(2,4) by (simp add: subtractSortedSlice_filter strict_sorted_iff filter_sort)
  have okm: "targets_ok n F ?m" "distinct ?m" using assms(3,4) targets_ok_subset[OF assms(3)] by auto
  have h: "set (needed n F ts @ sort ts @ ?N) = set (needed n F ts) \<union> climbs n F (set ts)"
    using set_computable(1)[OF assms(1)] by auto
  have "subtractSortedSlice (needed n F ?m) (sort (needed n F ts @ sort ts @ ?N)) uint64Cmp =
    filter (\<lambda>p. p \<notin> set (needed n F ts) \<union> climbs n F (set ts)) (needed n F ?m)"
    using subtractSortedSlice_filter[OF ascending_needed[OF okm(1)], of "sort (needed n F ts @ sort ts @ ?N)"] h
    by (simp del: set_append)
  moreover have "needed n F [] = []" by (simp add: needed_def climbL_def needs_def climbs_empty)
  moreover have "sort ?m = [] \<longleftrightarrow> ?m = []" by (metis set_empty set_sort)
  ultimately show ?thesis
    using proofPositions_sort[OF assms(1,2)] proofPositions_sort[OF okm]
    by (cases "?m = []") (simp_all add: GetMissingPositions_def Let_def m assms(5)[symmetric] del: set_append filter_empty_conv)
qed

section \<open>Subsets of a proof\<close>

lemma slices_Index_some: "v \<in> set xs \<Longrightarrow> \<exists>i < length xs. slices_Index xs v = Some i \<and> xs ! i = v"
  by (induction xs) auto

lemma wantedHashes_labelled:
  "set wants \<subseteq> set ps \<Longrightarrow> wantedHashes (of_pairs (labelled G ps)) wants = Inr (map G wants)"
proof (induction wants)
  case (Cons w wants)
  then obtain i where "i < length ps" "slices_Index ps w = Some i" "ps ! i = w"
    using slices_Index_some[of w ps] by auto
  then show ?case using Cons by simp
qed simp

lemma sorted_filter_mem:
  assumes "ascending ps" "ascending b" "set b \<subseteq> set ps" shows "filter (\<lambda>p. p \<in> set b) ps = b"
  using assms by (intro strict_sorted_equal) (auto intro: ascending_filter)

lemma GetProofSubset_labelled:
  assumes "targets_ok n F ts" "distinct ts" "F = treeRows n" "labels n F (climbs n F (set ts)) H"
    "set wants \<subseteq> set ts" "distinct wants" "map G (sort ts) = map H ts"
  shows "GetProofSubset \<lparr>Targets = ts, proofHashes = map H (needed n F ts)\<rparr> (Some (map H ts)) wants n =
    Inr (map G wants, \<lparr>Targets = wants, proofHashes = map H (needed n F wants)\<rparr>)"
proof -
  let ?M = "mergeSortedSlicesFunc (climbL n F ts) (needed n F ts) uint64Cmp"
  have asc: "ascending (sort ts)" "ascending (sort wants)" using assms(2,6) by (auto simp: strict_sorted_iff)
  have okw: "targets_ok n F wants" using targets_ok_subset[OF assms(1,5)] .
  note aw = ascending_needed[OF okw] and ats = ascending_needed[OF assms(1)]
  note M = mergeSortedSlicesFunc_set[OF climbL_set(2) ats]
  have 1: "subtractSortedSlice (sort wants) (sort ts) uint64Cmp = []"
    using asc assms(5) by (auto simp: subtractSortedSlice_filter strict_sorted_imp_sorted filter_empty_conv)
  have 2: "toHashAndPos (sort ts) (map H ts) = Inr (of_pairs (labelled G (sort ts)))"
    using toHashAndPos_labelled[of "sort ts" G] by (simp add: assms(7) sort_key_id_if_sorted)
  have 3: "calculateHashes n (Some (map H ts)) \<lparr>Targets = ts, proofHashes = map H (needed n F ts)\<rparr> =
    Inr (of_pairs (labelled H (climbL n F ts)), map H (filter (root n F) (climbL n F ts)))"
    by (rule calculateHashes_labelled[OF assms(1-4)]) simp_all
  have 4: "sort_hnp (of_pairs (labelled H (climbL n F ts))) = Inr (of_pairs (labelled H (climbL n F ts)))"
    by (simp add: sort_hnp_pairs sort_labelled sort_key_id_if_sorted strict_sorted_imp_sorted)
  have 5: "toHashAndPos (needed n F ts) (map H (needed n F ts)) = Inr (of_pairs (labelled H (needed n F ts)))"
    using toHashAndPos_labelled[of "needed n F ts" H] ats by (simp add: sort_key_id_if_sorted strict_sorted_imp_sorted)
  have 6: "filter (\<lambda>p. p \<in> set wants) (sort ts) = sort wants"
    using sorted_filter_mem[OF asc] assms(5) by simp
  have 7: "filter (\<lambda>p. p \<in> set (needed n F wants)) ?M = needed n F wants"
    using sorted_filter_mem[OF M(2) aw] needed_subset[OF assms(5), of n F] M(1) by auto
  have 8: "wantedHashes (of_pairs (labelled G (sort wants))) wants = Inr (map G wants)"
    by (rule wantedHashes_labelled) simp
  show ?thesis
    using 6 7 asc
    by (simp add: GetProofSubset_def Let_def copySortedFunc_def assms(3)[symmetric] 1 2 3 4 5 8 mergeSortedHashAndPos_pairs
        merge_labelled subset_labelled M(2) aw proofPositions_sort[OF assms(1,2)] proofPositions_sort[OF okw assms(6)])
qed

end
