(* ===== verification/ForestLeaves.thy ===== *)
theory ForestLeaves
  imports ProofMerge "HOL-Library.Multiset"
begin

text \<open>
  Nodes under a position, and the leaves a deletion removes from a forest: the leaves of the
  deleted subtrees and no others (\<open>delete_leaves\<close>), counted as a multiset.
\<close>

unbundle bit_operations_syntax

section \<open>Nodes under a position\<close>

lemma in_forest_ancestor_row:
  assumes "in_tree N h h o'" "in_tree N g r k" "h < r" "k = o' div 2 ^ (r - h)" shows False
proof -
  have "(k + 1) * 2 ^ r \<le> N" using in_tree_in_forest[OF assms(2)] by (simp add: in_forest_def)
  moreover have "o' div 2 ^ (r - h) = N div 2 ^ r"
  proof -
    have "o' div 2 ^ (r - h) = N div 2 ^ Suc h div 2 ^ (r - Suc h)"
      using assms(1,3) by (simp add: in_tree_def Suc_diff_Suc[symmetric] div_mult2_eq)
    also have "\<dots> = N div 2 ^ r" using assms(3) by (simp add: div_mult2_eq[symmetric] power_add[symmetric] del: power_Suc)
    finally show ?thesis .
  qed
  ultimately show False using assms(4) dividend_less_div_times[of "2 ^ r" N] by simp
qed

lemma ancestor_step:
  assumes "fits n F" "node n F p" "node n F c" "isAncestor p c F"
  shows "\<not> root n F c" "p = parent c F \<or> isAncestor p (parent c F) F"
proof -
  obtain h r k where c: "place n F c h r k" using node_place[OF assms(1,3)] .
  obtain g s u where p: "place n F p g s u" using node_place[OF assms(1,2)] .
  have a: "r < s" "u = k div 2 ^ (s - r)" using place_ancestor[OF assms(1) c p] assms(4) by auto
  show nr: "\<not> root n F c"
    using root_iff(1)[OF assms(1) c] in_forest_ancestor_row[of "unat n" r k g s u] a c p by (auto simp: place_def)
  then have "r < h" using root_iff(1)[OF assms(1) c] place_row(1)[OF assms(1) c] by simp
  note pc = node_parent[OF assms(1) c this]
  show "p = parent c F \<or> isAncestor p (parent c F) F"
  proof (cases "s = Suc r")
    case True
    then show ?thesis using a(2) p pc by (auto simp: place_def)
  next
    case False
    then have "u = k div 2 div 2 ^ (s - Suc r)" "Suc r < s"
      using a by (auto simp: Suc_diff_Suc div_mult2_eq[symmetric] power_Suc[symmetric] simp del: power_Suc)
    then show ?thesis using place_ancestor[OF assms(1) pc p] by simp
  qed
qed

abbreviation under :: "u8 \<Rightarrow> u64 \<Rightarrow> u64 \<Rightarrow> bool" where
  "under F p t \<equiv> t = p \<or> isAncestor p t F"

lemma under_place:
  assumes "fits n F" "place n F t h r k" "place n F p g s u"
  shows "under F p t \<longleftrightarrow> r \<le> s \<and> u = k div 2 ^ (s - r)"
proof (cases "r = s")
  case True
  then have "\<not> isAncestor p t F" using place_ancestor[OF assms] by simp
  moreover have "t = p \<longleftrightarrow> k = u"
    using True assms posn_inject[OF place_row(4)[OF assms(1,2)] place_row(4)[OF assms(1,3)]] 
    by (auto simp: place_def fits_def)
  ultimately show ?thesis using True by auto
next
  case False
  then have "t \<noteq> p"
    using assms posn_inject[OF place_row(4)[OF assms(1,2)] place_row(4)[OF assms(1,3)]] by (auto simp: place_def fits_def)
  then show ?thesis using False place_ancestor[OF assms] by auto
qed

lemma under_child:
  assumes "fits n F" "place n F p h (Suc r) k" "node n F t"
  shows "isAncestor p t F \<longleftrightarrow> under F (leftChild p F) t \<or> under F (rightChild p F) t"
    "\<not> (under F (leftChild p F) t \<and> under F (rightChild p F) t)"
proof -
  obtain g s u where t: "place n F t g s u" using node_place[OF assms(1,3)] .
  note cp = children_place[OF assms(1,2)]
  have d: "u div 2 ^ (Suc r - s) = u div 2 ^ (r - s) div 2" if "s \<le> r"
    using that by (simp add: Suc_diff_le div_mult2_eq[symmetric] mult.commute)
  have o: "(2 * k = x \<or> 2 * k + 1 = x) \<longleftrightarrow> k = x div 2" for x by presburger
  show "isAncestor p t F \<longleftrightarrow> under F (leftChild p F) t \<or> under F (rightChild p F) t"
    unfolding under_place[OF assms(1) t cp(1)] under_place[OF assms(1) t cp(2)] place_ancestor[OF assms(1) t assms(2)]
    using d o[of "u div 2 ^ (r - s)"] by (auto simp: less_Suc_eq_le)
  show "\<not> (under F (leftChild p F) t \<and> under F (rightChild p F) t)"
    unfolding under_place[OF assms(1) t cp(1)] under_place[OF assms(1) t cp(2)] by auto
qed

lemma under_subtree:
  assumes "fits n F" "node n F p" "subtree_at n F Fo t = Some v" "node n F t" "isAncestor p t F"
  shows "\<exists>a b. subtree_at n F Fo p = Some (Node a b)"
  using assms(3-5)
proof (induction "unat (- 1 :: u64) - unat t" arbitrary: t v rule: less_induct)
  case less
  note s = ancestor_step[OF assms(1,2) less.prems(2,3)] and pn = parent_node[OF assms(1) less.prems(2)]
  obtain a b where ab: "subtree_at n F Fo (parent t F) = Some (Node a b)"
    using subtree_at_up[OF assms(1) less.prems(2) s(1) less.prems(1)] by metis
  have "unat (- 1 :: u64) - unat (parent t F) < unat (- 1 :: u64) - unat t"
    using pn(2)[OF s(1)] word_le_nat_alt[of "parent t F" "- 1"] by (simp add: word_less_nat_alt)
  then show ?case using s(2) ab less.hyps[of "parent t F"] pn(1)[OF s(1)] by blast
qed

lemma subtree_children:
  assumes "fits n F" "place n F p h (Suc r) k" "subtree_at n F Fo p = Some (Node a b)"
  shows "subtree_at n F Fo (leftChild p F) = Some a" "subtree_at n F Fo (rightChild p F) = Some b"
proof -
  note cp = children_place[OF assms(1,2)]
  have d: "h - r = Suc (h - Suc r)" using place_row(1)[OF assms(1,2)] by simp
  obtain u where "Fo h = Some u" "sub u (h - Suc r) k = Some (Node a b)"
    using assms(3) unfolding subtree_at_place[OF assms(1,2)] by (auto simp: bind_eq_Some_conv)
  then show "subtree_at n F Fo (leftChild p F) = Some a" "subtree_at n F Fo (rightChild p F) = Some b"
    unfolding subtree_at_place[OF assms(1) cp(1)] subtree_at_place[OF assms(1) cp(2)] d by auto
qed

section \<open>The leaves a deletion removes\<close>

primrec leavesO :: "utree option \<Rightarrow> Hash list" where
  "leavesO None = []"
| "leavesO (Some t) = leaves t"

lemma leavesO_join: "leavesO (join a b) = leavesO a @ leavesO b"
  by (cases a; cases b) auto

lemma prune_leaves:
  assumes "fits n F" "finite D" "\<forall>t \<in> D. node n F t" "\<forall>s \<in> D. \<forall>t \<in> D. \<not> isAncestor s t F"
  shows "place n F p h r k \<Longrightarrow> height u \<le> r \<Longrightarrow> subtree_at n F Fo p = Some u \<Longrightarrow>
    mset (leaves u) = mset (leavesO (prune D F p u)) +
      (\<Sum>t \<in> {t \<in> D. under F p t}. mset (leavesO (subtree_at n F Fo t)))"
proof (induction u arbitrary: p r k)
  case (Tip x)
  show ?case
  proof (cases "p \<in> D")
    case True
    then have "{t \<in> D. under F p t} = {p}" using assms(4) by auto
    then show ?thesis using Tip.prems(3) True by simp
  next
    case False
    have "subtree_at n F Fo t = None" if "t \<in> D" "isAncestor p t F" for t
      using under_subtree[OF assms(1) place_row(7)[OF assms(1) Tip.prems(1)], of Fo t] that assms(3) Tip.prems(3) by fastforce
    then have "(\<Sum>t \<in> {t \<in> D. under F p t}. mset (leavesO (subtree_at n F Fo t))) = {#}"
      using False by (intro sum.neutral) auto
    then show ?thesis using False by simp
  qed
next
  case (Node a b)
  show ?case
  proof (cases "p \<in> D")
    case True
    then have "{t \<in> D. under F p t} = {p}" using assms(4) by auto
    then show ?thesis using Node.prems(3) True by simp
  next
    case False
    obtain s where s: "r = Suc s" using Node.prems(2) by (cases r) auto
    let ?l = "leftChild p F" and ?r = "rightChild p F"
    note pl = Node.prems(1)[unfolded s] and cp = children_place[OF assms(1) Node.prems(1)[unfolded s]]
    have sub: "subtree_at n F Fo ?l = Some a" "subtree_at n F Fo ?r = Some b"
      using subtree_children[OF assms(1) pl Node.prems(3)] by auto
    have "{t \<in> D. under F p t} = {t \<in> D. under F ?l t} \<union> {t \<in> D. under F ?r t}"
      using under_child(1)[OF assms(1) pl] assms(3) False by auto
    moreover have "{t \<in> D. under F ?l t} \<inter> {t \<in> D. under F ?r t} = {}"
      using under_child(2)[OF assms(1) pl] assms(3) by auto
    ultimately have "(\<Sum>t \<in> {t \<in> D. under F p t}. mset (leavesO (subtree_at n F Fo t))) =
      (\<Sum>t \<in> {t \<in> D. under F ?l t}. mset (leavesO (subtree_at n F Fo t))) +
      (\<Sum>t \<in> {t \<in> D. under F ?r t}. mset (leavesO (subtree_at n F Fo t)))"
      using assms(2) by (simp add: sum.union_disjoint)
    then show ?thesis
      using Node.IH(1)[OF cp(1) _ sub(1)] Node.IH(2)[OF cp(2) _ sub(2)] Node.prems(2) False s by (simp add: leavesO_join)
  qed
qed

lemma mset_forest_leaves:
  "mset (forest_leaves n Fo) = (\<Sum>h \<in> set (rows n). mset (leavesO (Fo h)))"
proof -
  have "mset (concat (map (\<lambda>h. case Fo h of None \<Rightarrow> [] | Some t \<Rightarrow> leaves t) hs)) =
    (\<Sum>h \<in> set hs. mset (leavesO (Fo h)))" if "distinct hs" for hs
    using that by (induction hs) (auto split: option.splits)
  then show ?thesis using distinct_rows by (simp add: forest_leaves_def)
qed

lemma under_root:
  assumes "fits n F" "place n F t g s u" "bit n h"
  shows "under F (rootPosition n (of_nat h) F) t \<longleftrightarrow> h = g"
proof -
  have "under F (rootPosition n (of_nat h) F) t \<longleftrightarrow> in_tree (unat n) h s u"
    unfolding under_place[OF assms(1,2) root_place[OF assms(1,3)]] using assms(3) by (auto simp: in_tree_def bit_unat_iff)
  then show ?thesis using in_tree_unique[of "unat n" h s u g] assms(2) by (auto simp: place_def)
qed

lemma delete_leaves:
  assumes "targets_ok n F ts" "distinct ts" "forest_ok n Fo"
  shows "mset (forest_leaves n Fo) = mset (forest_leaves n (delete n F (set ts) Fo)) +
    mset (concat (map (\<lambda>t. leavesO (subtree_at n F Fo t)) ts))"
proof -
  let ?U = "\<lambda>h. {t \<in> set ts. under F (rootPosition n (of_nat h) F) t}"
  let ?m = "\<lambda>t. mset (leavesO (subtree_at n F Fo t))"
  have f: "fits n F" "\<forall>t \<in> set ts. node n F t" "\<forall>s \<in> set ts. \<forall>t \<in> set ts. \<not> isAncestor s t F"
    using assms(1) by (auto simp: targets_ok_def)
  have tree: "mset (leavesO (Fo h)) = mset (leavesO (delete n F (set ts) Fo h)) + sum ?m (?U h)" if h: "bit n h" for h
  proof (cases "Fo h")
    case None
    have "subtree_at n F Fo t = None" if "t \<in> ?U h" for t
    proof -
      obtain g s u where t: "place n F t g s u" using node_place[OF f(1)] f(2) \<open>t \<in> ?U h\<close> by blast
      then have "g = h" using under_root[OF f(1) t h] \<open>t \<in> ?U h\<close> by simp
      then show ?thesis using subtree_at_place[OF f(1) t] None by simp
    qed
    then show ?thesis using None by (simp add: delete_def)
  next
    case (Some u)
    then show ?thesis
      using prune_leaves[OF f(1) finite_set f(2,3) root_place[OF f(1) h], of u Fo] forest_okD[OF assms(3) h Some]
        subtree_at_root[OF f(1) h] by (simp add: delete_def)
  qed
  have disj: "?U h \<inter> ?U h' = {}" if "bit n h" "bit n h'" "h \<noteq> h'" for h h'
  proof (intro equals0I)
    fix t assume t: "t \<in> ?U h \<inter> ?U h'"
    obtain g s u where p: "place n F t g s u" using node_place[OF f(1)] f(2) t by blast
    show False using under_root[OF f(1) p that(1)] under_root[OF f(1) p that(2)] t that(3) by auto
  qed
  have un: "set ts = (\<Union>h \<in> set (rows n). ?U h)"
  proof (intro equalityI subsetI)
    fix t assume t: "t \<in> set ts"
    obtain g s u where p: "place n F t g s u" using node_place[OF f(1)] f(2) t by blast
    then have "bit n g" by (simp add: place_def in_tree_def bit_unat_iff)
    then show "t \<in> (\<Union>h \<in> set (rows n). ?U h)" using under_root[OF f(1) p] t by (auto simp: rows_iff)
  qed auto
  have "sum ?m (\<Union>h \<in> set (rows n). ?U h) = (\<Sum>h \<in> set (rows n). sum ?m (?U h))"
    using disj by (intro sum.UNION_disjoint) (auto simp: rows_iff)
  then have "sum ?m (set ts) = (\<Sum>h \<in> set (rows n). sum ?m (?U h))"
    unfolding un[symmetric] .
  moreover have "mset (concat (map (\<lambda>t. leavesO (subtree_at n F Fo t)) xs)) = sum ?m (set xs)" if "distinct xs" for xs
    using that by (induction xs) auto
  ultimately show ?thesis
    using tree assms(2) by (simp add: mset_forest_leaves rows_iff sum.distrib)
qed

end
