(* ===== verification/SingleProof.thy ===== *)
theory SingleProof
  imports ProofLimits ForestLeaves
begin

text \<open>
  \<open>proofPosition\<close> of \<open>utils.go\<close> walks from one position to its root; it returns the positions
  that \<open>proofPositions\<close> returns for that position alone.
\<close>

unbundle bit_operations_syntax

section \<open>The proof of a single position\<close>

lemma climbs_step:
  assumes "\<not> root n F t" shows "climbs n F {t} = insert t (climbs n F {parent t F})"
proof (intro equalityI subsetI)
  fix c assume "c \<in> climbs n F {t}"
  then show "c \<in> insert t (climbs n F {parent t F})" by induction (auto intro: climbs.intros)
next
  fix c assume "c \<in> insert t (climbs n F {parent t F})"
  moreover have "d \<in> climbs n F {parent t F} \<Longrightarrow> d \<in> climbs n F {t}" for d
    by (induction rule: climbs.induct) (use assms in \<open>auto intro: climbs.intros\<close>)
  ultimately show "c \<in> climbs n F {t}" by (auto intro: climbs.intros)
qed

lemma climbs_at_root:
  assumes "root n F t" shows "climbs n F {t} = {t}"
proof (intro equalityI subsetI)
  fix c assume "c \<in> climbs n F {t}"
  then show "c \<in> {t}" by induction (use assms in auto)
qed (auto intro: climbs.intros)

lemma climbs_ge:
  assumes "fits n F" "node n F t" "c \<in> climbs n F {t}" shows "t \<le> c"
  using assms(3)
proof induction
  case (up p)
  then show ?case
    using parent_node(2)[OF assms(1) climbs_node[OF assms(1) _ up(1)] up(2)] assms(2) by auto
qed simp

lemma climbL_single:
  assumes "fits n F" "node n F t"
  shows "climbL n F [t] = (if root n F t then [t] else t # climbL n F [parent t F])"
proof (cases "root n F t")
  case False
  note pn = parent_node[OF assms False]
  have "climbL n F [t] = t # climbL n F [parent t F]"
  proof (rule strict_sorted_equal)
    show "ascending (t # climbL n F [parent t F])"
      using climbs_ge[OF assms(1) pn(1)] pn(2) by fastforce
  qed (use climbs_step[OF False] in auto)
  then show ?thesis using False by simp
qed (simp add: climbL_def climbs_at_root)

lemma needed_single:
  assumes "fits n F" "node n F t"
  shows "needed n F [t] = (if root n F t then [] else sibling t # needed n F [parent t F])"
proof -
  have e: "needed n F [t] = map sibling (filter (\<lambda>c. \<not> root n F c) (climbL n F [t]))" if nd: "node n F t" for t
  proof -
    obtain h r k where p: "place n F t h r k" using node_place[OF assms(1) nd] .
    show ?thesis unfolding needed_def needs_def
      using single_sibling[OF assms(1) p] by (intro arg_cong[of _ _ "map sibling"] filter_cong) auto
  qed
  show ?thesis
    using e[OF assms(2)] e[OF parent_node(1)[OF assms]] climbL_single[OF assms] by simp
qed

lemma proofPosition_loop_eq:
  assumes "fits n F"
  shows "node n F t \<Longrightarrow> proofPosition_loop n F t (detectRow t F) acc = Some (acc @ needed n F [t])"
proof (induction "unat (- 1 :: u64) - unat t" arbitrary: t acc rule: less_induct)
  case less
  obtain h r k where p: "place n F t h r k" using node_place[OF assms less.prems] .
  note pr = place_row[OF assms p] and b = place_63[OF assms p]
  have row: "detectRow t F \<le> F" using pr(1,2,5) b by (simp add: word_le_nat_alt)
  show ?case
  proof (cases "root n F t")
    case True
    then show ?thesis using row needed_single[OF assms less.prems] by (subst proofPosition_loop.simps) simp
  next
    case False
    note pn = parent_node[OF assms less.prems False]
    have "r < h" using root_iff(1)[OF assms p] False pr(1) by simp
    then have "detectRow (parent t F) F = detectRow t F + 1"
      using place_row(5)[OF assms node_parent[OF assms p]] pr(5) by (simp add: add.commute)
    moreover have "unat (- 1 :: u64) - unat (parent t F) < unat (- 1 :: u64) - unat t"
      using pn(2) word_le_nat_alt[of "parent t F" "- 1"] by (simp add: word_less_nat_alt)
    ultimately show ?thesis
      using less.hyps[of "parent t F" "acc @ [sibling t]"] pn(1) row False needed_single[OF assms less.prems]
      by (subst proofPosition_loop.simps) simp
  qed
qed

lemma proofPosition_eq:
  assumes "fits n F" "node n F t"
  shows "proofPosition t n F = Inr (needed n F [t])"
  using proofPosition_loop_eq[OF assms, of "[]"] by (simp add: proofPosition_def)

lemma single_ok: "fits n F \<Longrightarrow> node n F t \<Longrightarrow> targets_ok n F [t]"
  using node_place[of n F t] place_ancestor[of n F t] by (fastforce simp: targets_ok_def)

end
