(* ===== verification/Detwin.thy ===== *)
theory Detwin
  imports SingleProof
begin

text \<open>
  \<open>deTwin\<close> of \<open>utils.go\<close> replaces two siblings by their parent until no two siblings are left. It
  keeps the positions sorted and none under another, and the leaves they cover.
\<close>

unbundle bit_operations_syntax

section \<open>Detwinning\<close>

lemma rightSib_sibling: "rightSib p \<noteq> p \<Longrightarrow> rightSib p = sibling p \<and> unat (rightSib p) = Suc (unat p)"
proof -
  assume a: "rightSib p \<noteq> p"
  have "\<not> bit p 0"
  proof
    assume "bit p 0"
    then have "p OR 1 = p" by (intro bit_eqI) (auto simp: bit_or_iff bit_1_iff)
    then show False using a by (simp add: rightSib_def)
  qed
  then have "n \<noteq> 0" if "bit p n" for n using that by (cases n) auto
  then have "p OR 1 = p XOR 1" by (intro bit_eqI) (auto simp: bit_or_iff bit_xor_iff bit_1_iff)
  then show ?thesis using a rightSib_cases[of p] by (simp add: rightSib_def sibling_def)
qed

lemma root_no_twin:
  assumes "fits n F" "node n F p" "node n F (rightSib p)" "rightSib p \<noteq> p" shows "\<not> root n F p"
proof
  assume r: "root n F p"
  obtain h r k where p: "place n F p h r k" using node_place[OF assms(1,2)] .
  obtain g s u where q: "place n F (rightSib p) g s u" using node_place[OF assms(1,3)] .
  have rh: "r = h" using root_iff(1)[OF assms(1) p] r by simp
  note pp = place_row[OF assms(1) p] and qq = place_row[OF assms(1) q]
  have sib: "rowStart (unat F) s + u = rowStart (unat F) r + k + 1"
    using rightSib_sibling[OF assms(4)] pp(6) qq(6) by simp
  have k: "k = 2 * (unat n div 2 ^ Suc h)" "k < 2 ^ (unat F - r)" "u < 2 ^ (unat F - s)"
    using p rh pp(4) qq(4) by (auto simp: place_def in_tree_def valid_pos_def)
  have kn: "k + 1 = unat n div 2 ^ h"
  proof -
    have "bit (unat n) h" using p by (simp add: place_def in_tree_def)
    then have "odd (unat n div 2 ^ h)" by (simp add: bit_iff_odd)
    moreover have "unat n div 2 ^ Suc h = unat n div 2 ^ h div 2" by (simp add: div_mult2_eq[symmetric] mult.commute)
    moreover have "odd x \<Longrightarrow> 2 * (x div 2) + 1 = x" for x :: nat by presburger
    ultimately show ?thesis using k(1) by metis
  qed
  consider "s < r" | "s = r" | "r < s" by linarith
  then show False
  proof cases
    case 1
    then have "rowStart (unat F) (Suc s) \<le> rowStart (unat F) r" "rowStart (unat F) (Suc s) = rowStart (unat F) s + 2 ^ (unat F - s)"
      using rowStart_mono[of "Suc s" r "unat F"] rowStart_Suc[of s "unat F"] pp(1,2) by simp_all
    then show False using sib k(3) by simp
  next
    case 2
    then have "u = k + 1" using sib by simp
    then show False
      using q 2 kn rh in_tree_in_forest[of "unat n" g s u] by (simp add: place_def in_forest_div)
  next
    case 3
    then have rF: "r < unat F" using qq(1,2) by simp
    have "rowStart (unat F) (Suc r) \<le> rowStart (unat F) s" "rowStart (unat F) (Suc r) = rowStart (unat F) r + 2 ^ (unat F - r)"
      using rowStart_mono[of "Suc r" s "unat F"] rowStart_Suc[of r "unat F"] 3 qq(1,2) by simp_all
    then have "k + 1 = 2 ^ (unat F - r)" using sib k(2) by linarith
    moreover have "even k" using k(1) by simp
    moreover have "even ((2::nat) ^ (unat F - r))" using rF by simp
    ultimately show False by presburger
  qed
qed

lemma sibling_right: "rightSib p \<noteq> p \<or> rightSib (sibling p) \<noteq> sibling p"
proof (rule ccontr)
  assume "\<not> ?thesis"
  then have "bit (p OR 1) 0 = bit p 0" "bit ((p XOR 1) OR 1) 0 = bit (p XOR 1) 0" by (simp_all add: rightSib_def sibling_def)
  then show False by (auto simp: bit_or_iff bit_xor_iff bit_1_iff)
qed

lemma set_minus_two: "ascending (xs @ p # q # zs) \<Longrightarrow> set (xs @ zs) = set (xs @ p # q # zs) - {p, q}"
  by (auto simp: sorted_wrt_append)

text \<open>What detwinning keeps: the positions are nodes in ascending order, none lies under another,
  and the ones before index \<open>i\<close> have no sibling among them.\<close>

definition detwinned :: "u64 \<Rightarrow> u8 \<Rightarrow> u64 list \<Rightarrow> nat \<Rightarrow> bool" where
  "detwinned n F ds i \<longleftrightarrow> targets_ok n F ds \<and> ascending ds \<and>
     (\<forall>j < i. j < length ds \<longrightarrow> sibling (ds ! j) \<notin> set ds)"

lemma ancestor_antisym:
  assumes "fits n F" "node n F p" "node n F q" "isAncestor p q F" shows "q < p"
proof -
  obtain h r k where p: "place n F p h r k" using node_place[OF assms(1,2)] .
  obtain g s u where q: "place n F q g s u" using node_place[OF assms(1,3)] .
  show ?thesis using place_ancestor[OF assms(1) q p] assms(4) node_less_iff[OF assms(1) q p] by simp
qed

lemma parent_under:
  assumes "fits n F" "node n F p" "\<not> root n F p" "node n F q"
  shows "isAncestor (parent p F) q F \<longleftrightarrow> under F p q \<or> under F (sibling p) q"
proof -
  obtain h r k where a: "place n F p h r k" "r < h" using inner[OF assms(1-3)] .
  show ?thesis
    using under_child(1)[OF assms(1) node_parent[OF assms(1) a] assms(4)] children_of_parent[OF assms(1-3)] by auto
qed

lemma parent_antichain:
  assumes "targets_ok n F ds" "p \<in> set ds" "\<not> root n F p" "sibling p \<in> set ds" "q \<in> set ds" "q \<noteq> p" "q \<noteq> sibling p"
  shows "\<not> isAncestor (parent p F) q F" "\<not> isAncestor q (parent p F) F" "q \<noteq> parent p F"
proof -
  have f: "fits n F" "\<forall>t \<in> set ds. node n F t" "\<forall>s \<in> set ds. \<forall>t \<in> set ds. \<not> isAncestor s t F"
    using assms(1) by (auto simp: targets_ok_def)
  have nd: "node n F p" "node n F q" using f(2) assms(2,5) by auto
  show "\<not> isAncestor (parent p F) q F"
    using parent_under[OF f(1) nd(1) assms(3) nd(2)] f(3) assms(2,4-7) by auto
  have pp: "isAncestor (parent p F) p F" using parent_ancestor[OF f(1) nd(1,1) assms(3)] by simp
  then show "q \<noteq> parent p F" using f(3) assms(2,5) by auto
  show "\<not> isAncestor q (parent p F) F"
  proof
    assume "isAncestor q (parent p F) F"
    note pn = parent_node(1)[OF f(1) nd(1) assms(3)]
    obtain h r k where P: "place n F p h r k" "r < h" using inner[OF f(1) nd(1) assms(3)] .
    obtain g s u where Q: "place n F q g s u" using node_place[OF f(1) nd(2)] .
    have "Suc r < s" "u = k div 2 div 2 ^ (s - Suc r)"
      using \<open>isAncestor q (parent p F) F\<close> place_ancestor[OF f(1) node_parent[OF f(1) P] Q] by auto
    then have "r < s" "u = k div 2 ^ (s - r)"
      by (auto simp: Suc_diff_Suc div_mult2_eq[symmetric] power_Suc[symmetric] simp del: power_Suc)
    then show False using place_ancestor[OF f(1) P(1) Q] f(3) assms(2,5) by auto
  qed
qed

lemma sibling_near: "unat (sibling p) \<le> unat p + 1" "unat p \<le> unat (sibling p) + 1"
  using rightSib_sibling[of p] rightSib_sibling[of "sibling p"] sibling_right[of p] by auto

definition covered :: "u64 \<Rightarrow> u8 \<Rightarrow> u64 list \<Rightarrow> u64 set" where
  "covered n F ds = {t. t < n \<and> (\<exists>d \<in> set ds. under F d t)}"

lemma twin_covered:
  assumes "fits n F" "node n F p" "\<not> root n F p" "set ds' = insert (parent p F) (set ds - {p, sibling p})"
    "p \<in> set ds" "sibling p \<in> set ds"
  shows "covered n F ds' = covered n F ds"
proof -
  obtain h r k where a: "place n F p h r k" "r < h" using inner[OF assms(1-3)] .
  note pr = place_row[OF assms(1) node_parent[OF assms(1) a]]
  have "2 ^ unat F \<le> rowStart (unat F) (Suc r)"
    using rowStart_mono[of 1 "Suc r" "unat F"] rowStart_Suc[of 0 "unat F"] pr(1,2) by simp
  then have ge: "n \<le> parent p F" using pr(6) assms(1) by (simp add: word_le_nat_alt fits_def)
  have "(\<exists>d \<in> set ds'. under F d t) \<longleftrightarrow> (\<exists>d \<in> set ds. under F d t)" if "t < n" for t
  proof -
    have "node n F t" using that by (simp add: inForest_def)
    moreover have "t \<noteq> parent p F" using that ge by auto
    ultimately have "under F (parent p F) t \<longleftrightarrow> under F p t \<or> under F (sibling p) t"
      using parent_under[OF assms(1-3)] by blast
    then show ?thesis unfolding assms(4) using assms(5,6) by auto
  qed
  then show ?thesis by (auto simp: covered_def)
qed

lemma detwinned_twin:
  assumes "detwinned n F ds i" "i + 1 < length ds" "rightSib (ds ! i) = ds ! (i + 1)"
    "ds' = insertInOrder (take i ds @ drop (i + 2) ds) (parent (ds ! i) F)"
  shows "detwinned n F ds' i" "covered n F ds' = covered n F ds"
    "set ds' = insert (parent (ds ! i) F) (set ds - {ds ! i, sibling (ds ! i)})" "\<not> root n F (ds ! i)" "sibling (ds ! i) \<in> set ds"
proof -
  define p xs zs where pxz: "p = ds ! i" "xs = take i ds" "zs = drop (i + 2) ds"
  have ok: "targets_ok n F ds" "ascending ds" "\<forall>j < i. j < length ds \<longrightarrow> sibling (ds ! j) \<notin> set ds"
    using assms(1) by (auto simp: detwinned_def)
  have f: "fits n F" "\<forall>t \<in> set ds. node n F t" using ok(1) by (auto simp: targets_ok_def)
  have "p < ds ! (i + 1)" using ok(2) assms(2) by (simp add: pxz sorted_wrt_iff_nth_less)
  then have ne: "rightSib p \<noteq> p" using assms(3) by (simp add: pxz)
  have sp: "ds ! (i + 1) = sibling p" using rightSib_sibling[OF ne] assms(3) by (simp add: pxz)
  have ds: "ds = xs @ p # sibling p # zs"
    using assms(2) id_take_nth_drop[of i ds] Cons_nth_drop_Suc[of "Suc i" ds] sp by (simp add: pxz)
  have mem: "p \<in> set ds" "sibling p \<in> set ds" using assms(2) sp[symmetric] by (simp_all add: pxz)
  then have nr: "\<not> root n F p"
    using root_no_twin[OF f(1) _ _ ne] f(2) rightSib_sibling[OF ne] by simp
  note pn = parent_node[OF f(1) _ nr]
  have asc1: "ascending (xs @ zs)" using ok(2) unfolding ds by (auto simp: sorted_wrt_append)
  have rest: "set (xs @ zs) = set ds - {p, sibling p}"
    using set_minus_two[of xs p "sibling p" zs] ok(2) unfolding ds by blast
  have par: "parent p F \<notin> set ds" using target_not_parent[OF ok(1) climbs.target[OF mem(1)] nr] .
  have ds': "ds' = insertInOrder (xs @ zs) (parent p F)" using assms(4) by (simp add: pxz)
  have set': "set ds' = insert (parent p F) (set ds - {p, sibling p})"
    using insertInOrder_sorted(2)[of "xs @ zs" "parent p F"] asc1 rest by (simp add: ds' strict_sorted_imp_sorted)
  then show "set ds' = insert (parent (ds ! i) F) (set ds - {ds ! i, sibling (ds ! i)})" by (simp add: pxz)
  show "\<not> root n F (ds ! i)" "sibling (ds ! i) \<in> set ds" using nr mem(2) by (simp_all add: pxz)
  show "covered n F ds' = covered n F ds" using twin_covered[OF f(1) _ nr set' mem] f(2) mem(1) by blast
  have asc': "ascending ds'"
    unfolding ds' by (rule insertInOrder_ascending[OF asc1]) (use rest par in auto)
  have ok': "targets_ok n F ds'"
    using parent_antichain[OF ok(1) mem(1) nr mem(2)] ok(1) pn f mem(1) ancestor_antisym[OF f(1), of "parent p F" "parent p F"]
    unfolding targets_ok_def set' by auto
  have pre: "ds' ! j = ds ! j \<and> sibling (ds ! j) \<notin> set ds'" if j: "j < i" for j
  proof -
    have jl: "j < length ds" "j < length xs" using j assms(2) by (simp_all add: pxz)
    have lt: "x < p" if "x \<in> set xs" for x using ok(2) that unfolding ds by (auto simp: sorted_wrt_append)
    obtain us vs where uv: "xs @ zs = us @ vs" "ds' = us @ parent p F # vs" "\<forall>y \<in> set vs. parent p F < y"
      unfolding ds' using insertInOrder_parts[OF strict_sorted_imp_sorted[OF asc1], of "parent p F"] by metis
    have "length xs \<le> length us"
    proof (rule ccontr)
      assume "\<not> ?thesis"
      then have l: "length us < length xs" by simp
      moreover have "length us + length vs = length xs + length zs" using uv(1) by (metis length_append)
      ultimately have "vs \<noteq> []" by auto
      then have "hd vs = xs ! length us" using l arg_cong[OF uv(1), of "\<lambda>l. l ! length us"] by (simp add: nth_append hd_conv_nth)
      moreover have "parent p F < hd vs" using uv(3) \<open>vs \<noteq> []\<close> by simp
      ultimately have "hd vs < p" "parent p F < hd vs" using lt l by simp_all
      then show False using pn(2) f(2) mem(1) by (meson less_asym less_trans)
    qed
    then have "ds' ! j = (xs @ zs) ! j" using uv jl(2) by (simp add: nth_append)
    also have "\<dots> = ds ! j" using jl(2) unfolding ds by (simp add: nth_append)
    finally have e: "ds' ! j = ds ! j" .
    have "ds ! j \<in> set xs" using jl(2) unfolding ds by (simp add: nth_append)
    then have "unat (ds ! j) < unat p" "unat p < unat (parent p F)" using lt pn(2) f(2) mem(1) by (auto simp: word_less_nat_alt)
    then have "sibling (ds ! j) \<noteq> parent p F" using sibling_near(1)[of "ds ! j"] by auto
    then show ?thesis using e set' ok(3) j jl(1) by auto
  qed
  then show "detwinned n F ds' i" using ok' asc' by (auto simp: detwinned_def)
qed

lemma detwinned_skip:
  assumes "detwinned n F ds i" "i < length ds" "\<not> (i + 1 < length ds \<and> rightSib (ds ! i) = ds ! (i + 1))"
  shows "detwinned n F ds (i + 1)"
proof -
  have ok: "targets_ok n F ds" "ascending ds" "\<forall>j < i. sibling (ds ! j) \<notin> set ds"
    using assms(1,2) by (auto simp: detwinned_def)
  have "sibling (ds ! i) \<notin> set ds"
  proof
    assume "sibling (ds ! i) \<in> set ds"
    then obtain j where j: "j < length ds" "ds ! j = sibling (ds ! i)" by (auto simp: in_set_conv_nth)
    consider "j < i" | "j = i" | "i < j" by linarith
    then show False
    proof cases
      case 1
      then have "sibling (ds ! j) \<notin> set ds" using ok(3) by simp
      then show False using j(2) assms(2) by simp
    next
      case 2
      then show False using j(2) sibling_neq[of "ds ! i"] by simp
    next
      case 3
      have lt: "ds ! a < ds ! b" if "a < b" "b < length ds" for a b using ok(2) that by (simp add: sorted_wrt_iff_nth_less)
      have "j = i + 1"
      proof (rule ccontr)
        assume "j \<noteq> i + 1"
        then have "unat (ds ! i) < unat (ds ! (i + 1))" "unat (ds ! (i + 1)) < unat (ds ! j)"
          using lt[of i "i + 1"] lt[of "i + 1" j] 3 j(1) by (auto simp: word_less_nat_alt)
        then show False using sibling_near(1)[of "ds ! i"] j(2) by simp
      qed
      moreover have "unat (ds ! i) < unat (sibling (ds ! i))" using lt[of i j] 3 j by (simp add: word_less_nat_alt)
      then have "rightSib (ds ! i) = sibling (ds ! i)"
        using rightSib_sibling[of "sibling (ds ! i)"] sibling_right[of "ds ! i"] rightSib_sibling[of "ds ! i"] by fastforce
      ultimately show False using assms(3) j by simp
    qed
  qed
  then show ?thesis using ok assms(1) by (auto simp: detwinned_def less_Suc_eq)
qed

lemma deTwin_loop_spec:
  "detwinned n F ds i \<Longrightarrow> detwinned n F (deTwin_loop ds F i) (length (deTwin_loop ds F i)) \<and>
     covered n F (deTwin_loop ds F i) = covered n F ds"
proof (induction ds F i rule: deTwin_loop.induct)
  case (1 ds F i)
  show ?case
  proof (cases "i < length ds")
    case True
    show ?thesis
    proof (cases "i + 1 < length ds \<and> rightSib (ds ! i) = ds ! (i + 1)")
      case tw: True
      let ?ds = "insertInOrder (take i ds @ drop (i + 2) ds) (parent (ds ! i) F)"
      note t = detwinned_twin[OF "1.prems" conjunct1[OF tw] conjunct2[OF tw] refl]
      have "deTwin_loop ds F i = deTwin_loop ?ds F i" using True tw by (subst deTwin_loop.simps) (simp add: Let_def)
      then show ?thesis using "1.IH"(1)[OF True tw refl refl refl t(1)] t(2) by simp
    next
      case False
      then have "deTwin_loop ds F i = deTwin_loop ds F (i + 1)" using True by (subst deTwin_loop.simps) auto
      then show ?thesis using "1.IH"(2)[OF True False detwinned_skip[OF "1.prems" True False]] by simp
    qed
  next
    case False
    then have "deTwin_loop ds F i = ds" by (subst deTwin_loop.simps) simp
    then show ?thesis using "1.prems" False by (auto simp: detwinned_def)
  qed
qed

lemma deTwin_spec:
  assumes "targets_ok n F ds" "ascending ds"
  shows "targets_ok n F (deTwin ds F)" "ascending (deTwin ds F)" "covered n F (deTwin ds F) = covered n F ds"
    "d \<in> set (deTwin ds F) \<Longrightarrow> sibling d \<notin> set (deTwin ds F)"
  using deTwin_loop_spec[of n F ds 0] assms unfolding deTwin_def detwinned_def by (auto simp: in_set_conv_nth)

end
