(* ===== verification/Roots.thy ===== *)
theory Roots
  imports Detwin
begin

text \<open>
  The roots of a forest and the trees below them, in the terms of the position functions: the rows
  of the roots in the order of \<open>RootPositions\<close>, the root \<open>getRootPosition\<close> finds, and the index of a
  tree among the trees.
\<close>

unbundle bit_operations_syntax

lemma position_cases:
  assumes "unat F \<le> 63" "unat p < 2 ^ (unat F + 1) - 1"
  obtains r o' where "valid_pos (unat F) r o'" "p = posn (unat F) r o'" "unat (detectRow p F) = r" "r \<le> unat F"
proof -
  obtain r o' where v: "valid_pos (unat F) r o'" "p = posn (unat F) r o'" using posn_exists[OF assms(2,1)] .
  moreover have "r \<le> unat F" using v(1) by (simp add: valid_pos_def)
  moreover have "unat (detectRow p F) = r" using detectRow_posn[OF v(1) assms(1)] v(2) assms(1) calculation(3) by simp
  ultimately show ?thesis using that by blast
qed

lemma RootPositions_rows:
  assumes "fits n F" shows "RootPositions n F = map (\<lambda>h. rootPosition n (of_nat h) F) (rows n)"
proof -
  have f: "unat F \<le> 63" "unat n \<le> 2 ^ unat F" using assms by (auto simp: fits_def)
  have le: "h \<le> unat F" if "bit n h" for h
    using place_row(2)[OF assms root_place[OF assms that]] .
  have "filter (bit n) [0..<Suc (unat F)] = filter (bit n) [0..<64]"
  proof (rule strict_sorted_equal)
    show "set (filter (bit n) [0..<Suc (unat F)]) = set (filter (bit n) [0..<64])"
      using le bit_imp_le_length[of n] f(1) by (auto simp: less_Suc_eq_le simp del: upt_Suc)
  qed (auto intro!: sorted_wrt_filter simp del: upt_Suc)
  then show ?thesis
    unfolding RootPositions_eq[OF f] rows_def
    using le rootPosition_posn[OF _ f] by (auto simp del: upt_Suc)
qed

lemma getRootPosition_place:
  assumes "fits n F" "place n F p h r k"
  shows "getRootPosition p n F = Inr (rootPosition n (of_nat h) F)"
proof -
  have f: "unat F \<le> 63" "unat n \<le> 2 ^ unat F" using assms(1) by (auto simp: fits_def)
  show ?thesis
    using getRootPosition_posn[of n h r k F] f assms place_row(2)[OF assms] rootPosition_posn[OF _ f, of h] by (simp add: place_def)
qed

lemma rows_nth:
  assumes "bit n h" shows "bigger_trees (unat n) h < length (rows n) \<and> rows n ! bigger_trees (unat n) h = h"
proof -
  obtain i where i: "i < length (rows n)" "rows n ! i = h" using assms rows_iff[of h n] by (metis in_set_conv_nth)
  have d: "sorted_wrt (>) (rows n)" using sorted_rows[of n] by (simp add: rows_def sorted_wrt_rev)
  have "{j. h < j \<and> bit (unat n) j} = set (take i (rows n))"
  proof (intro set_eqI iffI)
    fix j assume "j \<in> {j. h < j \<and> bit (unat n) j}"
    then obtain l where l: "l < length (rows n)" "rows n ! l = j" "h < j"
      using rows_iff[of j n] by (auto simp: bit_unat_iff in_set_conv_nth)
    have "l < i"
    proof (rule ccontr)
      assume "\<not> l < i"
      then have "rows n ! l \<le> rows n ! i" using sorted_wrt_nth_less[OF d, of i l] l(1) by (cases "l = i") auto
      then show False using l i by simp
    qed
    then show "j \<in> set (take i (rows n))" using l i by (auto simp: in_set_conv_nth)
  next
    fix j assume "j \<in> set (take i (rows n))"
    then obtain l where l: "l < i" "rows n ! l = j" using i by (auto simp: in_set_conv_nth)
    then have "j \<in> set (rows n)" "h < j" using sorted_wrt_nth_less[OF d, of l i] i by auto
    then show "j \<in> {j. h < j \<and> bit (unat n) j}" by (simp add: rows_iff bit_unat_iff)
  qed
  moreover have "card (set (take i (rows n))) = i"
    using distinct_card[OF distinct_take[OF distinct_rows[of n], of i]] i by simp
  ultimately show ?thesis using i by (simp add: bigger_trees_def)
qed

lemma removeDuplicateUint64Func_loop_subseq:
  "subseq (removeDuplicateUint64Func_loop get ks xs) xs"
  by (induction xs arbitrary: ks) auto

end
