(* ===== verification/PollardTrees.thy ===== *)
theory PollardTrees
  imports PollardBytes Roots
begin

text \<open>
  Trees in the heap of a pollard. \<open>shape\<close> says that a tree lies in the heap, each node pointing to its nieces
  and to its aunt, and the lemmas say what the operations of polnode.go do to such trees.
\<close>

unbundle bit_operations_syntax

section \<open>Fields after an update\<close>

lemma set_fields [simp]:
  "lNiece (setL n x h a) = (if a = n then x else lNiece (h a))" "rNiece (setL n x h a) = rNiece (h a)"
  "aunt (setL n x h a) = aunt (h a)" "data (setL n x h a) = data (h a)" "remember (setL n x h a) = remember (h a)"
  "rNiece (setR n x h a) = (if a = n then x else rNiece (h a))" "lNiece (setR n x h a) = lNiece (h a)"
  "aunt (setR n x h a) = aunt (h a)" "data (setR n x h a) = data (h a)" "remember (setR n x h a) = remember (h a)"
  "aunt (setAunt n x h a) = (if a = n then x else aunt (h a))" "lNiece (setAunt n x h a) = lNiece (h a)"
  "rNiece (setAunt n x h a) = rNiece (h a)" "data (setAunt n x h a) = data (h a)" "remember (setAunt n x h a) = remember (h a)"
  "data (setData n y h a) = (if a = n then y else data (h a))" "lNiece (setData n y h a) = lNiece (h a)"
  "rNiece (setData n y h a) = rNiece (h a)" "aunt (setData n y h a) = aunt (h a)" "remember (setData n y h a) = remember (h a)"
  by (simp_all add: setL_def setR_def setAunt_def setData_def)

lemma set_other:
  "a \<noteq> n \<Longrightarrow> setL n x h a = h a" "a \<noteq> n \<Longrightarrow> setR n x h a = h a" "a \<noteq> n \<Longrightarrow> setAunt n x h a = h a" "a \<noteq> n \<Longrightarrow> setData n y h a = h a"
  by (simp_all add: setL_def setR_def setAunt_def setData_def)

lemma setAunt_same: "aunt (h n) = x \<Longrightarrow> setAunt n x h = h"
  by (auto simp: setAunt_def fun_eq_iff)

section \<open>Trees in the heap\<close>

text \<open>
  A tree with the addresses of its nodes. In the heap the children of a node are the nieces of the
  node's sibling, and the children of a root are its own nieces: \<open>shape h b t\<close> says that the tree
  \<open>t\<close> lies in the heap with \<open>b\<close> the node that points to the children of its root.
\<close>

datatype rtree = RTip ref Hash | RNode ref rtree rtree

primrec rref :: "rtree \<Rightarrow> ref" where
  "rref (RTip a x) = a"
| "rref (RNode a l r) = a"

primrec erase :: "rtree \<Rightarrow> utree" where
  "erase (RTip a x) = Tip x"
| "erase (RNode a l r) = Node (erase l) (erase r)"

primrec refs :: "rtree \<Rightarrow> ref list" where
  "refs (RTip a x) = [a]"
| "refs (RNode a l r) = a # refs l @ refs r"

text \<open>The addresses below the root.\<close>

primrec below_refs :: "rtree \<Rightarrow> ref list" where
  "below_refs (RTip a x) = []"
| "below_refs (RNode a l r) = refs l @ refs r"

primrec shape :: "heap \<Rightarrow> ref \<Rightarrow> rtree \<Rightarrow> bool" where
  "shape h b (RTip a x) \<longleftrightarrow>
     data (h a) = x \<and> lNiece (h b) = None \<and> rNiece (h b) = None"
| "shape h b (RNode a l r) \<longleftrightarrow>
     data (h a) = parentHash (data (h (rref l))) (data (h (rref r))) \<and>
     lNiece (h b) = Some (rref l) \<and> rNiece (h b) = Some (rref r) \<and>
     aunt (h (rref l)) = Some b \<and> aunt (h (rref r)) = Some b \<and>
     shape h (rref r) l \<and> shape h (rref l) r"

definition rooted :: "heap \<Rightarrow> rtree \<Rightarrow> bool" where
  "rooted h t \<longleftrightarrow> shape h (rref t) t \<and> aunt (h (rref t)) = None \<and> distinct (refs t)"

lemma refs_below: "refs t = rref t # below_refs t"
  by (cases t) auto

lemma rref_refs [simp]: "rref t \<in> set (refs t)"
  by (cases t) auto

lemma rref_disjoint:
  assumes "set (refs l) \<inter> set (refs r) = {}"
  shows "rref l \<notin> set (refs r)" "rref r \<notin> set (refs l)" "rref l \<noteq> rref r"
  using assms rref_refs[of l] rref_refs[of r] by (metis disjoint_iff)+

lemma shape_data: "shape h b t \<Longrightarrow> data (h (rref t)) = thash (erase t)"
proof (induction t arbitrary: b)
  case (RNode a l r)
  then have "data (h (rref l)) = thash (erase l)" "data (h (rref r)) = thash (erase r)" by fastforce+
  then show ?case using RNode.prems by simp
qed simp

text \<open>The addresses of the children, which are the only nodes of a tree that know its holder.\<close>

primrec kids :: "rtree \<Rightarrow> ref set" where
  "kids (RTip a x) = {}"
| "kids (RNode a l r) = {rref l, rref r}"

text \<open>What a tree depends on in the heap, and how it gets another holder.\<close>

lemma shape_cong:
  assumes "shape h b t" "distinct (refs t)"
    "\<And>a. a \<in> set (refs t) \<Longrightarrow> data (h' a) = data (h a)"
    "\<And>a. a \<in> set (below_refs t) \<Longrightarrow> h' a = h a"
    "lNiece (h' b) = lNiece (h b)" "rNiece (h' b) = rNiece (h b)"
  shows "shape h' b t"
  using assms
proof (induction t arbitrary: b)
  case (RNode a l r)
  have s: "shape h (rref r) l" "shape h (rref l) r" and d: "distinct (refs l)" "distinct (refs r)"
    using RNode.prems by auto
  have e: "h' x = h x" if "x \<in> set (refs l) \<union> set (refs r)" for x using RNode.prems(4)[of x] that by auto
  have "shape h' (rref r) l" by (rule RNode.IH(1)[OF s(1) d(1)]) (auto simp: e refs_below)
  moreover have "shape h' (rref l) r" by (rule RNode.IH(2)[OF s(2) d(2)]) (auto simp: e refs_below)
  ultimately show ?case using RNode.prems(1,3,5,6) e[of "rref l"] e[of "rref r"] by auto
qed auto

lemma shape_move:
  assumes "shape h b t" "distinct (refs t)"
    "\<And>a. a \<in> set (refs t) \<Longrightarrow> data (h' a) = data (h a) \<and> remember (h' a) = remember (h a)"
    "\<And>a. a \<in> set (below_refs t) \<Longrightarrow> lNiece (h' a) = lNiece (h a) \<and> rNiece (h' a) = rNiece (h a)"
    "\<And>a. a \<in> set (below_refs t) \<Longrightarrow> aunt (h' a) = (if a \<in> kids t then Some b' else aunt (h a))"
    "lNiece (h' b') = lNiece (h b)" "rNiece (h' b') = rNiece (h b)"
  shows "shape h' b' t"
proof (cases t)
  case (RNode a l r)
  have s: "shape h (rref r) l" "shape h (rref l) r" and d: "distinct (refs l)" "distinct (refs r)"
    and dis: "set (refs l) \<inter> set (refs r) = {}" using assms(1,2) RNode by auto
  have e: "h' x = h x" if "x \<in> set (below_refs l) \<union> set (below_refs r)" for x
  proof -
    have "x \<in> set (refs l) \<or> x \<in> set (refs r)" "x \<noteq> rref l" "x \<noteq> rref r"
      using that d dis rref_refs[of l] rref_refs[of r] by (auto simp: refs_below)
    then show ?thesis using assms(3)[of x] assms(4)[of x] assms(5)[of x] RNode by (intro polNode.equality) auto
  qed
  have "shape h' (rref r) l"
    using e assms(3,4) RNode by (intro shape_cong[OF s(1) d(1)]) auto
  moreover have "shape h' (rref l) r"
    using e assms(3,4) RNode by (intro shape_cong[OF s(2) d(2)]) auto
  ultimately show ?thesis
    using assms(1,6,7) assms(3)[of a] assms(3)[of "rref l"] assms(3)[of "rref r"] assms(5)[of "rref l"] assms(5)[of "rref r"] RNode by auto
qed (use assms in auto)

lemma shape_frame:
  assumes "shape h b t" "distinct (refs t)" "\<And>a. a \<in> set (refs t) \<Longrightarrow> h' a = h a" "h' b = h b"
  shows "shape h' b t"
  using assms by (intro shape_cong[OF assms(1,2)]) (auto simp: refs_below)

lemma rooted_frame:
  assumes "rooted h t" "\<And>a. a \<in> set (refs t) \<Longrightarrow> h' a = h a" shows "rooted h' t"
  using assms shape_frame[of h "rref t" t h'] by (simp add: rooted_def)

section \<open>updateAunt\<close>

text \<open>A node whose nieces are in order, or that has none.\<close>

definition settled :: "heap \<Rightarrow> ref \<Rightarrow> bool" where
  "settled h n \<longleftrightarrow> lNiece (h n) = None \<and> rNiece (h n) = None \<or> (\<exists>l. lNiece (h n) = Some l \<and> aunt (h l) = Some n)"

lemma updateAunt_settled: "settled h n \<Longrightarrow> updateAunt n h = Some h"
  by (subst updateAunt.simps) (auto simp: settled_def)

lemma updateAunt_pair:
  assumes "lNiece (h n) = Some l" "rNiece (h n) = Some r" "distinct [n, l, r]"
    "settled h l" "settled h r" "lNiece (h l) \<noteq> Some l" "lNiece (h l) \<noteq> Some r" "lNiece (h r) \<noteq> Some l" "lNiece (h r) \<noteq> Some r"
    "aunt (h l) = Some n \<Longrightarrow> aunt (h r) = Some n"
  shows "updateAunt n h = Some (setAunt r (Some n) (setAunt l (Some n) h))"
proof (cases "aunt (h l) = Some n")
  case True
  then have "setAunt r (Some n) (setAunt l (Some n) h) = h" using assms(10) by (simp add: setAunt_same)
  moreover have "settled h n" using True assms(1) by (simp add: settled_def)
  ultimately show ?thesis using updateAunt_settled[of h n] by simp
next
  case False
  define h1 where "h1 = setAunt l (Some n) h"
  define h2 where "h2 = setAunt r (Some n) h1"
  have "settled h1 l" using assms(4,6) unfolding settled_def h1_def by fastforce
  moreover have "settled h2 r" using assms(5,8,9) unfolding settled_def h1_def h2_def by fastforce
  ultimately have u: "updateAunt l h1 = Some h1" "updateAunt r h2 = Some h2" using updateAunt_settled by auto
  have e: "aunt (h1 r) = Some n \<Longrightarrow> h2 = h1" by (simp add: h2_def setAunt_same)
  have f: "lNiece (h1 n) = Some l" "rNiece (h1 n) = Some r" using assms(1,2) by (simp_all add: h1_def)
  have "updateAunt n h = (if aunt (h1 r) = Some n then Some h1 else Some h2)"
    using False u f assms(1) unfolding h2_def h1_def by (subst updateAunt.simps) simp
  then show ?thesis using e unfolding h2_def h1_def by (auto split: if_splits)
qed

lemma shape_settled:
  assumes "shape h b t" shows "settled h b"
  using assms by (cases t) (auto simp: settled_def)

text \<open>The heap in which the nodes of a set have the aunt \<open>b\<close>.\<close>

definition adopt :: "ref \<Rightarrow> ref set \<Rightarrow> heap \<Rightarrow> heap" where
  "adopt b K h = (\<lambda>a. if a \<in> K then (h a)\<lparr>aunt := Some b\<rparr> else h a)"

lemma adopt_fields [simp]:
  "lNiece (adopt b K h a) = lNiece (h a)" "rNiece (adopt b K h a) = rNiece (h a)" "data (adopt b K h a) = data (h a)"
  "remember (adopt b K h a) = remember (h a)" "aunt (adopt b K h a) = (if a \<in> K then Some b else aunt (h a))"
  by (simp_all add: adopt_def)

lemma adopt_other: "a \<notin> K \<Longrightarrow> adopt b K h a = h a" "adopt b {} h = h"
  by (simp_all add: adopt_def)

lemma kids_below: "kids t \<subseteq> set (below_refs t)"
  by (cases t) auto

lemma holder_niece:
  assumes "shape h b t" "lNiece (h b) = Some c" shows "c \<in> set (below_refs t)"
  using assms by (cases t) auto

lemma updateAunt_shape:
  assumes "shape h b t" "distinct (refs t)" "b' \<notin> set (below_refs t)"
    "\<And>a. a \<in> set (below_refs t) \<Longrightarrow> lNiece (h' a) = lNiece (h a) \<and> rNiece (h' a) = rNiece (h a) \<and> aunt (h' a) = aunt (h a)"
    "lNiece (h' b') = lNiece (h b)" "rNiece (h' b') = rNiece (h b)"
  shows "updateAunt b' h' = Some (adopt b' (kids t) h')"
proof (cases t)
  case (RTip a x)
  then have "settled h' b'" using assms by (simp add: settled_def)
  then show ?thesis using updateAunt_settled RTip by (simp add: adopt_other)
next
  case (RNode a l r)
  have s: "shape h (rref r) l" "shape h (rref l) r" and d: "distinct (refs l)" "distinct (refs r)"
    and dis: "set (refs l) \<inter> set (refs r) = {}" using assms(1,2) RNode by auto
  have n: "rref l \<in> set (below_refs t)" "rref r \<in> set (below_refs t)" using RNode by auto
  have u: "c \<in> set (below_refs l)" if "lNiece (h (rref r)) = Some c" for c using holder_niece[OF s(1) that] .
  have v: "c \<in> set (below_refs r)" if "lNiece (h (rref l)) = Some c" for c using holder_niece[OF s(2) that] .
  have bl: "set (below_refs l) \<subseteq> set (below_refs t)" "set (below_refs r) \<subseteq> set (below_refs t)" using RNode by (auto simp: refs_below)
  have ne: "rref l \<notin> set (below_refs l)" "rref r \<notin> set (below_refs r)" "rref l \<notin> set (below_refs r)" "rref r \<notin> set (below_refs l)" "rref l \<noteq> rref r"
    using d dis by (auto simp: refs_below)
  have "settled h (rref l)" "settled h (rref r)" using shape_settled s by auto
  then have st: "settled h' (rref l)" "settled h' (rref r)" using assms(4) n u v bl unfolding settled_def by fastforce+
  have "updateAunt b' h' = Some (setAunt (rref r) (Some b') (setAunt (rref l) (Some b') h'))"
  proof (rule updateAunt_pair[OF _ _ _ st])
    show "lNiece (h' b') = Some (rref l)" "rNiece (h' b') = Some (rref r)" using assms(1,5,6) RNode by auto
    show "distinct [b', rref l, rref r]" using assms(3) n ne by auto
    show "lNiece (h' (rref l)) \<noteq> Some (rref l)" "lNiece (h' (rref l)) \<noteq> Some (rref r)"
      "lNiece (h' (rref r)) \<noteq> Some (rref l)" "lNiece (h' (rref r)) \<noteq> Some (rref r)"
      using assms(4) n u v ne by metis+
    show "aunt (h' (rref r)) = Some b'" if "aunt (h' (rref l)) = Some b'"
      using that assms(1,4) n RNode by auto
  qed
  also have "setAunt (rref r) (Some b') (setAunt (rref l) (Some b') h') = adopt b' (kids t) h'"
    using RNode by (auto simp: setAunt_def adopt_def fun_eq_iff)
  finally show ?thesis .
qed

section \<open>Swapping nieces\<close>

definition swapped :: "ref \<Rightarrow> ref \<Rightarrow> heap \<Rightarrow> heap" where
  "swapped a b h = setR b (rNiece (h a)) (setL b (lNiece (h a)) (setR a (rNiece (h b)) (setL a (lNiece (h b)) h)))"

lemma swapNieces_shape:
  assumes "shape h x l" "shape h y t" "x \<noteq> y" "distinct (refs l @ refs t)" "{x, y} = {rref l, rref t}"
    "h1 = adopt y (kids l) (adopt x (kids t) (swapped x y h))"
  shows "swapNieces x y h = Some h1" "shape h1 y l" "shape h1 x t"
    "\<And>a. data (h1 a) = data (h a) \<and> remember (h1 a) = remember (h a)"
    "\<And>a. a \<notin> set (refs l) \<Longrightarrow> a \<notin> set (refs t) \<Longrightarrow> h1 a = h a" "aunt (h1 x) = aunt (h x)" "aunt (h1 y) = aunt (h y)"
proof -
  have d: "distinct (refs l)" "distinct (refs t)" "set (refs l) \<inter> set (refs t) = {}" using assms(4) by auto
  have nb: "x \<notin> set (below_refs l)" "x \<notin> set (below_refs t)" "y \<notin> set (below_refs l)" "y \<notin> set (below_refs t)"
    using d assms(5) rref_refs[of l] rref_refs[of t] by (auto simp: refs_below doubleton_eq_iff)
  have kl: "kids l \<subseteq> set (below_refs l)" "kids t \<subseteq> set (below_refs t)" using kids_below by auto
  have dk: "kids t \<inter> set (below_refs l) = {}" "kids l \<inter> set (below_refs t) = {}" using kl d(3) by (auto simp: refs_below)
  let ?s = "swapped x y h"
  have s: "lNiece (?s a) = (if a = x then lNiece (h y) else if a = y then lNiece (h x) else lNiece (h a))"
    "rNiece (?s a) = (if a = x then rNiece (h y) else if a = y then rNiece (h x) else rNiece (h a))"
    "aunt (?s a) = aunt (h a)" "data (?s a) = data (h a)" "remember (?s a) = remember (h a)" for a
    using assms(3) by (simp_all add: swapped_def)
  have u1: "updateAunt x ?s = Some (adopt x (kids t) ?s)"
    using s nb by (intro updateAunt_shape[OF assms(2) d(2)]) auto
  have u2: "updateAunt y (adopt x (kids t) ?s) = Some h1" unfolding assms(6)
    using s nb dk assms(3) by (intro updateAunt_shape[OF assms(1) d(1)]) auto
  show "swapNieces x y h = Some h1" using u1 u2 unfolding swapNieces_def Let_def swapped_def by simp
  have f: "lNiece (h1 a) = lNiece (?s a)" "rNiece (h1 a) = rNiece (?s a)" "data (h1 a) = data (h a)" "remember (h1 a) = remember (h a)"
    "aunt (h1 a) = (if a \<in> kids l then Some y else if a \<in> kids t then Some x else aunt (h a))" for a
    by (simp_all add: assms(6) s)
  show "shape h1 y l" using f s nb dk assms(3) by (intro shape_move[OF assms(1) d(1)]) auto
  show "shape h1 x t" using f s nb dk by (intro shape_move[OF assms(2) d(2)]) auto
  show "data (h1 a) = data (h a) \<and> remember (h1 a) = remember (h a)" for a using f by simp
  show "aunt (h1 x) = aunt (h x)" "aunt (h1 y) = aunt (h y)" using f nb kl by auto
  show "h1 a = h a" if "a \<notin> set (refs l)" "a \<notin> set (refs t)" for a
  proof -
    have "a \<noteq> x" "a \<noteq> y" "a \<notin> kids l" "a \<notin> kids t" using that assms(5) kl by (auto simp: refs_below doubleton_eq_iff)
    then show ?thesis using f s by (intro polNode.equality) auto
  qed
qed

end
