(* ===== verification/PollardAdd.thy ===== *)
theory PollardAdd
  imports PollardTrees
begin

text \<open>
  The trees of a full pollard (\<open>linked\<close>) and its leaves in the map (\<open>indexed\<close>), and addition: \<open>add\<close> follows the
  insertion of the leaves in the forest (\<open>Pollard_add_linked\<close>).
\<close>

unbundle bit_operations_syntax

section \<open>Merging two trees\<close>

lemma merge_trees:
  assumes "rooted h l" "rooted h t" "set (refs l) \<inter> set (refs t) = {}" "m \<notin> set (refs l)" "m \<notin> set (refs t)"
    "remember (h (rref t))"
  obtains h1 h2 where "swapNieces (rref l) (rref t) h = Some h1"
    "data (h1 (rref l)) = thash (erase l)" "data (h1 (rref t)) = thash (erase t)"
    "updateAunt m (h1(m := \<lparr>lNiece = Some (rref l), rNiece = Some (rref t), aunt = None,
       data = parentHash (thash (erase l)) (thash (erase t)), remember = True\<rparr>)) = Some h2"
    "polNode_prune m h2 = Inr h2" "rooted h2 (RNode m l t)" "remember (h2 m)"
    "\<And>a. a \<notin> set (refs (RNode m l t)) \<Longrightarrow> h2 a = h a"
proof -
  let ?a = "rref l" and ?b = "rref t"
  let ?n = "\<lparr>lNiece = Some ?a, rNiece = Some ?b, aunt = None, data = parentHash (thash (erase l)) (thash (erase t)), remember = True\<rparr>"
  have ab: "?a \<noteq> ?b" "?a \<noteq> m" "?b \<noteq> m" using assms(3-5) rref_refs[of l] rref_refs[of t] by fastforce+
  have sh: "shape h ?a l" "shape h ?b t" and d: "distinct (refs l @ refs t)" "distinct (refs l)" "distinct (refs t)"
    using assms by (auto simp: rooted_def)
  define h1 where "h1 = adopt ?b (kids l) (adopt ?a (kids t) (swapped ?a ?b h))"
  note s = swapNieces_shape[OF sh ab(1) d(1) refl h1_def]
  define h2 where "h2 = h1(m := ?n)"
  define h3 where "h3 = setAunt ?b (Some m) (setAunt ?a (Some m) h2)"
  have nm: "lNiece (h1 ?b) \<noteq> Some m" "lNiece (h1 ?a) \<noteq> Some m" "rNiece (h1 ?b) \<noteq> Some m" "rNiece (h1 ?a) \<noteq> Some m"
    using s(2,3) assms(4,5) by (cases l; cases t; auto)+
  have n2: "lNiece (h1 ?b) \<noteq> Some ?a" "lNiece (h1 ?b) \<noteq> Some ?b" "lNiece (h1 ?a) \<noteq> Some ?a" "lNiece (h1 ?a) \<noteq> Some ?b"
    using holder_niece[OF s(2)] holder_niece[OF s(3)] d assms(3) by (auto simp: refs_below)
  have st: "settled h2 ?a" "settled h2 ?b"
    using shape_settled[OF s(3)] shape_settled[OF s(2)] nm ab unfolding settled_def h2_def by fastforce+
  have u: "updateAunt m h2 = Some h3" unfolding h3_def
  proof (rule updateAunt_pair[OF _ _ _ st])
    show "aunt (h2 ?b) = Some m" if "aunt (h2 ?a) = Some m"
      using that s(6) assms(1) ab by (auto simp: rooted_def h2_def)
  qed (use ab n2 in \<open>auto simp: h2_def\<close>)
  have da: "data (h1 ?a) = thash (erase l)" "data (h1 ?b) = thash (erase t)" using shape_data s(2,3) by auto
  have f: "data (h3 a) = (if a = m then data ?n else data (h1 a))" "remember (h3 a) = (if a = m then True else remember (h1 a))"
    "lNiece (h3 a) = (if a = m then Some ?a else lNiece (h1 a))" "rNiece (h3 a) = (if a = m then Some ?b else rNiece (h1 a))"
    "aunt (h3 a) = (if a = ?a \<or> a = ?b then Some m else if a = m then None else aunt (h1 a))" for a
    by (auto simp: h3_def h2_def)
  have same: "h3 a = h1 a" if "a \<noteq> m" "a \<noteq> ?a" "a \<noteq> ?b" for a using that by (simp add: h3_def h2_def setAunt_def)
  have bl: "a \<noteq> m \<and> a \<noteq> ?a \<and> a \<noteq> ?b" if "a \<in> set (below_refs l) \<union> set (below_refs t)" for a
    using that assms(3-5) d by (auto simp: refs_below)
  have "shape h3 ?b l" using f ab bl same assms(4) by (intro shape_cong[OF s(2) d(2)]) (auto simp: refs_below)
  moreover have "shape h3 ?a t" using f ab bl same assms(5) by (intro shape_cong[OF s(3) d(3)]) (auto simp: refs_below)
  ultimately have r: "rooted h3 (RNode m l t)" using f ab da assms(4,5) d(1) by (simp add: rooted_def)
  have "remember (h3 ?b)" "remember (h3 m)" using f ab s(4) assms(6) by simp_all
  then have p: "polNode_prune m h3 = Inr h3" using f by (simp add: polNode_prune_def deref_def bindR_def)
  have "h3 a = h a" if "a \<notin> set (refs (RNode m l t))" for a
    using that same[of a] s(5)[of a] rref_refs[of l] rref_refs[of t] by fastforce
  then show ?thesis using that[OF s(1) da u[unfolded h2_def] p r \<open>remember (h3 m)\<close>] by blast
qed

section \<open>The trees of a pollard\<close>

definition planted :: "heap \<Rightarrow> ref \<Rightarrow> nat set \<Rightarrow> (nat \<Rightarrow> rtree) \<Rightarrow> bool" where
  "planted h f S T \<longleftrightarrow> (\<forall>i \<in> S. rooted h (T i) \<and> set (refs (T i)) \<subseteq> {..<f}) \<and>
     (\<forall>i \<in> S. \<forall>j \<in> S. i \<noteq> j \<longrightarrow> set (refs (T i)) \<inter> set (refs (T j)) = {})"

text \<open>The tree that stands for an empty root is the node with the empty hash.\<close>

definition opt :: "rtree \<Rightarrow> utree option" where
  "opt t = (if erase t = Tip empty then None else Some (erase t))"

primrec tips :: "rtree \<Rightarrow> (ref \<times> Hash) list" where
  "tips (RTip a x) = [(a, x)]"
| "tips (RNode a l r) = tips l @ tips r"

definition linked :: "Pollard \<Rightarrow> (nat \<Rightarrow> rtree) \<Rightarrow> forest \<Rightarrow> bool" where
  "linked p T Fo \<longleftrightarrow> Full p \<and> polRoots p = map (\<lambda>r. rref (T r)) (rows (polNumLeaves p)) \<and>
     planted (Heap p) (Fresh p) (set (rows (polNumLeaves p))) T \<and> (\<forall>r \<in> set (rows (polNumLeaves p)). opt (T r) = Fo r)"

definition indexed :: "Pollard \<Rightarrow> (nat \<Rightarrow> rtree) \<Rightarrow> bool" where
  "indexed p T \<longleftrightarrow> (\<forall>r \<in> set (rows (polNumLeaves p)). \<forall>(a, x) \<in> set (tips (T r)). x \<noteq> empty \<longrightarrow> NodeMap p (mini x) = Some a)"

lemma plantedI:
  assumes "\<And>i. i \<in> S \<Longrightarrow> rooted h (T i)" "\<And>i. i \<in> S \<Longrightarrow> set (refs (T i)) \<subseteq> {..<f}"
    "\<And>i j. i \<in> S \<Longrightarrow> j \<in> S \<Longrightarrow> i \<noteq> j \<Longrightarrow> set (refs (T i)) \<inter> set (refs (T j)) = {}"
  shows "planted h f S T"
  using assms by (simp add: planted_def)

lemma plantedD:
  assumes "planted h f S T" "i \<in> S"
  shows "rooted h (T i)" "set (refs (T i)) \<subseteq> {..<f}" "\<And>j. j \<in> S \<Longrightarrow> i \<noteq> j \<Longrightarrow> set (refs (T i)) \<inter> set (refs (T j)) = {}"
  using assms by (auto simp: planted_def)

lemma planted_frame:
  assumes "planted h f S T" "S' \<subseteq> S" "f \<le> f'" "\<And>i a. i \<in> S' \<Longrightarrow> a \<in> set (refs (T i)) \<Longrightarrow> h' a = h a"
  shows "planted h' f' S' T"
proof (rule plantedI)
  show "rooted h' (T i)" if "i \<in> S'" for i using rooted_frame[OF plantedD(1)[OF assms(1)]] that assms(2,4) by blast
  show "set (refs (T i)) \<subseteq> {..<f'}" if "i \<in> S'" for i using plantedD(2)[OF assms(1)] that assms(2,3) by force
  show "set (refs (T i)) \<inter> set (refs (T j)) = {}" if "i \<in> S'" "j \<in> S'" "i \<noteq> j" for i j
    using plantedD(3)[OF assms(1)] that assms(2) by blast
qed

lemma rooted_data: "rooted h t \<Longrightarrow> data (h (rref t)) = thash (erase t)"
  using shape_data by (auto simp: rooted_def)

lemma rhash_opt: "rhash (opt t) = (if erase t = Tip empty then empty else thash (erase t))"
  by (simp add: opt_def)

lemma rooted_rhash: "rooted h t \<Longrightarrow> data (h (rref t)) = rhash (opt t)"
  by (simp add: rooted_data rhash_opt)

text \<open>The nodes of a full pollard are its roots' hashes: \<open>GetRoots\<close> is that of the forest's stump.\<close>

lemma GetRoots_linked: "linked p T Fo \<Longrightarrow> Pollard_GetRoots p = Roots (stump_of (polNumLeaves p) Fo)"
  by (auto simp: linked_def Pollard_GetRoots_def stump_of_def planted_def rooted_rhash)

section \<open>Addition\<close>

lemma calculateNewRoot_carry:
  assumes "forest_nonzero n Fo" "h \<le> 64" "Full p" "polNumLeaves p = n" "planted (Heap p) (Fresh p) {r. bit n r \<and> h \<le> r} T"
    "polRoots p = map (\<lambda>r. rref (T r)) (filter (\<lambda>r. h \<le> r) (rows n))" "\<And>r. bit n r \<Longrightarrow> opt (T r) = Fo r"
    "rooted (Heap p) t" "set (refs t) \<subseteq> {..<Fresh p}" "\<And>r. bit n r \<Longrightarrow> h \<le> r \<Longrightarrow> set (refs t) \<inter> set (refs (T r)) = {}"
    "carry n Fo h (erase t) = (k, u)" "remember (Heap p (rref t))"
  shows "\<exists>t' hp f. calculateNewRoot_loop (of_nat h) (rref t) p =
      Inr (rref t', p\<lparr>Heap := hp, Fresh := f, polRoots := map (\<lambda>r. rref (T r)) (filter (\<lambda>r. k \<le> r) (rows n))\<rparr>) \<and>
    erase t' = u \<and> planted hp f {r. bit n r \<and> k \<le> r} T \<and> rooted hp t' \<and> set (refs t') \<subseteq> {..<f} \<and>
    (\<forall>r. bit n r \<and> k \<le> r \<longrightarrow> set (refs t') \<inter> set (refs (T r)) = {}) \<and>
    set (tips t') \<subseteq> set (tips t) \<union> (\<Union>r \<in> set (rows n). set (tips (T r)))"
  using assms(2-6,8-12)
proof (induction "64 - h" arbitrary: h t p rule: less_induct)
  case less
  note pr = less.prems
  have u: "unat (of_nat h :: u8) = h" using pr(1) by (simp add: unat_of_nat)
  show ?case
  proof (cases "bit n h")
    case False
    then have "k = h" "u = erase t" using pr(9) by (auto simp: carry.simps[of n Fo h])
    moreover have "calculateNewRoot_loop (of_nat h) (rref t) p = Inr (rref t, p)"
      using False u pr(3) by (subst calculateNewRoot_loop.simps) (simp add: carry_bit)
    ultimately show ?thesis using pr by (intro exI[of _ t] exI[of _ "Heap p"] exI[of _ "Fresh p"]) auto
  next
    case True
    then have h: "h < 64" using bit_imp_le_length[OF True] by simp
    have s: "(of_nat h :: u8) + 1 = of_nat (Suc h)" by simp
    let ?q = "p\<lparr>polRoots := map (\<lambda>r. rref (T r)) (filter (\<lambda>r. Suc h \<le> r) (rows n))\<rparr>"
    have rt: "polRoots p = map (\<lambda>r. rref (T r)) (filter (\<lambda>r. Suc h \<le> r) (rows n)) @ [rref (T h)]"
      using rows_tail[OF True] pr(5) by simp
    have rh: "rooted (Heap p) (T h)" using plantedD(1)[OF pr(4)] True by simp
    have nz: "Fo h = None \<longleftrightarrow> data (Heap p (rref (T h))) = empty"
      using forest_nonzeroD[OF assms(1) True] nonzero_thash rooted_rhash[OF rh] assms(7)[OF True]
      by (cases "Fo h") (auto simp: nonzeroO_def)
    have sub: "{r. bit n r \<and> Suc h \<le> r} \<subseteq> {r. bit n r \<and> h \<le> r}" by auto
    show ?thesis
    proof (cases "Fo h")
      case None
      have "calculateNewRoot_loop (of_nat h) (rref t) p = calculateNewRoot_loop (of_nat (Suc h)) (rref t) ?q"
        using True u nz None rt pr(3) by (subst calculateNewRoot_loop.simps) (simp add: carry_bit s Let_def)
      moreover have "carry n Fo (Suc h) (erase t) = (k, u)" using pr(9) True None by (simp add: carry.simps[of n Fo h])
      moreover have "planted (Heap p) (Fresh p) {r. bit n r \<and> Suc h \<le> r} T" using planted_frame[OF pr(4) sub] by simp
      ultimately show ?thesis using less.hyps[of "Suc h" ?q t] h pr by simp
    next
      case (Some v)
      have ev: "erase (T h) = v" using assms(7)[OF True] Some by (simp add: opt_def split: if_splits)
      let ?m = "Fresh p"
      have dis: "set (refs (T h)) \<inter> set (refs t) = {}" using pr(8)[OF True] by auto
      have fr: "?m \<notin> set (refs (T h))" "?m \<notin> set (refs t)" using plantedD(2)[OF pr(4)] True pr(7) by auto
      obtain h1 h2 where m: "swapNieces (rref (T h)) (rref t) (Heap p) = Some h1"
        "data (h1 (rref (T h))) = thash (erase (T h))" "data (h1 (rref t)) = thash (erase t)"
        "updateAunt ?m (h1(?m := \<lparr>lNiece = Some (rref (T h)), rNiece = Some (rref t), aunt = None,
           data = parentHash (thash (erase (T h))) (thash (erase t)), remember = True\<rparr>)) = Some h2"
        "polNode_prune ?m h2 = Inr h2" "rooted h2 (RNode ?m (T h) t)" "remember (h2 ?m)"
        "\<And>a. a \<notin> set (refs (RNode ?m (T h) t)) \<Longrightarrow> h2 a = Heap p a"
        using merge_trees[OF rh pr(6) dis fr pr(10)] by blast
      let ?q' = "?q\<lparr>Heap := h2, Fresh := ?m + 1\<rparr>"
      have step: "calculateNewRoot_loop (of_nat h) (rref t) p = calculateNewRoot_loop (of_nat (Suc h)) ?m ?q'"
        using True u nz Some rt pr(2,3) m(1-5)
        by (subst calculateNewRoot_loop.simps) (simp add: carry_bit s Let_def newNode_def returns_def bindR_def)
      have out: "set (refs (RNode ?m (T h) t)) \<inter> set (refs (T r)) = {}" if "bit n r" "Suc h \<le> r" for r
        using plantedD(3)[OF pr(4), of h r] plantedD(2)[OF pr(4), of r] pr(8)[of r] that True by auto
      have pl: "planted h2 (?m + 1) {r. bit n r \<and> Suc h \<le> r} T"
      proof (rule planted_frame[OF pr(4) sub])
        show "h2 a = Heap p a" if "i \<in> {r. bit n r \<and> Suc h \<le> r}" "a \<in> set (refs (T i))" for i a
          using m(8)[of a] out[of i] that by blast
      qed simp
      have su: "set (refs (RNode ?m (T h) t)) \<subseteq> {..<?m + 1}" using plantedD(2)[OF pr(4), of h] True pr(7) by auto
      have ca: "carry n Fo (Suc h) (erase (RNode ?m (T h) t)) = (k, u)" using pr(9) True Some ev by (simp add: carry.simps[of n Fo h])
      have hr: "h \<in> set (rows n)" using True rows_iff by auto
      have ih: "64 - Suc h < 64 - h" "Suc h \<le> 64" "Full ?q'" "polNumLeaves ?q' = n" "polRoots ?q' = polRoots ?q" "Heap ?q' = h2" "Fresh ?q' = ?m + 1"
        using h pr(2,3) by auto
      obtain t' hp f where "calculateNewRoot_loop (of_nat (Suc h)) (rref (RNode ?m (T h) t)) ?q' =
          Inr (rref t', ?q'\<lparr>Heap := hp, Fresh := f, polRoots := map (\<lambda>r. rref (T r)) (filter (\<lambda>r. k \<le> r) (rows n))\<rparr>)"
        "erase t' = u" "planted hp f {r. bit n r \<and> k \<le> r} T" "rooted hp t'" "set (refs t') \<subseteq> {..<f}"
        "\<forall>r. bit n r \<and> k \<le> r \<longrightarrow> set (refs t') \<inter> set (refs (T r)) = {}"
        "set (tips t') \<subseteq> set (tips (RNode ?m (T h) t)) \<union> (\<Union>r \<in> set (rows n). set (tips (T r)))"
        using less.hyps[OF ih(1-4) _ _ _ _ out ca] ih pl m(6,7) su by auto
      then show ?thesis unfolding step using hr by (intro exI[of _ t'] exI[of _ hp] exI[of _ f]) auto
    qed
  qed
qed

lemma add_leaf:
  assumes "linked p T Fo" "polNumLeaves p = n" "unat n + 1 < 2 ^ 64" "forest_nonzero (n + 1) (insert_leaf n Fo (leaf_Hash x))"
  obtains p' T' where "Pollard_add (x # xs) p = Pollard_add xs p'" "linked p' T' (insert_leaf n Fo (leaf_Hash x))"
    "polNumLeaves p' = n + 1" "NumDels p' = NumDels p" "NodeMap p' = (NodeMap p)(mini (leaf_Hash x) \<mapsto> Fresh p)"
    "\<And>r. r \<in> set (rows (n + 1)) \<Longrightarrow> set (tips (T' r)) \<subseteq> {(Fresh p, leaf_Hash x)} \<union> (\<Union>r \<in> set (rows n). set (tips (T r)))"
proof -
  let ?x = "leaf_Hash x" and ?m = "Fresh p"
  let ?node = "\<lparr>lNiece = None, rNiece = None, aunt = None, data = ?x, remember = True\<rparr>"
  define q where "q = p\<lparr>Heap := (Heap p)(?m := ?node), Fresh := ?m + 1, NodeMap := (NodeMap p)(mini ?x \<mapsto> ?m)\<rparr>"
  have l: "Full p" "polRoots p = map (\<lambda>r. rref (T r)) (rows n)" "planted (Heap p) ?m (set (rows n)) T"
    "\<And>r. bit n r \<Longrightarrow> opt (T r) = Fo r" using assms(1,2) by (auto simp: linked_def rows_iff)
  have S: "set (rows n) = {r. bit n r \<and> 0 \<le> r}" by (auto simp: rows_iff)
  have out: "?m \<notin> set (refs (T r))" if "bit n r" for r using plantedD(2)[OF l(3)] that rows_iff by fastforce
  have pq: "planted (Heap q) (Fresh q) {r. bit n r \<and> 0 \<le> r} T"
  proof (rule planted_frame[OF l(3)])
    show "Heap q a = Heap p a" if "i \<in> {r. bit n r \<and> 0 \<le> r}" "a \<in> set (refs (T i))" for i a
      using out[of i] that by (auto simp: q_def)
  qed (simp_all add: S q_def)
  obtain k u where c: "carry n Fo 0 (erase (RTip ?m ?x)) = (k, u)" by fastforce
  note cs = carry_spec[OF c]
  have nz: "forest_nonzero n Fo" using insert_leaf_nonzero[OF assms(3,4)] .
  have q: "Full q" "polNumLeaves q = n" "polRoots q = map (\<lambda>r. rref (T r)) (filter (\<lambda>r. 0 \<le> r) (rows n))"
    "rooted (Heap q) (RTip ?m ?x)" "set (refs (RTip ?m ?x)) \<subseteq> {..<Fresh q}"
    and rq: "remember (Heap q (rref (RTip ?m ?x)))"
    using l assms(2) by (auto simp: q_def rooted_def)
  have oq: "set (refs (RTip ?m ?x)) \<inter> set (refs (T r)) = {}" if "bit n r" "0 \<le> r" for r using out that by simp
  obtain t' hp f where t': "calculateNewRoot_loop (of_nat 0) (rref (RTip ?m ?x)) q =
      Inr (rref t', q\<lparr>Heap := hp, Fresh := f, polRoots := map (\<lambda>r. rref (T r)) (filter (\<lambda>r. k \<le> r) (rows n))\<rparr>)"
    "erase t' = u" "planted hp f {r. bit n r \<and> k \<le> r} T" "rooted hp t'" "set (refs t') \<subseteq> {..<f}"
    "\<forall>r. bit n r \<and> k \<le> r \<longrightarrow> set (refs t') \<inter> set (refs (T r)) = {}"
    "set (tips t') \<subseteq> set (tips (RTip ?m ?x)) \<union> (\<Union>r \<in> set (rows n). set (tips (T r)))"
    using calculateNewRoot_carry[OF nz _ q(1,2) pq q(3) l(4) q(4,5) oq c rq] by auto
  let ?p = "q\<lparr>Heap := hp, Fresh := f, polRoots := map (\<lambda>r. rref (T r)) (filter (\<lambda>r. k \<le> r) (rows n)) @ [rref t'], polNumLeaves := n + 1\<rparr>"
  let ?T = "T(k := t')"
  have rw: "rows (n + 1) = filter (\<lambda>r. k \<le> r) (rows n) @ [k]" using rows_inc[OF _ cs(3) assms(3)] cs(2) by simp
  have nk: "bit n r \<Longrightarrow> r \<noteq> k" for r using cs(3) by auto
  have i: "insert_leaf n Fo ?x = (\<lambda>h. if h < k then None else if h = k then Some u else Fo h)"
    using c by (simp add: insert_leaf_def)
  have "bit (n + 1) k" using rw rows_iff by (metis in_set_conv_decomp)
  then have u: "nonzero u" using forest_nonzeroD[OF assms(4), of k] by (simp add: i nonzeroO_def)
  have "Pollard_add (x # xs) p = Pollard_add xs ?p"
    using t'(1) l(1) q(2) by (simp add: newNode_def calculateNewRoot_def q_def Let_def bindR_def assms(2))
  moreover have "planted hp f (insert k {r. bit n r \<and> k \<le> r}) ?T"
  proof (rule plantedI)
    show "rooted hp (?T i)" if "i \<in> insert k {r. bit n r \<and> k \<le> r}" for i
      using that t'(4) plantedD(1)[OF t'(3)] by auto
    show "set (refs (?T i)) \<subseteq> {..<f}" if "i \<in> insert k {r. bit n r \<and> k \<le> r}" for i
      using that t'(5) plantedD(2)[OF t'(3), of i] by auto
    show "set (refs (?T i)) \<inter> set (refs (?T j)) = {}"
      if "i \<in> insert k {r. bit n r \<and> k \<le> r}" "j \<in> insert k {r. bit n r \<and> k \<le> r}" "i \<noteq> j" for i j
      using that t'(6) plantedD(3)[OF t'(3), of i j] by (cases "i = k"; cases "j = k"; auto)
  qed
  moreover have "set (rows (n + 1)) = insert k {r. bit n r \<and> k \<le> r}" by (auto simp: rw rows_iff)
  moreover have "opt t' = Some u" using t'(2) u by (auto simp: opt_def)
  ultimately have "linked ?p ?T (insert_leaf n Fo ?x)"
    using l nk by (auto simp: linked_def rw i q_def rows_iff)
  moreover have "set (tips (?T r)) \<subseteq> {(?m, ?x)} \<union> (\<Union>r \<in> set (rows n). set (tips (T r)))" if "r \<in> set (rows (n + 1))" for r
    using that t'(7) by (cases "r = k") (auto simp: rw)
  ultimately show ?thesis using that[of ?p ?T] \<open>Pollard_add (x # xs) p = Pollard_add xs ?p\<close> by (simp add: q_def)
qed

text \<open>The leaves of a forest whose short hashes are all different, so that the map can tell them apart.\<close>

definition minis_distinct :: "Hash list \<Rightarrow> bool" where
  "minis_distinct xs = distinct (map mini xs)"

lemma tips_leaves: "map snd (tips t) = leaves (erase t)"
  by (induction t) auto

lemma tips_forest:
  assumes "linked p T Fo" "r \<in> set (rows (polNumLeaves p))" "(a, x) \<in> set (tips (T r))" "x \<noteq> empty"
  shows "x \<in> set (forest_leaves (polNumLeaves p) Fo)"
proof -
  have x: "x \<in> set (leaves (erase (T r)))" using assms(3) tips_leaves[of "T r"] by (metis image_eqI list.set_map snd_conv)
  then have "erase (T r) \<noteq> Tip empty" using assms(4) by auto
  then have "Fo r = Some (erase (T r))" using assms(1,2) by (auto simp: linked_def opt_def)
  then show ?thesis using x assms(2) by (force simp: forest_leaves_def)
qed

lemma Pollard_add_linked:
  assumes "linked p T Fo" "polNumLeaves p = n" "unat n + length xs < 2 ^ 64"
    "forest_nonzero (n + of_nat (length xs)) (insert_leaves n Fo (map leaf_Hash xs))"
  shows "\<exists>p' T'. Pollard_add xs p = Inr p' \<and> linked p' T' (insert_leaves n Fo (map leaf_Hash xs)) \<and>
    polNumLeaves p' = n + of_nat (length xs) \<and> NumDels p' = NumDels p \<and>
    (indexed p T \<and> minis_distinct (forest_leaves n Fo @ map leaf_Hash xs) \<longrightarrow> indexed p' T')"
  using assms
proof (induction xs arbitrary: p T n Fo)
  case (Cons x xs)
  have lt: "unat n + 1 < 2 ^ 64" and e: "unat (n + 1) = unat n + 1" using Cons.prems(3) by (simp_all add: unat_word_ariths)
  have len: "unat (n + 1) + length xs < 2 ^ 64" "n + of_nat (length (x # xs)) = n + 1 + of_nat (length xs)"
    using Cons.prems(3) e by simp_all
  let ?Fo = "insert_leaf n Fo (leaf_Hash x)"
  have nz: "forest_nonzero (n + 1 + of_nat (length xs)) (insert_leaves (n + 1) ?Fo (map leaf_Hash xs))" using Cons.prems(4) by (simp add: add.assoc)
  have nz1: "forest_nonzero (n + 1) ?Fo" using insert_leaves_nonzero[of "n + 1" "map leaf_Hash xs"] nz len(1) by simp
  obtain q T1 where q: "Pollard_add (x # xs) p = Pollard_add xs q" "linked q T1 ?Fo" "polNumLeaves q = n + 1"
    "NumDels q = NumDels p" "NodeMap q = (NodeMap p)(mini (leaf_Hash x) \<mapsto> Fresh p)"
    "\<And>r. r \<in> set (rows (n + 1)) \<Longrightarrow> set (tips (T1 r)) \<subseteq> {(Fresh p, leaf_Hash x)} \<union> (\<Union>r \<in> set (rows n). set (tips (T r)))"
    using add_leaf[OF Cons.prems(1,2) lt nz1] by blast
  have ix: "indexed q T1" if i: "indexed p T" and m: "minis_distinct (forest_leaves n Fo @ map leaf_Hash (x # xs))"
    unfolding indexed_def
  proof (intro ballI, clarify)
    fix r a y assume r: "r \<in> set (rows (polNumLeaves q))" "(a, y) \<in> set (tips (T1 r))" "y \<noteq> empty"
    from r(1) have "r \<in> set (rows (n + 1))" using q(3) by simp
    from subsetD[OF q(6)[OF this] r(2)]
    consider "(a, y) = (Fresh p, leaf_Hash x)" | s where "s \<in> set (rows n)" "(a, y) \<in> set (tips (T s))" by blast
    then show "NodeMap q (mini y) = Some a"
    proof cases
      case 2
      then have "y \<in> set (forest_leaves n Fo)" "NodeMap p (mini y) = Some a"
        using tips_forest[OF Cons.prems(1)] i \<open>y \<noteq> empty\<close> Cons.prems(2) by (auto simp: indexed_def)
      moreover from this have "mini y \<noteq> mini (leaf_Hash x)" using m by (auto simp: minis_distinct_def image_iff)
      ultimately show ?thesis using q(5) by simp
    qed (use q(5) in simp)
  qed
  have fl: "forest_leaves (n + 1) ?Fo = forest_leaves n Fo @ [leaf_Hash x]" using insert_leaf_leaves[OF lt] .
  from Cons.IH[OF q(2,3) len(1) nz] obtain p' T' where "Pollard_add xs q = Inr p'" "linked p' T' (insert_leaves (n + 1) ?Fo (map leaf_Hash xs))"
    "polNumLeaves p' = n + 1 + of_nat (length xs)" "NumDels p' = NumDels q"
    "indexed q T1 \<and> minis_distinct (forest_leaves (n + 1) ?Fo @ map leaf_Hash xs) \<longrightarrow> indexed p' T'" by blast
  then show ?case using q(1,4) ix fl len(2) by (intro exI[of _ p'] exI[of _ T']) auto
qed auto

end
