(* ===== verification/PollardPaths.thy ===== *)
theory PollardPaths
  imports PollardAdd
begin

text \<open>
  Paths from the roots of a pollard. \<open>getNode\<close> and \<open>getHash\<close> find the node of a position (\<open>getNode_place\<close>,
  \<open>getHash_place\<close>).
\<close>

unbundle bit_operations_syntax

section \<open>Paths\<close>

text \<open>A path from the root of a tree goes to the right child where it is true. \<open>way d k\<close> is the path to
  the node \<open>d\<close> rows down at an offset of which the low \<open>d\<close> bits are those of \<open>k\<close>.\<close>

definition way :: "nat \<Rightarrow> nat \<Rightarrow> bool list" where
  "way d k = map (bit k) (rev [0..<d])"

lemma way_simps [simp]: "way 0 k = []" "way (Suc d) k = bit k d # way d k"
  by (simp_all add: way_def)

lemma way_snoc: "way (Suc d) k = way d (k div 2) @ [odd k]"
proof (induction d)
  case (Suc d)
  show ?case unfolding way_simps(2)[of "Suc d" k] Suc by (simp add: bit_Suc)
qed (simp add: bit_0)

lemma length_way [simp]: "length (way d k) = d"
  by (simp add: way_def)

fun walk :: "rtree \<Rightarrow> bool list \<Rightarrow> rtree option" where
  "walk t [] = Some t"
| "walk (RTip a x) (d # ds) = None"
| "walk (RNode a l r) (d # ds) = walk (if d then r else l) ds"

fun uwalk :: "utree \<Rightarrow> bool list \<Rightarrow> utree option" where
  "uwalk t [] = Some t"
| "uwalk (Tip x) (d # ds) = None"
| "uwalk (Node l r) (d # ds) = uwalk (if d then r else l) ds"

lemma uwalk_erase: "uwalk (erase t) ds = map_option erase (walk t ds)"
  by (induction t ds rule: walk.induct) auto

lemma uwalk_append: "uwalk t (ds @ es) = Option.bind (uwalk t ds) (\<lambda>u. uwalk u es)"
  by (induction t ds rule: uwalk.induct) auto

lemma walk_append: "walk t (ds @ es) = Option.bind (walk t ds) (\<lambda>u. walk u es)"
  by (induction t ds rule: walk.induct) auto

lemma sub_way: "sub t d k = uwalk t (way d k)"
proof (induction d arbitrary: k)
  case (Suc d)
  have "child (even k) = (\<lambda>u. uwalk u [odd k])"
  proof
    show "child (even k) u = uwalk u [odd k]" for u by (cases u) auto
  qed
  then show ?case using Suc unfolding way_snoc uwalk_append by simp
qed simp

text \<open>A node with the child \<open>u\<close> on the side \<open>e\<close>, right if true, and the child \<open>v\<close> on the other.\<close>

definition fork :: "ref \<Rightarrow> bool \<Rightarrow> rtree \<Rightarrow> rtree \<Rightarrow> rtree" where
  "fork a e u v = (if e then RNode a v u else RNode a u v)"

lemma fork_cases: obtains u v where "RNode a l r = fork a e u v"
  by (cases e) (auto simp: fork_def)

lemma fork_simps [simp]: "rref (fork a e u v) = a" "set (refs (fork a e u v)) = insert a (set (refs u) \<union> set (refs v))"
  "distinct (refs (fork a e u v)) \<longleftrightarrow> a \<notin> set (refs u) \<and> a \<notin> set (refs v) \<and> distinct (refs u) \<and> distinct (refs v) \<and> set (refs u) \<inter> set (refs v) = {}"
  "set (below_refs (fork a e u v)) = set (refs u) \<union> set (refs v)"
  "walk (fork a e u v) (e # ds) = walk u ds" "walk (fork a e u v) ((\<not> e) # ds) = walk v ds"
  "set (tips (fork a e u v)) = set (tips u) \<union> set (tips v)"
  by (auto simp: fork_def)

definition niece :: "bool \<Rightarrow> polNode \<Rightarrow> ref option" where
  "niece e m = (if e then rNiece m else lNiece m)"

lemma walk_snoc: "walk t (ds @ [d]) = Some u \<longleftrightarrow> (\<exists>a v. walk t ds = Some (fork a d u v))"
proof -
  have "walk w [d] = Some u \<longleftrightarrow> (\<exists>a v. w = fork a d u v)" for w by (cases w) (auto simp: fork_def)
  then show ?thesis by (auto simp: walk_append bind_eq_Some_conv)
qed

lemma walk_refs: "walk t ds = Some u \<Longrightarrow> set (refs u) \<subseteq> set (refs t)"
  by (induction t ds rule: walk.induct) (auto split: if_splits)

lemma walk_distinct: "walk t ds = Some u \<Longrightarrow> distinct (refs t) \<Longrightarrow> distinct (refs u)"
  by (induction t ds rule: walk.induct) (auto split: if_splits)

section \<open>Pointers and hashes\<close>

text \<open>\<open>shape\<close> in two parts, the pointers and the hashes, and the hashes off a path.\<close>

primrec ptrs :: "heap \<Rightarrow> ref \<Rightarrow> rtree \<Rightarrow> bool" where
  "ptrs h b (RTip a x) \<longleftrightarrow> lNiece (h b) = None \<and> rNiece (h b) = None"
| "ptrs h b (RNode a l r) \<longleftrightarrow> lNiece (h b) = Some (rref l) \<and> rNiece (h b) = Some (rref r) \<and>
     aunt (h (rref l)) = Some b \<and> aunt (h (rref r)) = Some b \<and> ptrs h (rref r) l \<and> ptrs h (rref l) r"

primrec sums :: "heap \<Rightarrow> rtree \<Rightarrow> bool" where
  "sums h (RTip a x) \<longleftrightarrow> data (h a) = x"
| "sums h (RNode a l r) \<longleftrightarrow> data (h a) = parentHash (data (h (rref l))) (data (h (rref r))) \<and> sums h l \<and> sums h r"

lemma shape_iff: "shape h b t \<longleftrightarrow> ptrs h b t \<and> sums h t"
  by (induction t arbitrary: b) auto

lemma ptrs_fork:
  "ptrs h b (fork a e u v) \<longleftrightarrow> niece e (h b) = Some (rref u) \<and> niece (\<not> e) (h b) = Some (rref v) \<and>
     aunt (h (rref u)) = Some b \<and> aunt (h (rref v)) = Some b \<and> ptrs h (rref v) u \<and> ptrs h (rref u) v"
  by (auto simp: fork_def niece_def)

text \<open>The node that points to the children of the node at the end of a path.\<close>

fun hold :: "ref \<Rightarrow> rtree \<Rightarrow> bool list \<Rightarrow> ref" where
  "hold b t [] = b"
| "hold b (RTip a x) (d # ds) = b"
| "hold b (RNode a l r) (d # ds) = (if d then hold (rref l) r ds else hold (rref r) l ds)"

lemma hold_fork [simp]: "hold b (fork a e u v) (e # ds) = hold (rref v) u ds"
  by (simp add: fork_def)

lemma hold_snoc: "walk t ds = Some (fork a d u v) \<Longrightarrow> hold b t (ds @ [d]) = rref v"
  by (induction b t ds rule: hold.induct) (auto split: if_splits)

lemma ptrs_walk: "ptrs h b t \<Longrightarrow> walk t ds = Some u \<Longrightarrow> ptrs h (hold b t ds) u"
  by (induction b t ds rule: hold.induct) (auto split: if_splits)

lemma sums_walk: "sums h t \<Longrightarrow> walk t ds = Some u \<Longrightarrow> sums h u"
  by (induction t ds rule: walk.induct) (auto split: if_splits)

lemma shape_walk: "shape h b t \<Longrightarrow> walk t ds = Some u \<Longrightarrow> shape h (hold b t ds) u"
  using sums_walk[of h t ds u] ptrs_walk[of h b t ds u] by (simp add: shape_iff)

lemma sums_data: "sums h t \<Longrightarrow> data (h (rref t)) = thash (erase t)"
  by (induction t) auto

lemma hold_in:
  assumes "walk t ds = Some u" "distinct (refs t)" "b \<notin> set (below_refs t)"
  shows "ds \<noteq> [] \<Longrightarrow> hold b t ds \<in> set (below_refs t)" "hold b t ds \<notin> set (below_refs u)"
proof -
  have "(ds \<noteq> [] \<longrightarrow> hold b t ds \<in> set (below_refs t)) \<and> hold b t ds \<notin> set (below_refs u)"
    using assms
  proof (induction b t ds rule: hold.induct)
    case (3 b a l r d ds)
    have "rref l \<notin> set (refs r)" "rref r \<notin> set (refs l)" using 3(4) rref_disjoint[of l r] by auto
    then have "rref l \<notin> set (below_refs r)" "rref r \<notin> set (below_refs l)" by (auto simp: refs_below)
    then show ?case using 3 by (cases ds; cases d) (auto simp: refs_below)
  qed auto
  then show "ds \<noteq> [] \<Longrightarrow> hold b t ds \<in> set (below_refs t)" "hold b t ds \<notin> set (below_refs u)" by auto
qed

text \<open>What the pointers of a node at the end of a path lead to.\<close>

lemma rooted_ptrs: "rooted h t \<longleftrightarrow> ptrs h (rref t) t \<and> sums h t \<and> aunt (h (rref t)) = None \<and> distinct (refs t)"
  by (auto simp: rooted_def shape_iff)

lemma aunt_walk:
  assumes "ptrs h (rref t) t" "walk t (ds @ [d]) = Some u" shows "aunt (h (rref u)) = Some (hold (rref t) t ds)"
proof -
  obtain a v where w: "walk t ds = Some (fork a d u v)" using assms(2) walk_snoc by blast
  show ?thesis using ptrs_walk[OF assms(1) w] by (simp add: ptrs_fork)
qed

lemma getSibling_fork:
  assumes "ptrs h b (fork a d u v)" "rref u \<noteq> rref v"
  shows "getSibling h (rref u) = Inr (Some (rref v))" "getSibling h (rref v) = Inr (Some (rref u))"
  using assms by (cases d; auto simp: getSibling_def ptrs_fork niece_def)+

lemma getChildren_walk:
  assumes "ptrs h (rref t) t" "aunt (h (rref t)) = None" "distinct (refs t)" "walk t ds = Some u"
  shows "getChildren h (rref u) = Inr (lNiece (h (hold (rref t) t ds)), rNiece (h (hold (rref t) t ds)))"
proof (cases ds rule: rev_cases)
  case Nil
  then show ?thesis using assms by (simp add: getChildren_def)
next
  case (snoc es d)
  obtain a v where w: "walk t es = Some (fork a d u v)" using assms(4) walk_snoc snoc by blast
  have "rref u \<noteq> rref v" using walk_distinct[OF w assms(3)] rref_disjoint by auto
  then have "getSibling h (rref u) = Inr (Some (rref v))" using getSibling_fork ptrs_walk[OF assms(1) w] by blast
  moreover have "hold (rref t) t ds = rref v" using hold_snoc[OF w] snoc by simp
  ultimately show ?thesis using aunt_walk[OF assms(1)] assms(4) snoc by (simp add: getChildren_def)
qed

lemma getParent_walk:
  assumes "ptrs h (rref t) t" "aunt (h (rref t)) = None" "distinct (refs t)" "walk t (ds @ [d]) = Some u" "walk t ds = Some w"
  shows "getParent h (rref u) = Inr (Some (rref w))"
proof -
  note au = aunt_walk[OF assms(1,4)]
  show ?thesis
  proof (cases ds rule: rev_cases)
    case Nil
    then show ?thesis using assms au by (simp add: getParent_def)
  next
    case (snoc es e)
    obtain b v where q: "walk t es = Some (fork b e w v)" using assms(5) walk_snoc snoc by blast
    have ne: "rref w \<noteq> rref v" using walk_distinct[OF q assms(3)] rref_disjoint by auto
    have "hold (rref t) t ds = rref v" using hold_snoc[OF q] snoc by simp
    then show ?thesis using au ptrs_walk[OF assms(1) q] ne by (cases e) (auto simp: getParent_def ptrs_fork niece_def)
  qed
qed

section \<open>Finding a node\<close>

lemma niece_bit: "isLeftNiece (ucast (ucast (drop_bit j bits) AND (1 :: u8))) \<longleftrightarrow> \<not> bit (bits :: u64) j"
proof -
  have "ucast (drop_bit j bits) AND (1 :: u8) = of_bool (bit bits j)"
    by (rule bit_eqI) (auto simp: bit_and_iff bit_1_iff bit_unsigned_iff bit_drop_bit_eq bit_of_bool_iff)
  then show ?thesis by (cases "bit bits j") (simp_all add: isLeftNiece_def)
qed

lemma getNode_loop_walk:
  assumes "ptrs h b t" "\<And>j. j < Suc d \<Longrightarrow> bit bits j = (bit k j = (j = 0))"
  shows "getNode_loop (Suc d) h bits b (Some (rref t)) par =
    (case walk t (way d (k div 2)) of
       Some (RNode a l r) \<Rightarrow> Inr (if odd k then (Some (rref r), Some (rref l), Some a) else (Some (rref l), Some (rref r), Some a))
     | _ \<Rightarrow> Inr (None, None, None))"
  using assms
proof (induction d arbitrary: t b par)
  case 0
  then have "bit bits 0 = odd k" by (simp add: bit_0)
  then show ?case using 0(1) niece_bit[of 0 bits] by (cases t) (auto simp: Let_def)
next
  case (Suc d)
  have b: "bit bits (Suc d) = (\<not> bit k (Suc d))" using Suc.prems(2)[of "Suc d"] by simp
  have k: "bit (k div 2) d = bit k (Suc d)" by (simp add: bit_Suc)
  show ?case
  proof (cases t)
    case (RTip a x)
    then show ?thesis using Suc.prems(1) by (simp add: Let_def)
  next
    case (RNode a l r)
    have p: "ptrs h (rref r) l" "ptrs h (rref l) r" "lNiece (h b) = Some (rref l)" "rNiece (h b) = Some (rref r)"
      using Suc.prems(1) RNode by auto
    have IH: "getNode_loop (Suc d) h bits b' (Some (rref t')) par' =
        (case walk t' (way d (k div 2)) of
           Some (RNode a l r) \<Rightarrow> Inr (if odd k then (Some (rref r), Some (rref l), Some a) else (Some (rref l), Some (rref r), Some a))
         | _ \<Rightarrow> Inr (None, None, None))" if "ptrs h b' t'" for b' t' par'
      using Suc.IH[OF that] Suc.prems(2) by simp
    show ?thesis
    proof (cases "bit k (Suc d)")
      case True
      have "getNode_loop (Suc (Suc d)) h bits b (Some (rref t)) par = getNode_loop (Suc d) h bits (rref l) (Some (rref r)) (Some (rref t))"
        using True b p by (simp add: niece_bit del: getNode_loop.simps(2) add: getNode_loop.simps(2)[of "Suc d"])
      then show ?thesis using IH[OF p(2)] True k RNode by simp
    next
      case False
      have "getNode_loop (Suc (Suc d)) h bits b (Some (rref t)) par = getNode_loop (Suc d) h bits (rref r) (Some (rref l)) (Some (rref t))"
        using False b p by (simp add: niece_bit del: getNode_loop.simps(2) add: getNode_loop.simps(2)[of "Suc d"])
      then show ?thesis using IH[OF p(1)] False k RNode by simp
    qed
  qed
qed

section \<open>Positions of a pollard\<close>

lemma place_below_max:
  assumes "fits n F" "place n F p h r k" shows "p < maxPosition F"
proof -
  have f: "unat F \<le> 63" using assms(1) by (simp add: fits_def)
  note pr = place_row[OF assms]
  have "rowStart (unat F) r + k + 1 < 2 ^ Suc (unat F)"
  proof -
    have "unat F + 1 - r = Suc (unat F - r)" using pr(1,2) by simp
    then have "rowStart (unat F) r + 2 * 2 ^ (unat F - r) = 2 ^ Suc (unat F)" using rowStart_le[of r "unat F"] pr(1,2) by simp
    moreover have "k < 2 ^ (unat F - r)" using pr(4) by (simp add: valid_pos_def)
    ultimately show ?thesis by simp
  qed
  moreover have "unat (maxPosition F) = 2 ^ Suc (unat F) - 1"
  proof -
    have "maxPosition F = mask (Suc (unat F))" by (simp add: maxPosition_def push_bit_eq_mult mask_eq_exp_minus_1)
    moreover have "unat (mask (Suc (unat F)) :: u64) = 2 ^ Suc (unat F) - 1"
      using f by (subst unat_mask) (simp add: mask_eq_exp_minus_1 min_def)
    ultimately show ?thesis by simp
  qed
  ultimately show ?thesis using pr(6) by (simp add: word_less_nat_alt)
qed

lemma length_rows: "length (rows n) \<le> 64"
  using length_filter_le[of "bit n" "[0..<64]"] by (simp add: rows_def)

lemma linkedD:
  assumes "linked p T Fo" "polNumLeaves p = n" "bit n h"
  shows "rooted (Heap p) (T h)" "opt (T h) = Fo h" "set (refs (T h)) \<subseteq> {..<Fresh p}"
  using assms by (auto simp: linked_def planted_def rows_iff)

lemma place_bit: "place n F pos h r k \<Longrightarrow> bit n h"
  by (simp add: place_def in_tree_def bit_unat_iff)

lemma getNode_place:
  assumes "linked p T Fo" "polNumLeaves p = n" "F = treeRows n" "fits n F" "place n F pos h r k"
  shows "getNode p pos = (if r = h then Inr (Some (rref (T h)), Some (rref (T h)), None)
    else case walk (T h) (way (h - Suc r) (k div 2)) of
       Some (RNode a l r) \<Rightarrow> Inr (if odd k then (Some (rref r), Some (rref l), Some a) else (Some (rref l), Some (rref r), Some a))
     | _ \<Rightarrow> Inr (None, None, None))"
proof -
  note pr = place_row[OF assms(4,5)] and h63 = place_63[OF assms(4,5)]
  have t: "in_tree (unat n) h r k" "pos = posn (unat F) r k" using assms(5) by (auto simp: place_def)
  have bh: "bit n h" using place_bit[OF assms(5)] .
  have rts: "polRoots p = map (\<lambda>r. rref (T r)) (rows n)" using assms(1,2) by (simp add: linked_def)
  obtain bits where d: "detectOffset pos n = Inr (of_nat (bigger_trees (unat n) h), of_nat (h - r), bits)"
    "\<forall>j < h - r. bit bits j = (bit k j = (j = 0))"
    using detectOffset_posn[OF t(1)] t(2) assms(3,4) by (auto simp: fits_def)
  note rn = rows_nth[OF bh]
  have ub: "unat (of_nat (bigger_trees (unat n) h) :: u8) = bigger_trees (unat n) h"
    using rn length_rows[of n] by (simp add: unat_of_nat)
  have ul: "unat (of_nat (length (rows n)) :: u8) = length (rows n)" using length_rows[of n] by (simp add: unat_of_nat)
  have ud: "unat (of_nat (h - r) :: u8) = h - r" using h63 by (intro unat_of_nat_lt) (simp, linarith)
  have "getNode p pos = getNode_loop (h - r) (Heap p) bits (rref (T h)) (Some (rref (T h))) None"
    using d(1) place_below_max[OF assms(4,5)] assms(2,3) rn ub ul ud
    by (simp add: getNode_def rts nthR_def word_le_nat_alt not_le[symmetric])
  moreover have "ptrs (Heap p) (rref (T h)) (T h)" using linkedD(1)[OF assms(1,2) bh] by (simp add: rooted_ptrs)
  ultimately show ?thesis
    using getNode_loop_walk[of "Heap p" "rref (T h)" "T h" "h - Suc r" bits k None] d(2) pr(1)
    by (cases "r = h") (simp_all add: Suc_diff_Suc del: getNode_loop.simps(2))
qed

lemma getHash_place:
  assumes "linked p T Fo" "polNumLeaves p = n" "F = treeRows n" "fits n F" "node n F pos"
  shows "getHash p pos = Inr (label n F Fo pos)"
proof -
  obtain h r k where pl: "place n F pos h r k" using node_place[OF assms(4,5)] .
  note L = linkedD[OF assms(1,2) place_bit[OF pl]] and g = getNode_place[OF assms(1-4) pl] and pr = place_row[OF assms(4) pl]
  show ?thesis
  proof (cases "r = h")
    case True
    then have "label n F Fo pos = rhash (Fo h)"
      using subtree_at_place[OF assms(4) pl] by (cases "Fo h") (simp_all add: label_def)
    then show ?thesis using g True rooted_rhash[OF L(1)] L(2) by (simp add: getHash_def)
  next
    case False
    then have s: "h - r = Suc (h - Suc r)" using pr(1) by simp
    have sub: "subtree_at n F Fo pos = (if Fo h = None then None else map_option erase (walk (T h) (way (h - Suc r) (k div 2) @ [odd k])))"
      using L(2) unfolding subtree_at_place[OF assms(4) pl] s way_snoc[symmetric]
      by (auto simp: sub_way uwalk_erase opt_def simp del: way_simps split: if_splits)
    show ?thesis
    proof (cases "walk (T h) (way (h - Suc r) (k div 2))")
      case None
      then show ?thesis using g False sub by (simp add: getHash_def label_def walk_append)
    next
      case (Some w)
      show ?thesis
      proof (cases w)
        case (RTip a x)
        then show ?thesis using g False sub Some by (simp add: getHash_def label_def walk_append)
      next
        case (RNode a l r')
        have "Fo h \<noteq> None"
        proof
          assume "Fo h = None"
          then have "erase (T h) = Tip empty" using L(2) by (simp add: opt_def split: if_splits)
          then obtain b where "T h = RTip b empty" by (cases "T h") auto
          then show False using Some RNode by (cases "way (h - Suc r) (k div 2)") auto
        qed
        moreover have "sums (Heap p) (RNode a l r')" using sums_walk[of "Heap p" "T h" _ w] L(1) Some unfolding RNode rooted_ptrs by blast
        then have "data (Heap p (rref l)) = thash (erase l)" "data (Heap p (rref r')) = thash (erase r')"
          using sums_data[of "Heap p" l] sums_data[of "Heap p" r'] by auto
        ultimately show ?thesis using g False sub Some RNode by (auto simp: getHash_def label_def walk_append)
      qed
    qed
  qed
qed

end
