(* ===== verification/Translate.thy ===== *)
theory Translate
  imports Roots
begin

text \<open>
  The same forest in two numbers of rows. \<open>translatePos\<close> keeps the order of its nodes, their parents,
  siblings and subtrees, and with them the positions a proof needs.
\<close>

unbundle bit_operations_syntax

section \<open>A forest with rows to spare\<close>

lemma place_translate:
  assumes "fits n F" "fits n G" "place n F p h r k" shows "place n G (translatePos p F G) h r k"
proof -
  have "unat F \<le> 63" "r \<le> unat G"
    using assms place_row[OF assms(1,3)] le_trans[OF _ conjunct1[OF fits_treeRows[OF assms(2)]]]
    by (auto simp: fits_def)
  then show ?thesis using translatePos_posn[OF place_row(4)[OF assms(1,3)]] assms(3) by (simp add: place_def)
qed

lemma place_eq: "place n F p h r k \<Longrightarrow> place n F q h' r k \<Longrightarrow> p = q"
  by (simp add: place_def)

lemma translate_node:
  assumes "fits n F" "fits n G" "node n F p"
  shows "node n G (translatePos p F G)" "root n G (translatePos p F G) \<longleftrightarrow> root n F p"
    "translatePos (translatePos p F G) G F = p"
    "subtree_at n G Fo (translatePos p F G) = subtree_at n F Fo p"
    "\<not> root n F p \<Longrightarrow> translatePos (parent p F) F G = parent (translatePos p F G) G"
    "\<not> root n F p \<Longrightarrow> translatePos (sibling p) F G = sibling (translatePos p F G)"
proof -
  obtain h r k where p: "place n F p h r k" using node_place[OF assms(1,3)] .
  note q = place_translate[OF assms(1,2) p]
  show "node n G (translatePos p F G)" using place_row(7)[OF assms(2) q] .
  show rt: "root n G (translatePos p F G) \<longleftrightarrow> root n F p" using root_iff(1)[OF assms(1) p] root_iff(1)[OF assms(2) q] by simp
  show "translatePos (translatePos p F G) G F = p" using place_eq[OF place_translate[OF assms(2,1) q] p] .
  show "subtree_at n G Fo (translatePos p F G) = subtree_at n F Fo p"
    using subtree_at_place[OF assms(1) p] subtree_at_place[OF assms(2) q] by simp
  assume "\<not> root n F p"
  then have rh: "r < h" using root_iff(1)[OF assms(1) p] place_row(1)[OF assms(1) p] by simp
  show "translatePos (parent p F) F G = parent (translatePos p F G) G"
    by (rule place_eq[OF place_translate[OF assms(1,2) node_parent[OF assms(1) p rh]] node_parent[OF assms(2) q rh]])
  show "translatePos (sibling p) F G = sibling (translatePos p F G)"
    by (rule place_eq[OF place_translate[OF assms(1,2) node_sibling[OF assms(1) p rh]] node_sibling[OF assms(2) q rh]])
qed

lemma translate_less:
  assumes "fits n F" "fits n G" "node n F p" "node n F q"
  shows "translatePos p F G < translatePos q F G \<longleftrightarrow> p < q" "isAncestor (translatePos p F G) (translatePos q F G) G \<longleftrightarrow> isAncestor p q F"
proof -
  obtain h r k where p: "place n F p h r k" using node_place[OF assms(1,3)] .
  obtain g s u where q: "place n F q g s u" using node_place[OF assms(1,4)] .
  show "translatePos p F G < translatePos q F G \<longleftrightarrow> p < q"
    using node_less_iff[OF assms(1) p q] node_less_iff[OF assms(2) place_translate[OF assms(1,2) p] place_translate[OF assms(1,2) q]] by simp
  show "isAncestor (translatePos p F G) (translatePos q F G) G \<longleftrightarrow> isAncestor p q F"
    using place_ancestor[OF assms(1) q p] place_ancestor[OF assms(2) place_translate[OF assms(1,2) q] place_translate[OF assms(1,2) p]] by simp
qed

lemma translate_ok:
  assumes "fits n F" "fits n G" "targets_ok n F ts"
  shows "targets_ok n G (map (\<lambda>t. translatePos t F G) ts)"
  using assms translate_node(1)[OF assms(1,2)] translate_less(2)[OF assms(1,2)] by (auto simp: targets_ok_def)

lemma translate_distinct:
  assumes "fits n F" "fits n G" "targets_ok n F ts" "distinct ts"
  shows "distinct (map (\<lambda>t. translatePos t F G) ts)"
  using assms(3,4) translate_node(3)[OF assms(1,2)] by (auto simp: distinct_map inj_on_def targets_ok_def) metis

lemma translate_climbs:
  assumes "fits n F" "fits n G" "\<forall>t \<in> T. node n F t"
  shows "climbs n G ((\<lambda>t. translatePos t F G) ` T) = (\<lambda>t. translatePos t F G) ` climbs n F T"
proof (intro equalityI subsetI)
  fix c assume "c \<in> climbs n G ((\<lambda>t. translatePos t F G) ` T)"
  then show "c \<in> (\<lambda>t. translatePos t F G) ` climbs n F T"
  proof induction
    case (up p)
    then obtain q where q: "q \<in> climbs n F T" "p = translatePos q F G" by blast
    have nd: "node n F q" using climbs_node[OF assms(1,3) q(1)] .
    have nr: "\<not> root n F q" using translate_node(2)[OF assms(1,2) nd] up(2) q(2) by simp
    show ?case using translate_node(5)[OF assms(1,2) nd nr] climbs.up[OF q(1) nr] q(2) by (metis imageI)
  qed (auto intro: climbs.target)
next
  fix c assume "c \<in> (\<lambda>t. translatePos t F G) ` climbs n F T"
  then obtain q where q: "q \<in> climbs n F T" "c = translatePos q F G" by blast
  have "translatePos q F G \<in> climbs n G ((\<lambda>t. translatePos t F G) ` T)" using q(1)
  proof induction
    case (up p)
    have nd: "node n F p" using climbs_node[OF assms(1,3) up(1)] .
    have "\<not> root n G (translatePos p F G)" using translate_node(2)[OF assms(1,2) nd] up(2) by simp
    then show ?case using climbs.up[OF up(3)] translate_node(5)[OF assms(1,2) nd up(2)] by simp
  qed (auto intro: climbs.target)
  then show "c \<in> climbs n G ((\<lambda>t. translatePos t F G) ` T)" using q(2) by simp
qed

lemma translate_needed:
  assumes "fits n F" "fits n G" "targets_ok n F ts"
  shows "needed n G (map (\<lambda>t. translatePos t F G) ts) = map (\<lambda>t. translatePos t F G) (needed n F ts)"
proof (rule strict_sorted_equal)
  let ?t = "\<lambda>t. translatePos t F G"
  have nd: "\<forall>t \<in> set ts. node n F t" using assms(3) by (simp add: targets_ok_def)
  note cn = climbs_node[OF assms(1) nd]
  show "ascending (needed n G (map ?t ts))" using ascending_needed[OF translate_ok[OF assms]] .
  have sn: "node n F p" if "p \<in> set (needed n F ts)" for p
    using that sibling_node(1)[OF assms(1)] cn by (auto simp: set_needed)
  show "ascending (map ?t (needed n F ts))"
    unfolding sorted_wrt_map using ascending_needed[OF assms(3)] sn translate_less(1)[OF assms(1,2)]
    by (auto intro: sorted_wrt_mono_rel[rotated])
  have mem: "sibling (?t c) \<in> ?t ` climbs n F (set ts) \<longleftrightarrow> sibling c \<in> climbs n F (set ts)"
    if c: "c \<in> climbs n F (set ts)" "\<not> root n F c" for c
  proof
    assume "sibling (?t c) \<in> ?t ` climbs n F (set ts)"
    then obtain d where d: "d \<in> climbs n F (set ts)" "?t d = ?t (sibling c)"
      using translate_node(6)[OF assms(1,2) cn[OF c(1)] c(2)] by (metis imageE)
    then have "d = sibling c"
      using translate_node(3)[OF assms(1,2) cn[OF d(1)]] translate_node(3)[OF assms(1,2) sibling_node(1)[OF assms(1) cn[OF c(1)] c(2)]] by metis
    then show "sibling c \<in> climbs n F (set ts)" using d(1) by simp
  qed (use translate_node(6)[OF assms(1,2) cn[OF c(1)] c(2)] in \<open>metis imageI\<close>)
  show "set (needed n G (map ?t ts)) = set (map ?t (needed n F ts))"
    unfolding set_needed set_map translate_climbs[OF assms(1,2) nd]
    using mem translate_node(2)[OF assms(1,2) cn] translate_node(6)[OF assms(1,2) cn] by (auto simp: image_iff) (metis)+
qed

end
