(* ===== verification/MapProofs.thy ===== *)
theory MapProofs
  imports MapBytes Translate
begin

text \<open>
  What a map pollard represents (\<open>represents\<close>), and what its proofs are: \<open>Prove\<close> of cached leaves
  returns the proof of the forest in the rows the forest needs (\<open>Prove_represents\<close>), \<open>Verify\<close> is the
  stump's \<open>Verify\<close> on the forest (\<open>MapPollard_Verify_eq\<close>), and \<open>Ingest\<close> adds the nodes of a proof and
  caches its targets (\<open>Ingest_ingested\<close>, \<open>ingested_represents\<close>).
\<close>

unbundle bit_operations_syntax

section \<open>What a map pollard represents\<close>

text \<open>
  A map pollard represents a forest when its nodes have the hashes of the forest at their
  positions, its roots are among them, its cached leaves are leaves of the forest, and with a
  cached leaf it has the nodes that prove it.
\<close>

definition represents :: "MapPollard \<Rightarrow> forest \<Rightarrow> bool" where
  "represents m Fo \<longleftrightarrow>
     (let n = mapNumLeaves m; F = TotalRows m
      in fits n F \<and> unat (treeRows n) \<le> unat F \<and>
         (\<forall>p l. Nodes m p = Some l \<longrightarrow> node n F p \<and> leaf_Hash l = label n F Fo p) \<and>
         (\<forall>p. node n F p \<longrightarrow> root n F p \<longrightarrow> Nodes m p \<noteq> None) \<and>
         (\<forall>x p. CachedLeaves m x = Some p \<longrightarrow> node n F p \<and> subtree_at n F Fo p = Some (Tip x) \<and> Nodes m p \<noteq> None \<and>
            (\<forall>q \<in> set (needed n F [p]). Nodes m q \<noteq> None)))"

lemma representsD:
  assumes "represents m Fo" "n = mapNumLeaves m" "F = TotalRows m"
  shows "fits n F" "unat (treeRows n) \<le> unat F" "fits n (treeRows n)"
    "Nodes m p = Some l \<Longrightarrow> node n F p \<and> leaf_Hash l = label n F Fo p"
    "node n F p \<Longrightarrow> root n F p \<Longrightarrow> Nodes m p \<noteq> None"
    "CachedLeaves m x = Some p \<Longrightarrow> node n F p \<and> subtree_at n F Fo p = Some (Tip x)"
    "CachedLeaves m x = Some p \<Longrightarrow> Nodes m p \<noteq> None"
    "CachedLeaves m x = Some p \<Longrightarrow> q \<in> set (needed n F [p]) \<Longrightarrow> Nodes m q \<noteq> None"
  using assms le_treeRows[of n] by (auto simp: represents_def Let_def fits_def)

lemma RootPositions_all:
  assumes "fits n F" "node n F p" "root n F p" shows "p \<in> set (RootPositions n F)"
proof -
  obtain h r k where p: "place n F p h r k" using node_place[OF assms(1,2)] .
  then have r: "r = h" "bit n h" using root_iff(1)[OF assms(1) p] assms(3) by (auto simp: place_def in_tree_def bit_unat_iff)
  show ?thesis using place_root[OF assms(1) p[unfolded r(1)]] r(2) by (simp add: RootPositions_rows[OF assms(1)] rows_iff)
qed

lemma GetStump_represents:
  assumes "represents m Fo" shows "GetStump m = stump_of (mapNumLeaves m) Fo"
proof -
  define n F where nF: "n = mapNumLeaves m" "F = TotalRows m"
  note R = representsD[OF assms nF]
  have "leaf_Hash (nodeAt m (rootPosition n (of_nat h) F)) = rhash (Fo h)" if "bit n h" for h
  proof -
    note rp = root_place[OF R(1) that]
    have "node n F (rootPosition n (of_nat h) F)" "root n F (rootPosition n (of_nat h) F)"
      using place_row(7)[OF R(1) rp] root_iff(1)[OF R(1) rp] by auto
    then obtain l where "Nodes m (rootPosition n (of_nat h) F) = Some l" using R(5) by blast
    then show ?thesis using R(4) subtree_at_root[OF R(1) that] by (simp add: nodeAt_def label_def)
  qed
  then have "GetRoots m = map (\<lambda>h. rhash (Fo h)) (rows n)"
    using RootPositions_rows[OF R(1)] by (simp add: GetRoots_def getRoots_def nF[symmetric] rows_iff comp_def)
  then show ?thesis by (simp add: GetStump_def stump_of_def nF)
qed

lemma leaves_ok:
  assumes "fits n F" "\<forall>t \<in> set ts. node n F t \<and> (\<exists>x. subtree_at n F Fo t = Some (Tip x))"
  shows "targets_ok n F ts"
proof -
  have "\<not> isAncestor s t F" if "s \<in> set ts" "t \<in> set ts" for s t
  proof
    assume a: "isAncestor s t F"
    have "\<exists>a b. subtree_at n F Fo s = Some (Node a b)"
      using under_subtree[OF assms(1) _ _ _ a] assms(2) that by blast
    then show False using assms(2) that(1) by fastforce
  qed
  then show ?thesis using assms by (auto simp: targets_ok_def)
qed

lemma needed_each: "q \<in> set (needed n F ts) \<Longrightarrow> \<exists>t \<in> set ts. q \<in> set (needed n F [t])"
proof -
  assume "q \<in> set (needed n F ts)"
  then obtain c where c: "c \<in> climbs n F (set ts)" "\<not> root n F c" "sibling c \<notin> climbs n F (set ts)" "q = sibling c"
    by (auto simp: set_needed)
  have "\<exists>t \<in> T. d \<in> climbs n F {t}" if "d \<in> climbs n F T" for d T
    using that by induction (auto intro: climbs.intros)
  then obtain t where t: "t \<in> set ts" "c \<in> climbs n F {t}" using c(1) by blast
  moreover have "sibling c \<notin> climbs n F {t}" using c(3) climbs_mono[of "{t}" "set ts" "sibling c"] t(1) by auto
  ultimately show ?thesis using c(2,4) by (auto simp: set_needed)
qed

lemma proofNodes_labels:
  assumes "\<And>p. p \<in> set ps \<Longrightarrow> \<exists>l. Nodes m p = Some l \<and> leaf_Hash l = H p"
  shows "proofNodes m ps = Inr (map H ps)"
  using assms
proof (induction ps)
  case (Cons p ps)
  obtain l where "Nodes m p = Some l" "leaf_Hash l = H p" using Cons.prems[of p] by auto
  then show ?case using Cons by simp
qed simp

lemma translate_self:
  assumes "fits n F" "node n F p" shows "translatePos p F F = p"
proof -
  obtain h r k where p: "place n F p h r k" using node_place[OF assms] .
  show ?thesis using place_eq[OF place_translate[OF assms(1,1) p] p] .
qed

lemma Prove_represents:
  assumes "represents m Fo" "cached m hs" "distinct hs" "n = mapNumLeaves m" "F = TotalRows m" "G = treeRows n"
    "ts = map (\<lambda>h. the (CachedLeaves m h)) hs" "us = map (\<lambda>t. translatePos t F G) ts"
  shows "MapPollard_Prove m hs = Inr \<lparr>Targets = us, proofHashes = map (label n G Fo) (needed n G us)\<rparr>"
    "targets_ok n G us" "distinct us" "map (label n G Fo) us = hs" "\<forall>t \<in> set us. subtree_at n G Fo t \<noteq> None"
    "targets_ok n F ts" "distinct ts"
proof -
  note R = representsD[OF assms(1,4,5)]
  have fG: "fits n G" using R(3) assms(6) by simp
  have leaf: "node n F (the (CachedLeaves m x)) \<and> subtree_at n F Fo (the (CachedLeaves m x)) = Some (Tip x)" if "x \<in> set hs" for x
    using assms(2) that R(6)[of x] by (auto simp: cached_def list_all_iff)
  have lts: "\<forall>t \<in> set ts. node n F t \<and> (\<exists>x. subtree_at n F Fo t = Some (Tip x))" using leaf by (auto simp: assms(7))
  show ok: "targets_ok n F ts" by (rule leaves_ok[OF R(1) lts])
  have "inj_on (\<lambda>h. the (CachedLeaves m h)) (set hs)"
    using leaf by (intro inj_onI) (metis option.inject utree.inject(1))
  then show d: "distinct ts" using assms(3) by (simp add: assms(7) distinct_map)
  show oku: "targets_ok n G us" unfolding assms(8) by (rule translate_ok[OF R(1) fG ok])
  show "distinct us" unfolding assms(8) by (rule translate_distinct[OF R(1) fG ok d])
  have lab: "label n G Fo (translatePos p F G) = label n F Fo p" if "node n F p" for p
    using translate_node(4)[OF R(1) fG that] by (simp add: label_def)
  show "map (label n G Fo) us = hs"
    using leaf by (auto simp: assms(7,8) comp_def lab label_def[of n F] intro: map_idI)
  show "\<forall>t \<in> set us. subtree_at n G Fo t \<noteq> None"
    using lts translate_node(4)[OF R(1) fG] by (auto simp: assms(8))
  have nn: "node n F q" if "q \<in> set (needed n F ts)" for q
    using that sibling_node(1)[OF R(1)] climbs_node[OF R(1)] lts by (auto simp: set_needed)
  have "\<exists>l. Nodes m q = Some l \<and> leaf_Hash l = label n F Fo q" if q: "q \<in> set (needed n F ts)" for q
  proof -
    obtain t where t: "t \<in> set ts" "q \<in> set (needed n F [t])" using needed_each[OF q] by blast
    then obtain x where "x \<in> set hs" "CachedLeaves m x = Some t"
      using assms(2) by (auto simp: assms(7) cached_def list_all_iff)
    then show ?thesis using R(8)[of x t q] R(4)[of q] t(2) by auto
  qed
  then have pn: "proofNodes m (needed n F ts) = Inr (map (label n F Fo) (needed n F ts))" by (rule proofNodes_labels)
  have nG: "map (label n F Fo) (needed n F ts) = map (label n G Fo) (needed n G us)"
    unfolding assms(8) translate_needed[OF R(1) fG ok] using lab nn by simp
  have tr: "(if F \<noteq> G then translatePositions ts F G else ts) = us"
    using translate_self[OF R(1)] lts by (auto simp: assms(8) translatePositions_def intro: map_idI[symmetric])
  show "MapPollard_Prove m hs = Inr \<lparr>Targets = us, proofHashes = map (label n G Fo) (needed n G us)\<rparr>"
    using assms(2) proofPositions_sort[OF ok d] pn tr
    unfolding MapPollard_Prove_def Let_def assms(4,5)[symmetric] assms(6)[symmetric] assms(7)[symmetric] copySortedFunc_def nG by simp
qed

section \<open>Proofs of a map pollard\<close>

lemma translate_low:
  assumes "unat p < 2 ^ unat F" "unat F \<le> 63" shows "translatePos p F G = p"
proof -
  have v: "valid_pos (unat F) 0 (unat p)" using assms(1) by (simp add: valid_pos_def)
  have "posn (unat F) 0 (unat p) = p" by (simp add: posn_def rowStart_def)
  then have "detectRow p F = 0" using detectRow_posn[OF v assms(2)] by simp
  then show ?thesis by (simp add: translatePos_def)
qed

lemma node_bound: "fits n F \<Longrightarrow> node n F p \<Longrightarrow> unat p < 2 ^ (unat F + 1) - 1"
proof -
  assume a: "fits n F" "node n F p"
  then obtain h r k where p: "place n F p h r k" using node_place by blast
  show ?thesis using valid_pos_lt[OF place_row(4)[OF a(1) p]] place_row(6)[OF a(1) p] by simp
qed

text \<open>Targets in the rows the forest needs are not changed by the translation in \<open>Verify\<close>.\<close>

lemma Verify_translation:
  assumes "fits n F" "G = treeRows n" "unat G \<le> unat F" "\<forall>t \<in> set us. node n G t"
  shows "(if G \<noteq> F then translatePositions us F G else us) = us"
proof (cases "G = F")
  case False
  have f: "fits n G" using assms le_treeRows[of n] by (auto simp: fits_def)
  have "unat G < unat F" using False assms(3) by (simp add: order_le_less word_unat_eq_iff)
  then have "(2::nat) ^ (unat G + 1) \<le> 2 ^ unat F" by (intro power_increasing) auto
  then have "translatePos t F G = t" if "t \<in> set us" for t
    using node_bound[OF f, of t] assms(1,4) that by (intro translate_low) (auto simp: fits_def)
  then show ?thesis using False by (simp add: translatePositions_def map_idI)
qed simp

lemma MapPollard_Verify_eq:
  assumes "represents m Fo" "\<forall>t \<in> set (Targets pr). node (mapNumLeaves m) (treeRows (mapNumLeaves m)) t"
  shows "MapPollard_Verify m hs pr remember =
    bindR (Verify (stump_of (mapNumLeaves m) Fo) hs pr) (\<lambda>_. if remember then Ingest m hs pr else Inr m)"
proof -
  note R = representsD[OF assms(1) refl refl]
  have "(if treeRows (mapNumLeaves m) \<noteq> TotalRows m
         then pr\<lparr>Targets := translatePositions (Targets pr) (TotalRows m) (treeRows (mapNumLeaves m))\<rparr> else pr) = pr"
    using Verify_translation[OF R(1) refl R(2) assms(2)] by (cases pr) (auto split: if_splits)
  then show ?thesis using GetStump_represents[OF assms(1)] by (simp add: MapPollard_Verify_def)
qed

section \<open>Ingesting a proof\<close>

lemma placeProof_spec:
  assumes "\<forall>j < length ps. i + j < length hs \<and> hs ! (i + j) = H (ps ! j)" "distinct ps"
  shows "placeProof hs ps i m = Inr (m\<lparr>Nodes := (\<lambda>p. if p \<in> set ps \<and> Nodes m p = None
      then Some \<lparr>leaf_Hash = H p, Remember = False\<rparr> else Nodes m p)\<rparr>)"
  using assms
proof (induction ps arbitrary: i m)
  case (Cons p ps)
  have h: "i < length hs" "hs ! i = H p" using Cons.prems(1)[rule_format, of 0] by simp_all
  have IH: "placeProof hs ps (i + 1) m' = Inr (m'\<lparr>Nodes := (\<lambda>p. if p \<in> set ps \<and> Nodes m' p = None
      then Some \<lparr>leaf_Hash = H p, Remember = False\<rparr> else Nodes m' p)\<rparr>)" for m'
    using Cons.prems by (intro Cons.IH) (auto dest: spec[of _ "Suc _"])
  show ?case
    using h IH Cons.prems(2) by (auto simp: setNode_def fun_eq_iff intro!: arg_cong[where f = "\<lambda>f. m\<lparr>Nodes := f\<rparr>"])
qed simp

primrec cacheAll :: "(u64 \<Rightarrow> Hash) \<Rightarrow> u64 list \<Rightarrow> (Hash \<rightharpoonup> u64) \<Rightarrow> Hash \<rightharpoonup> u64" where
  "cacheAll H [] c = c"
| "cacheAll H (p # ps) c = cacheAll H ps (c(H p \<mapsto> p))"

lemma placeHashes_spec:
  "distinct ps \<Longrightarrow> placeHashes rs ps (map H ps) m =
    Inr (m\<lparr>Nodes := (\<lambda>p. if p \<in> set ps then Some \<lparr>leaf_Hash = H p, Remember = p \<in> set rs\<rparr> else Nodes m p),
          CachedLeaves := cacheAll H (filter (\<lambda>p. p \<in> set rs) ps) (CachedLeaves m)\<rparr>)"
proof (induction ps arbitrary: m)
  case (Cons p ps)
  define m1 where "m1 = m\<lparr>Nodes := (Nodes m)(p \<mapsto> \<lparr>leaf_Hash = H p, Remember = p \<in> set rs\<rparr>),
    CachedLeaves := (if p \<in> set rs then (CachedLeaves m)(H p \<mapsto> p) else CachedLeaves m)\<rparr>"
  have "placeHashes rs (p # ps) (map H (p # ps)) m = placeHashes rs ps (map H ps) m1"
    by (simp add: m1_def setNode_def setCached_def Let_def)
  also have "\<dots> = Inr (m1\<lparr>Nodes := (\<lambda>p. if p \<in> set ps then Some \<lparr>leaf_Hash = H p, Remember = p \<in> set rs\<rparr> else Nodes m1 p),
    CachedLeaves := cacheAll H (filter (\<lambda>p. p \<in> set rs) ps) (CachedLeaves m1)\<rparr>)"
    by (rule Cons.IH) (use Cons.prems in simp)
  also have "(\<lambda>p. if p \<in> set ps then Some \<lparr>leaf_Hash = H p, Remember = p \<in> set rs\<rparr> else Nodes m1 p) =
    (\<lambda>q. if q \<in> set (p # ps) then Some \<lparr>leaf_Hash = H q, Remember = q \<in> set rs\<rparr> else Nodes m q)"
    by (auto simp: m1_def)
  also have "cacheAll H (filter (\<lambda>p. p \<in> set rs) ps) (CachedLeaves m1) =
    cacheAll H (filter (\<lambda>p. p \<in> set rs) (p # ps)) (CachedLeaves m)"
    by (simp add: m1_def)
  finally have r: "placeHashes rs (p # ps) (map H (p # ps)) m =
    Inr (m1\<lparr>Nodes := (\<lambda>q. if q \<in> set (p # ps) then Some \<lparr>leaf_Hash = H q, Remember = q \<in> set rs\<rparr> else Nodes m q),
      CachedLeaves := cacheAll H (filter (\<lambda>p. p \<in> set rs) (p # ps)) (CachedLeaves m)\<rparr>)" .
  have "m1\<lparr>Nodes := a, CachedLeaves := b\<rparr> = m\<lparr>Nodes := a, CachedLeaves := b\<rparr>" for a b by (simp add: m1_def)
  then show ?case unfolding r by blast
qed simp

lemma cacheAll_new:
  "cacheAll H ps c x = Some q \<Longrightarrow> c x = Some q \<or> q \<in> set ps \<and> H q = x"
proof (induction ps arbitrary: c)
  case (Cons p ps)
  have "cacheAll H ps (c(H p \<mapsto> p)) x = Some q" using Cons.prems by simp
  from Cons.IH[OF this] show ?case by (auto split: if_splits)
qed simp

lemma cacheAll_dom: "cacheAll H ps c x \<noteq> None \<longleftrightarrow> c x \<noteq> None \<or> x \<in> H ` set ps"
  by (induction ps arbitrary: c) auto

lemma sort_map_sort: "sort (map f (sort xs)) = sort (map f xs)"
  by (simp flip: sorted_list_of_multiset_mset)

lemma translateSort_labelled:
  assumes "represents m Fo" "n = mapNumLeaves m" "F = TotalRows m" "G = treeRows n" "sorted ps" "\<forall>p \<in> set ps. node n G p"
  shows "translateSort m (of_pairs (labelled (label n G Fo) ps)) =
    Inr (of_pairs (labelled (label n F Fo) (sort (map (\<lambda>p. translatePos p G F) ps))))"
proof -
  note R = representsD[OF assms(1-3)]
  let ?t = "\<lambda>p. translatePos p G F"
  have fG: "fits n G" using R(3) assms(4) by simp
  have lab: "map (label n G Fo) ps = map (label n F Fo) (map ?t ps)"
    using assms(6) translate_node(4)[OF fG R(1)] by (simp add: label_def)
  show ?thesis
  proof (cases "F = G")
    case True
    then have "map ?t ps = ps" using assms(6) translate_self[OF fG] by (simp add: map_idI)
    then show ?thesis using True assms(5) unfolding translateSort_def assms(2,3,4)[symmetric] by (simp add: sort_key_id_if_sorted sorted_sort_id)
  next
    case False
    have "(of_pairs (labelled (label n G Fo) ps))\<lparr>positions := translatePositions ps G F\<rparr> = of_pairs (labelled (label n F Fo) (map ?t ps))"
      using lab by (simp add: labelled_eq translatePositions_def)
    then show ?thesis using False unfolding translateSort_def assms(2,3,4)[symmetric]
      by (simp add: sort_hnp_pairs sort_labelled)
  qed
qed

lemma translate_climbL:
  assumes "fits n G" "fits n F" "\<forall>u \<in> set us. node n G u"
  shows "sort (map (\<lambda>p. translatePos p G F) (climbL n G us)) = climbL n F (map (\<lambda>p. translatePos p G F) us)"
proof (rule strict_sorted_equal)
  let ?t = "\<lambda>p. translatePos p G F"
  show "set (sort (map ?t (climbL n G us))) = set (climbL n F (map ?t us))"
    using translate_climbs[OF assms] by simp
  have nd: "node n G c" if "c \<in> climbs n G (set us)" for c using climbs_node[OF assms(1,3) that] .
  have "distinct (map ?t (climbL n G us))"
    using translate_node(3)[OF assms(1,2) nd] climbL_set(2)[of n G us]
    by (auto simp: distinct_map strict_sorted_iff inj_on_def) metis
  then show "ascending (sort (map ?t (climbL n G us)))" by (simp add: strict_sorted_iff)
qed simp

text \<open>The map pollard after a proof of the leaves at \<open>ts\<close> has been ingested.\<close>

definition ingested :: "MapPollard \<Rightarrow> forest \<Rightarrow> u64 list \<Rightarrow> MapPollard" where
  "ingested m Fo ts =
     (let n = mapNumLeaves m; F = TotalRows m
      in m\<lparr>Nodes := (\<lambda>p. if p \<in> climbs n F (set ts) then Some \<lparr>leaf_Hash = label n F Fo p, Remember = p \<in> set ts\<rparr>
                         else if p \<in> set (needed n F ts) \<and> Nodes m p = None
                         then Some \<lparr>leaf_Hash = label n F Fo p, Remember = False\<rparr> else Nodes m p),
           CachedLeaves := cacheAll (label n F Fo) (filter (\<lambda>p. p \<in> set ts) (climbL n F ts)) (CachedLeaves m)\<rparr>)"

lemma Ingest_ingested:
  assumes "represents m Fo" "n = mapNumLeaves m" "F = TotalRows m" "G = treeRows n" "targets_ok n G us" "distinct us"
    "forest_nonzero n Fo" "\<forall>u \<in> set us. subtree_at n G Fo u \<noteq> None" "ts = map (\<lambda>u. translatePos u G F) us"
  shows "Ingest m (map (label n G Fo) us) \<lparr>Targets = us, proofHashes = map (label n G Fo) (needed n G us)\<rparr> = Inr (ingested m Fo ts)"
proof -
  note R = representsD[OF assms(1-3)]
  have fG: "fits n G" using R(3) assms(4) by simp
  have nd: "\<forall>u \<in> set us. node n G u" using assms(5) by (simp add: targets_ok_def)
  have ok: "targets_ok n F ts" "distinct ts"
    unfolding assms(9) by (rule translate_ok[OF fG R(1) assms(5)], rule translate_distinct[OF fG R(1) assms(5,6)])
  have nn: "node n G q" if "q \<in> set (needed n G us)" for q
    using that sibling_node(1)[OF fG] climbs_node[OF fG nd] by (auto simp: set_needed)
  have pl: "map (label n G Fo) (needed n G us) = map (label n F Fo) (needed n F ts)"
    unfolding assms(9) translate_needed[OF fG R(1) assms(5)] using nn translate_node(4)[OF fG R(1)] by (simp add: label_def)
  have s1: "translateSort m (of_pairs (labelled (label n G Fo) (sort us))) = Inr (of_pairs (labelled (label n F Fo) (sort ts)))"
    using translateSort_labelled[OF assms(1-4), of "sort us"] nd
    by (simp add: assms(9) sort_map_sort)
  have s2: "translateSort m (of_pairs (labelled (label n G Fo) (climbL n G us))) = Inr (of_pairs (labelled (label n F Fo) (climbL n F ts)))"
    using translateSort_labelled[OF assms(1-4), of "climbL n G us"] climbs_node[OF fG nd] climbL_set(2)[of n G us]
    by (simp add: assms(9) translate_climbL[OF fG R(1) nd] strict_sorted_iff)
  have pp: "placeProof (map (label n F Fo) (needed n F ts)) (needed n F ts) 0 m = Inr (m\<lparr>Nodes := (\<lambda>p. if p \<in> set (needed n F ts) \<and> Nodes m p = None
      then Some \<lparr>leaf_Hash = label n F Fo p, Remember = False\<rparr> else Nodes m p)\<rparr>)"
    using ascending_needed[OF ok(1)] by (intro placeProof_spec) (auto simp: strict_sorted_iff)
  have ch: "calculateHashes n (Some (map (label n G Fo) us)) \<lparr>Targets = us, proofHashes = map (label n F Fo) (needed n F ts)\<rparr> =
    Inr (of_pairs (labelled (label n G Fo) (climbL n G us)), map (\<lambda>h. rhash (Fo h)) (touched n G us))"
    unfolding pl[symmetric] by (rule calculateHashes_forest[OF assms(5,6,4,7,8) refl])
  have dc: "distinct (climbL n F ts)" using climbL_set(2)[of n F ts] by (simp add: strict_sorted_iff)
  have trim: "\<not> G > F" using R(2) assms(4) by (simp add: word_less_nat_alt)
  show ?thesis
    unfolding Ingest_def assms(2,3)[symmetric] assms(4)[symmetric] pl
    using proofPositions_sort[OF ok] trim
    by (simp add: toHashAndPos_labelled s1 s2 pp ch placeHashes_spec[OF dc] ingested_def assms(2,3)[symmetric] Let_def)
       (auto intro!: arg_cong[where f = "\<lambda>f. _\<lparr>Nodes := f, CachedLeaves := _\<rparr>"])
qed

lemma ingested_represents:
  assumes "represents m Fo" "n = mapNumLeaves m" "F = TotalRows m"
    "\<forall>t \<in> set ts. node n F t \<and> (\<exists>x. subtree_at n F Fo t = Some (Tip x))"
  shows "represents (ingested m Fo ts) Fo" "cached (ingested m Fo ts) (map (label n F Fo) ts)"
proof -
  note R = representsD[OF assms(1-3)]
  let ?m = "ingested m Fo ts"
  have same: "mapNumLeaves ?m = n" "TotalRows ?m = F" by (simp_all add: ingested_def Let_def assms(2,3))
  have Nodes: "Nodes ?m p = (if p \<in> climbs n F (set ts) then Some \<lparr>leaf_Hash = label n F Fo p, Remember = p \<in> set ts\<rparr>
    else if p \<in> set (needed n F ts) \<and> Nodes m p = None
    then Some \<lparr>leaf_Hash = label n F Fo p, Remember = False\<rparr> else Nodes m p)" for p
    by (simp add: ingested_def Let_def assms(2,3))
  have cn: "node n F c" if "c \<in> climbs n F (set ts)" for c using climbs_node[OF R(1) _ that] assms(4) by blast
  have nn: "node n F q" if "q \<in> set (needed n F ts)" for q
    using that sibling_node(1)[OF R(1)] cn by (auto simp: set_needed)
  have keep: "Nodes ?m p \<noteq> None" if "Nodes m p \<noteq> None \<or> p \<in> climbs n F (set ts) \<or> p \<in> set (needed n F ts)" for p
    using that by (auto simp: Nodes)
  have C: "CachedLeaves ?m x = Some p \<Longrightarrow> CachedLeaves m x = Some p \<or> p \<in> set ts \<and> label n F Fo p = x" for x p
    using cacheAll_new[of "label n F Fo" "filter (\<lambda>p. p \<in> set ts) (climbL n F ts)" "CachedLeaves m" x p] by (auto simp: ingested_def Let_def assms(2,3))
  have nodes: "node n F p \<and> leaf_Hash l = label n F Fo p" if "Nodes ?m p = Some l" for p l
    using that R(4)[of p l] cn nn by (auto simp: Nodes split: if_splits)
  have leaf: "node n F p \<and> subtree_at n F Fo p = Some (Tip x) \<and> Nodes ?m p \<noteq> None \<and> (\<forall>q \<in> set (needed n F [p]). Nodes ?m q \<noteq> None)"
    if c: "CachedLeaves ?m x = Some p" for x p
  proof (cases "CachedLeaves m x = Some p")
    case True
    then show ?thesis using R(6-8)[OF True] keep by blast
  next
    case False
    then have p: "p \<in> set ts" "label n F Fo p = x" using C[OF c] by auto
    then have "subtree_at n F Fo p = Some (Tip x)" using assms(4) by (auto simp: label_def)
    moreover have "Nodes ?m q \<noteq> None" if "q \<in> set (needed n F [p])" for q
      using that needed_subset[of "[p]" ts n F] p(1) keep[of q] by auto
    ultimately show ?thesis using p(1) assms(4) keep[of p] climbs.target[of p "set ts" n F] by blast
  qed
  show "represents ?m Fo" unfolding represents_def Let_def same
    using R(1,2) nodes leaf keep R(5) by blast
  have sub: "set ts \<subseteq> climbs n F (set ts)" by (auto intro: climbs.intros)
  show "cached ?m (map (label n F Fo) ts)"
    using sub unfolding cached_def list_all_iff ingested_def Let_def assms(2,3)[symmetric] by (auto simp: cacheAll_dom simp del: not_None_eq)
qed

end
