(* ===== verification/PollardProofs.thy ===== *)
theory PollardProofs
  imports PollardPaths MapProofs
begin

text \<open>
  \<open>calculatePosition\<close> leads from a node of a pollard back to its position; \<open>Prove\<close> makes the proof of the forest
  (\<open>Pollard_Prove_linked\<close>) and \<open>Verify\<close> is that of the stump (\<open>Pollard_Verify_eq\<close>).
\<close>

unbundle bit_operations_syntax

section \<open>From a node to its position\<close>

definition pushSide :: "bool \<Rightarrow> u64 \<Rightarrow> u64" where
  "pushSide d ind = push_bit 1 ind OR of_bool (\<not> d)"

lemma calculatePosition_up_hold:
  assumes "ptrs h (rref t) t" "aunt (h (rref t)) = None" "distinct (refs t)" "walk t ds = Some u" "m > 0"
  shows "calculatePosition_up h (hold (rref t) t ds) ind m = Some (fold pushSide (rev ds) ind, m + length ds, rref t)"
  using assms(4,5)
proof (induction ds arbitrary: u ind m rule: rev_induct)
  case Nil
  then show ?case using assms(2) by (subst calculatePosition_up.simps) simp
next
  case (snoc d ds)
  obtain a v where w: "walk t ds = Some (fork a d u v)" using snoc.prems(1) walk_snoc by blast
  have p: "ptrs h (hold (rref t) t ds) (fork a d u v)" using ptrs_walk[OF assms(1) w] .
  have ne: "rref u \<noteq> rref v" using walk_distinct[OF w assms(3)] rref_disjoint by auto
  have "calculatePosition_up h (rref v) ind m = calculatePosition_up h (hold (rref t) t ds) (pushSide d ind) (m + 1)"
    using p ne snoc.prems(2) by (subst calculatePosition_up.simps) (cases d; auto simp: ptrs_fork niece_def pushSide_def Let_def)
  then show ?case using snoc.IH[OF w, of "m + 1"] hold_snoc[OF w] by simp
qed

lemma calculatePosition_up_walk:
  assumes "ptrs h (rref t) t" "aunt (h (rref t)) = None" "distinct (refs t)" "walk t ds = Some u"
  shows "calculatePosition_up h (rref u) 0 0 = Some (fold pushSide (rev ds) 0, length ds, rref t)"
proof (cases ds rule: rev_cases)
  case Nil
  then show ?thesis using assms(2,4) by (subst calculatePosition_up.simps) simp
next
  case (snoc es d)
  obtain a v where w: "walk t es = Some (fork a d u v)" using assms(4) walk_snoc snoc by blast
  have p: "ptrs h (hold (rref t) t es) (fork a d u v)" using ptrs_walk[OF assms(1) w] .
  have ne: "rref u \<noteq> rref v" using walk_distinct[OF w assms(3)] rref_disjoint by auto
  have "calculatePosition_up h (rref u) 0 0 = calculatePosition_up h (hold (rref t) t es) (pushSide d 0) 1"
    using p ne by (subst calculatePosition_up.simps) (cases d; auto simp: ptrs_fork niece_def pushSide_def Let_def)
  then show ?thesis using calculatePosition_up_hold[OF assms(1-3) w, of 1] snoc by simp
qed

lemma bit_pushSide: "bit (pushSide d ind) i \<longleftrightarrow> (if i = 0 then \<not> d else i < 64 \<and> bit ind (i - 1))"
proof -
  have "bit (push_bit 1 ind) i \<longleftrightarrow> 0 < i \<and> i < 64 \<and> bit ind (i - 1)"
    by (simp only: bit_push_bit_iff) (auto dest: bit_imp_le_length)
  then show ?thesis unfolding pushSide_def bit_or_iff bit_of_bool_iff by auto
qed

lemma bit_pushed: "i < length ds \<Longrightarrow> length ds \<le> 64 \<Longrightarrow> bit (fold pushSide (rev ds) 0) i = (\<not> ds ! i)"
proof (induction ds arbitrary: i)
  case (Cons d ds)
  then show ?case by (cases i) (auto simp: bit_pushSide)
qed simp

fun follow :: "u8 \<Rightarrow> u64 \<Rightarrow> bool list \<Rightarrow> u64" where
  "follow F p [] = p"
| "follow F p (d # ds) = follow F (if d then rightChild p F else leftChild p F) ds"

lemma child_siblings: "sibling (leftChild p F) = rightChild p F" "sibling (rightChild p F) = leftChild p F"
proof -
  have "push_bit 1 p AND m OR 1 = (push_bit 1 p AND m) XOR 1" for m :: u64
  proof -
    have "\<not> bit (push_bit 1 p) 0" by (simp only: bit_push_bit_iff) simp
    then have "\<not> bit (push_bit 1 p AND m) 0" by (simp only: bit_and_iff) simp
    then show ?thesis by (intro bit_eqI) (auto simp only: bit_or_iff bit_xor_iff bit_1_iff)
  qed
  then show "sibling (leftChild p F) = rightChild p F" by (simp add: sibling_def leftChild_def rightChild_def)
  then show "sibling (rightChild p F) = leftChild p F" by (metis sibling_sibling)
qed

lemma calculatePosition_down_follow:
  assumes "\<And>j. j < length ds \<Longrightarrow> bit ind (i + j) = (\<not> ds ! j)" "i + length ds \<le> 64"
  shows "calculatePosition_down ind F [i..<i + length ds] p = follow F p ds"
  using assms
proof (induction ds arbitrary: i p)
  case (Cons d ds)
  have "ind AND push_bit i 1 = push_bit i 1 \<longleftrightarrow> bit ind i"
  proof
    assume "ind AND push_bit i 1 = push_bit i 1"
    then have "bit (ind AND push_bit i 1) i = bit (push_bit i 1 :: u64) i" by simp
    then show "bit ind i" using Cons.prems(2) by (auto simp: bit_and_iff bit_exp_iff)
  next
    assume "bit ind i"
    then show "ind AND push_bit i 1 = push_bit i 1"
      by (intro bit_eqI) (auto simp: bit_and_iff bit_exp_iff)
  qed
  moreover have "bit ind i = (\<not> d)" using Cons.prems(1)[of 0] by simp
  moreover have "calculatePosition_down ind F [Suc i..<Suc i + length ds] q = follow F q ds" for q
  proof (rule Cons.IH)
    show "bit ind (Suc i + j) = (\<not> ds ! j)" if "j < length ds" for j using Cons.prems(1)[of "Suc j"] that by simp
  qed (use Cons.prems(2) in simp)
  moreover have "[i..<i + length (d # ds)] = i # [Suc i..<Suc i + length ds]" by (simp add: upt_rec[of i] del: upt_Suc)
  ultimately show ?case by (simp add: Let_def child_siblings del: upt_Suc)
qed simp

lemma follow_place:
  assumes "fits n F" "place n F p h r k" "length ds \<le> r"
  shows "\<exists>k'. place n F (follow F p ds) h (r - length ds) k' \<and> way (length ds) k' = ds \<and> k' div 2 ^ length ds = k"
  using assms(2,3)
proof (induction ds arbitrary: p r k)
  case (Cons d ds)
  then obtain r' where r: "r = Suc r'" by (cases r) auto
  let ?q = "if d then rightChild p F else leftChild p F" let ?k = "2 * k + of_bool d"
  have "place n F ?q h r' ?k" using children_place[OF assms(1)] Cons.prems(1) r by auto
  then obtain k' where k': "place n F (follow F ?q ds) h (r' - length ds) k'" "way (length ds) k' = ds" "k' div 2 ^ length ds = ?k"
    using Cons.IH[of ?q r' ?k] Cons.prems(2) r by auto
  have "bit k' (length ds) = d" using k'(3) by (simp add: bit_iff_odd)
  moreover have "k' div 2 ^ length (d # ds) = ?k div 2" using k'(3) by (simp add: div_mult2_eq power_Suc2 del: power_Suc)
  ultimately show ?case using k' r by (intro exI[of _ k']) auto
qed simp

lemma findRootRow_linked:
  assumes "polRoots p = map (\<lambda>r. rref (T r)) (rows n)" "bit n h" "h \<le> f" "i \<le> h"
    "\<And>r. bit n r \<Longrightarrow> data (hp (rref (T r))) = rhash (Fo r)" "\<And>r. bit n r \<Longrightarrow> r < h \<Longrightarrow> rhash (Fo r) \<noteq> rhash (Fo h)"
  shows "findRootRow hp n (rhash (Fo h)) [i..<f + 1] (map (\<lambda>r. rref (T r)) (filter (\<lambda>r. i \<le> r) (rows n))) = Inr (int h)"
  using assms(4)
proof (induction "h - i" arbitrary: i rule: less_induct)
  case less
  have up: "[i..<f + 1] = i # [Suc i..<f + 1]" using less.prems assms(3) by (simp add: upt_rec)
  show ?case
  proof (cases "bit n i")
    case True
    then show ?thesis using rows_tail[OF True] less.hyps[of "Suc i"] less.prems assms(5,6)[of i] up
      by (cases "i = h") (auto simp: carry_bit)
  next
    case False
    then have "i \<noteq> h" using assms(2) by auto
    moreover have "filter (\<lambda>r. i \<le> r) (rows n) = filter (\<lambda>r. Suc i \<le> r) (rows n)"
      using False by (intro filter_cong) (auto simp: rows_iff Suc_le_eq order_le_less)
    ultimately show ?thesis using False less.hyps[of "Suc i"] less.prems up by (simp add: carry_bit)
  qed
qed

lemma distinct_roots:
  assumes "forest_distinct n Fo" "bit n h" "bit n g" "g \<noteq> h" "rhash (Fo h) \<noteq> empty" shows "rhash (Fo g) \<noteq> rhash (Fo h)"
  using distinct_filter_inj[OF assms(1)[unfolded forest_distinct_def], of g h] distinct_rows[of n] assms by (metis rows_iff)

lemma calculatePosition_walk:
  assumes "linked p T Fo" "polNumLeaves p = n" "F = treeRows n" "fits n F" "bit n h" "walk (T h) ds = Some u" "length ds \<le> h"
    "forest_distinct n Fo" "rhash (Fo h) \<noteq> empty"
  shows "calculatePosition p (rref u) = Inr (follow F (rootPosition n (of_nat h) F) ds)"
proof -
  note L = linkedD[OF assms(1,2)]
  have h: "h \<le> unat F" using place_row(2)[OF assms(4) root_place[OF assms(4,5)]] .
  then have l: "length ds \<le> 63" using assms(4,7) by (simp add: fits_def)
  have rts: "polRoots p = map (\<lambda>r. rref (T r)) (rows n)" using assms(1,2) by (simp add: linked_def)
  have R: "ptrs (Heap p) (rref (T h)) (T h)" "aunt (Heap p (rref (T h))) = None" "distinct (refs (T h))"
    using L(1)[OF assms(5)] by (auto simp: rooted_ptrs)
  have da: "data (Heap p (rref (T r))) = rhash (Fo r)" if "bit n r" for r using rooted_rhash[OF L(1)[OF that]] L(2)[OF that] by simp
  have "findRootRow (Heap p) n (rhash (Fo h)) [0..<unat F + 1] (map (\<lambda>r. rref (T r)) (filter (\<lambda>r. 0 \<le> r) (rows n))) = Inr (int h)"
    using distinct_roots[OF assms(8,5) _ _ assms(9)] da by (intro findRootRow_linked[OF rts assms(5) h]) auto
  then have "findRootRow (Heap p) n (data (Heap p (rref (T h)))) [0..<unat F + 1] (polRoots p) = Inr (int h)"
    using da[OF assms(5)] rts by simp
  moreover have "calculatePosition_down (fold pushSide (rev ds) 0) F [0..<0 + length ds] q = follow F q ds" for q
    using bit_pushed[of _ ds] l by (intro calculatePosition_down_follow) auto
  ultimately show ?thesis
    using calculatePosition_up_walk[OF R assms(6)] assms(2,3) by (simp add: calculatePosition_def returns_def Let_def)
qed

lemma tips_walk: "(a, x) \<in> set (tips t) \<Longrightarrow> \<exists>ds. walk t ds = Some (RTip a x)"
proof (induction t)
  case (RTip b y)
  then show ?case by (intro exI[of _ "[]"]) simp
next
  case (RNode b l r)
  then consider ds where "walk l ds = Some (RTip a x)" | ds where "walk r ds = Some (RTip a x)" by auto
  then show ?case
  proof cases
    case 1
    then show ?thesis by (intro exI[of _ "False # ds"]) simp
  next
    case 2
    then show ?thesis by (intro exI[of _ "True # ds"]) simp
  qed
qed

lemma walk_height: "walk t ds = Some u \<Longrightarrow> length ds \<le> height (erase t)"
  by (induction t ds rule: walk.induct) (auto split: if_splits)

lemma leaf_position:
  assumes "linked p T Fo" "indexed p T" "polNumLeaves p = n" "F = treeRows n" "fits n F" "forest_ok n Fo" "forest_nonzero n Fo"
    "forest_distinct n Fo" "x \<in> set (forest_leaves n Fo)"
  obtains a pos where "NodeMap p (mini x) = Some a" "calculatePosition p a = Inr pos" "node n F pos" "subtree_at n F Fo pos = Some (Tip x)"
proof -
  obtain h where h0: "bit n h" "x \<in> set (case Fo h of None \<Rightarrow> [] | Some t \<Rightarrow> leaves t)"
    using assms(9) unfolding forest_leaves_def set_concat set_map by (auto simp only: rows_iff)
  then obtain t where h: "bit n h" "Fo h = Some t" "x \<in> set (leaves t)" by (cases "Fo h") auto
  note L = linkedD[OF assms(1,3) h(1)]
  have e: "erase (T h) = t" using L(2) h(2) by (auto simp: opt_def split: if_splits)
  have nz: "nonzero t" using forest_nonzeroD[OF assms(7) h(1)] h(2) by (simp add: nonzeroO_def)
  have "x \<noteq> empty" using h(3) nz by (induction t) auto
  have "x \<in> snd ` set (tips (T h))" using h(3) tips_leaves[of "T h"] e by (metis list.set_map)
  then obtain a where a: "(a, x) \<in> set (tips (T h))" by force
  then obtain ds where ds: "walk (T h) ds = Some (RTip a x)" using tips_walk by blast
  have len: "length ds \<le> h" using walk_height[OF ds] forest_okD[OF assms(6) h(1,2)] e by simp
  have m: "NodeMap p (mini x) = Some a" using assms(2,3) a h(1) \<open>x \<noteq> empty\<close> by (auto simp: indexed_def rows_iff)
  let ?pos = "follow F (rootPosition n (of_nat h) F) ds"
  have c: "calculatePosition p a = Inr ?pos"
    using calculatePosition_walk[OF assms(1,3,4,5) h(1) ds len assms(8)] nonzero_thash[OF nz] h(2) by simp
  obtain k where k: "place n F ?pos h (h - length ds) k" "way (length ds) k = ds"
    using follow_place[OF assms(5) root_place[OF assms(5) h(1)] len] by blast
  have "h - (h - length ds) = length ds" using len by simp
  then have "subtree_at n F Fo ?pos = Some (Tip x)"
    using subtree_at_place[OF assms(5) k(1)] h(2) ds e k(2) uwalk_erase[of "T h" ds] by (simp add: sub_way)
  then show ?thesis using that[OF m c place_row(7)[OF assms(5) k(1)]] by simp
qed

section \<open>Proofs\<close>

lemma findTargets_leaves:
  assumes "\<And>x. x \<in> set hs \<Longrightarrow> \<exists>a. NodeMap p (mini x) = Some a \<and> calculatePosition p a = Inr (g x)"
  shows "findTargets p hs = Inr (map g hs)"
  using assms by (induction hs) (fastforce split: option.splits)+

lemma readPositions_labels:
  assumes "\<And>q. q \<in> set ps \<Longrightarrow> getHash p q = Inr (H q) \<and> H q \<noteq> empty" shows "readPositions p ps = Inr (map H ps)"
  using assms by (induction ps) auto

lemma countMatches_length:
  "countMatches cands (map ((!) rts) is) (length js) = length (matchRoots rts cands is js)"
proof (induction "is" arbitrary: js)
  case (Cons i "is")
  then show ?case using Cons.IH[of "js @ [i]"] by simp
qed simp

lemma Pollard_Verify_eq:
  "Pollard_Verify p delHashes pr rem =
     (if delHashes = [] then Inr ()
      else bindR (Verify \<lparr>Roots = Pollard_GetRoots p, NumLeaves = polNumLeaves p\<rparr> delHashes pr) (\<lambda>js.
        if js = [] then Inl (NoRoots (length delHashes)) else Inr ()))"
proof -
  let ?R = "Pollard_GetRoots p"
  have c: "countMatches cands (rev ?R) 0 = length (matchRoots ?R cands (rev [0..<length ?R]) [])" for cands
    using countMatches_length[of cands ?R "rev [0..<length ?R]" "[]"] by (simp add: map_nth rev_map[symmetric])
  have "matchRoots ?R [] is js = js" for "is" js by (induction "is") auto
  then show ?thesis
    by (auto simp: Pollard_Verify_def Verify_def bindR_def c Let_def split: sum.splits)
qed

lemma touched_some:
  assumes "targets_ok n F ts" "ts \<noteq> []" shows "touched n F ts \<noteq> []"
proof
  assume "touched n F ts = []"
  then have none: "filter (root n F) (climbL n F ts) = []" using roots_climbed[OF assms(1)] by simp
  have f: "fits n F" "\<forall>t \<in> set ts. node n F t" using assms(1) by (auto simp: targets_ok_def)
  have fin: "finite (climbs n F (set ts))" by simp
  have "climbs n F (set ts) \<noteq> {}" using climbs.target[of "hd ts" "set ts"] assms(2) by auto
  then have m: "Max (climbs n F (set ts)) \<in> climbs n F (set ts)" using fin by simp
  then have nr: "\<not> root n F (Max (climbs n F (set ts)))"
    using none fin by (auto simp: climbL_def filter_empty_conv)
  have "parent (Max (climbs n F (set ts))) F \<in> climbs n F (set ts)" using climbs.up[OF m nr] .
  then have "parent (Max (climbs n F (set ts))) F \<le> Max (climbs n F (set ts))" using fin by simp
  then show False using parent_node(2)[OF f(1) climbs_node[OF f m] nr] by simp
qed

lemma needed_labels:
  assumes "fits n F" "forest_nonzero n Fo" "\<forall>t \<in> set ts. node n F t \<and> subtree_at n F Fo t \<noteq> None" "q \<in> set (needed n F ts)"
  shows "node n F q" "label n F Fo q \<noteq> empty"
proof -
  obtain c where c: "q = sibling c" "c \<in> climbs n F (set ts)" "\<not> root n F c" using assms(4) by (auto simp: set_needed)
  obtain t where t: "subtree_at n F Fo c = Some t" and nd: "node n F c" using climbs_subtree[OF assms(1,3) c(2)] by blast
  show q: "node n F q" using sibling_node(1)[OF assms(1) nd c(3)] c(1) by simp
  obtain u where "subtree_at n F Fo q = Some u" using subtree_at_up[OF assms(1) nd c(3) t] c(1) by metis
  then show "label n F Fo q \<noteq> empty" using nonzero_thash subtree_nonzero[OF assms(1,2) q] by (simp add: label_def)
qed

lemma single_leaf_node: "node 1 (treeRows 1) p \<Longrightarrow> p = 0"
proof -
  assume a: "node 1 (treeRows 1) p"
  have "treeRows 1 = 0" by code_simp
  moreover have "1 \<le> p" if "p \<noteq> 0" using that by (simp add: word_le_nat_alt Suc_le_eq unat_gt_0)
  ultimately show "p = 0" using a by (auto simp: inForest_def split: if_splits)
qed

lemma Pollard_Prove_linked:
  assumes "linked p T Fo" "indexed p T" "polNumLeaves p = n" "F = treeRows n" "fits n F" "forest_ok n Fo" "forest_nonzero n Fo"
    "forest_distinct n Fo" "set hs \<subseteq> set (forest_leaves n Fo)" "distinct hs"
  obtains ts where "Pollard_Prove p hs = Inr \<lparr>Targets = ts, proofHashes = map (label n F Fo) (needed n F ts)\<rparr>"
    "targets_ok n F ts" "distinct ts" "map (subtree_at n F Fo) ts = map (\<lambda>x. Some (Tip x)) hs"
proof (cases "hs = []")
  case True
  have "needed n F [] = []" by (simp add: needed_def needs_def climbL_def)
  then show ?thesis using that[of "[]"] True assms(5) by (simp add: Pollard_Prove_def targets_ok_def)
next
  case False
  have "\<exists>q. (\<exists>a. NodeMap p (mini x) = Some a \<and> calculatePosition p a = Inr q) \<and> node n F q \<and> subtree_at n F Fo q = Some (Tip x)"
    if x: "x \<in> set hs" for x
  proof -
    have "x \<in> set (forest_leaves n Fo)" using assms(9) x by blast
    from leaf_position[OF assms(1-8) this] show ?thesis by blast
  qed
  then obtain g where g: "\<And>x. x \<in> set hs \<Longrightarrow> (\<exists>a. NodeMap p (mini x) = Some a \<and> calculatePosition p a = Inr (g x)) \<and>
      node n F (g x) \<and> subtree_at n F Fo (g x) = Some (Tip x)" by metis
  let ?ts = "map g hs"
  have lts: "\<forall>t \<in> set ?ts. node n F t \<and> (\<exists>x. subtree_at n F Fo t = Some (Tip x))" using g by auto
  then have st: "\<forall>t \<in> set ?ts. node n F t \<and> subtree_at n F Fo t \<noteq> None" by auto
  have ok: "targets_ok n F ?ts" using leaves_ok[OF assms(5) lts] .
  have "inj_on g (set hs)" using g by (intro inj_onI) (metis option.inject utree.inject(1))
  then have d: "distinct ?ts" using assms(10) by (simp add: distinct_map)
  have lab: "map (subtree_at n F Fo) ?ts = map (\<lambda>x. Some (Tip x)) hs" using g by auto
  have rp: "readPositions p (needed n F ?ts) = Inr (map (label n F Fo) (needed n F ?ts))"
    using needed_labels[OF assms(5,7) st] getHash_place[OF assms(1,3,4,5)] by (intro readPositions_labels) auto
  have n0: "n \<noteq> 0"
  proof
    assume "n = 0"
    then have "forest_leaves n Fo = []" by (simp add: forest_leaves_def rows_def)
    then show False using assms(9) False by simp
  qed
  have ft: "findTargets p hs = Inr ?ts" by (rule findTargets_leaves) (use g in blast)
  have "Pollard_Prove p hs = Inr \<lparr>Targets = ?ts, proofHashes = map (label n F Fo) (needed n F ?ts)\<rparr>"
  proof (cases "n = 1")
    case False
    then show ?thesis
      using n0 \<open>hs \<noteq> []\<close> assms(3,4) ft proofPositions_sort[OF ok d] rp by (simp add: Pollard_Prove_def)
  next
    case True
    have z: "\<forall>t \<in> set ?ts. t = 0" using st single_leaf_node True assms(4) by auto
    have "?ts = [0]"
    proof (cases hs)
      case (Cons x xs)
      then have "xs = []" using z d by (cases xs) auto
      then show ?thesis using Cons z by simp
    qed (use False in simp)
    moreover have "needed n F [0] = []"
    proof (rule ccontr)
      assume "needed n F [0] \<noteq> []"
      then obtain q where q: "q \<in> set (needed n F [0])" by (cases "needed n F [0]") auto
      obtain c where c: "q = sibling c" "c \<in> climbs n F (set [0])" using q by (auto simp: set_needed)
      have "\<forall>t \<in> set [0]. node n F t \<and> subtree_at n F Fo t \<noteq> None" using st \<open>?ts = [0]\<close> by simp
      then have "node n F q" "node n F c" using needed_labels(1)[OF assms(5,7) _ q] climbs_subtree(1)[OF assms(5) _ c(2)] by blast+
      then have "q = 0" "c = 0" using single_leaf_node True assms(4) by blast+
      then show False using c(1) sibling_neq[of 0] by simp
    qed
    ultimately show ?thesis using True False assms(3) by (simp add: Pollard_Prove_def)
  qed
  then show ?thesis using that ok d lab by blast
qed

lemma Pollard_Verify_complete:
  assumes "linked p T Fo" "polNumLeaves p = n" "F = treeRows n" "targets_ok n F ts" "distinct ts" "forest_nonzero n Fo"
    "\<forall>t \<in> set ts. subtree_at n F Fo t \<noteq> None" "hs = map (label n F Fo) ts" "pr = \<lparr>Targets = ts, proofHashes = map (label n F Fo) (needed n F ts)\<rparr>"
  shows "(\<exists>js. Verify (stump_of n Fo) hs pr = Inr js) \<and> Pollard_Verify p hs pr rem = Inr ()"
proof -
  have f: "fits n F" "\<forall>t \<in> set ts. node n F t \<and> subtree_at n F Fo t \<noteq> None" using assms(4,7) by (auto simp: targets_ok_def)
  obtain js where js: "Verify (stump_of n Fo) hs pr = Inr js"
    using Verify_complete[OF assms(4,5,3,6,7) refl] assms(8,9) by blast
  have s: "\<lparr>Roots = Pollard_GetRoots p, NumLeaves = polNumLeaves p\<rparr> = stump_of n Fo"
    using GetRoots_linked[OF assms(1)] assms(2) by (simp add: stump_of_def)
  have ch: "calculateHashes n (Some hs) pr =
    Inr (of_pairs (labelled (label n F Fo) (climbL n F ts)), map (\<lambda>h. rhash (Fo h)) (touched n F ts))"
    using calculateHashes_labelled[OF assms(4,5,3) labels_forest[OF f(1) assms(6) f(2)], of "proofHashes pr" "Some hs"]
      assms(8,9) by (simp only: roots_climbed[OF assms(4)] root_labels[OF f(1)]) simp
  have "js \<noteq> []" if "hs \<noteq> []"
  proof
    assume "js = []"
    then have "map (\<lambda>h. rhash (Fo h)) (touched n F ts) = []"
      using Verify_iff(2)[of hs pr "stump_of n Fo" _ _ js] js ch assms(8,9) by fastforce
    then show False using touched_some[OF assms(4)] that assms(8) by simp
  qed
  then show ?thesis using js s by (auto simp: Pollard_Verify_eq)
qed

end
