(* ===== verification/PollardSurgery.thy ===== *)
theory PollardSurgery
  imports PollardProofs
begin

text \<open>
  Replacing a subtree of a pollard, and the operations that do it: a node takes the place of its parent when its
  sibling is deleted (\<open>moveBelowAunt_shape\<close>, \<open>deleteSingle_below\<close>), and the hashes above are computed again (\<open>hashToRoot_walk\<close>).
\<close>

unbundle bit_operations_syntax

section \<open>Replacing a subtree\<close>

lemma path_induct [consumes 1, case_names here step]:
  assumes "walk t ds = Some s" "P s []"
    "\<And>a e u v ds. walk u ds = Some s \<Longrightarrow> P u ds \<Longrightarrow> P (fork a e u v) (e # ds)"
  shows "P t ds"
  using assms(1)
proof (induction ds arbitrary: t)
  case Nil
  then show ?case using assms(2) by simp
next
  case (Cons e ds)
  then obtain a l r where "t = RNode a l r" by (cases t) auto
  then obtain u v where t: "t = fork a e u v" using fork_cases by metis
  then show ?case using Cons assms(3)[of u ds a e v] by simp
qed

fun put :: "rtree \<Rightarrow> bool list \<Rightarrow> rtree \<Rightarrow> rtree" where
  "put t [] s = s"
| "put (RTip a x) (d # ds) s = RTip a x"
| "put (RNode a l r) (d # ds) s = (if d then RNode a l (put r ds s) else RNode a (put l ds s) r)"

lemma put_fork [simp]: "put (fork a e u v) (e # ds) s = fork a e (put u ds s) v"
  by (simp add: fork_def)

lemma walk_below:
  assumes "walk t (d # ds) = Some s" shows "set (refs s) \<subseteq> set (below_refs t)"
proof (cases t)
  case (RNode a l r)
  then show ?thesis using assms walk_refs[of "if d then r else l" ds s] by (cases d) auto
qed (use assms in simp)

lemma put_rref: "walk t ds = Some s \<Longrightarrow> rref s' = rref s \<or> ds \<noteq> [] \<Longrightarrow> rref (put t ds s') = rref t"
  by (induction t ds rule: path_induct) auto

lemma put_walk: "walk t ds = Some s \<Longrightarrow> walk (put t ds s') ds = Some s'"
  by (induction t ds rule: path_induct) auto

lemma put_refs: "walk t ds = Some s \<Longrightarrow> set (refs (put t ds s')) \<subseteq> set (refs t) \<union> set (refs s')"
  by (induction t ds rule: path_induct) auto

lemma put_refs_out:
  assumes "walk t ds = Some s" "distinct (refs t)"
  shows "set (refs (put t ds s')) \<subseteq> (set (refs t) - set (refs s)) \<union> set (refs s')"
  using assms
proof (induction t ds rule: path_induct)
  case (step a e u v ds)
  then show ?case using walk_refs[OF step(1)] by auto
qed simp

lemma put_distinct:
  assumes "walk t ds = Some s" "distinct (refs t)" "distinct (refs s')" "set (refs s') \<subseteq> set (refs s)"
  shows "distinct (refs (put t ds s'))"
  using assms(1,2)
proof (induction t ds rule: path_induct)
  case (step a e u v ds)
  have "set (refs (put u ds s')) \<subseteq> set (refs u)" using put_refs[OF step(1)] walk_refs[OF step(1)] assms(4) by blast
  then show ?case using step by auto
qed (use assms(3) in simp)

lemma put_hold: "walk t ds = Some s \<Longrightarrow> ds \<noteq> [] \<longrightarrow> rref s' = rref s \<Longrightarrow> hold b (put t ds s') ds = hold b t ds"
proof (induction ds arbitrary: b t)
  case (Cons e ds)
  then obtain a l r where "t = RNode a l r" by (cases t) auto
  then obtain u v where t: "t = fork a e u v" using fork_cases by metis
  then show ?case using Cons by simp
qed simp

lemma put_tips: "walk t ds = Some s \<Longrightarrow> set (tips s') \<subseteq> set (tips s) \<Longrightarrow> set (tips (put t ds s')) \<subseteq> set (tips t)"
  by (induction t ds rule: path_induct) auto

lemma walk_tips: "walk t ds = Some s \<Longrightarrow> set (tips s) \<subseteq> set (tips t)"
  by (induction t ds rule: path_induct) auto

section \<open>Pointers after an update\<close>

lemma ptrs_cong:
  assumes "ptrs h b t"
    "\<And>x. x \<in> set (below_refs t) \<Longrightarrow> lNiece (h' x) = lNiece (h x) \<and> rNiece (h' x) = rNiece (h x) \<and> aunt (h' x) = aunt (h x)"
    "lNiece (h' b) = lNiece (h b)" "rNiece (h' b) = rNiece (h b)"
  shows "ptrs h' b t"
  using assms
proof (induction t arbitrary: b)
  case (RNode a l r)
  have p: "ptrs h (rref r) l" "ptrs h (rref l) r" using RNode.prems(1) by auto
  have e: "lNiece (h' x) = lNiece (h x) \<and> rNiece (h' x) = rNiece (h x) \<and> aunt (h' x) = aunt (h x)"
    if "x \<in> set (refs l) \<union> set (refs r)" for x using RNode.prems(2)[of x] that by auto
  have "ptrs h' (rref r) l" by (rule RNode.IH(1)[OF p(1)]) (auto simp: e refs_below)
  moreover have "ptrs h' (rref l) r" by (rule RNode.IH(2)[OF p(2)]) (auto simp: e refs_below)
  ultimately show ?case using RNode.prems(1,3,4) e[of "rref l"] e[of "rref r"] by auto
qed auto

lemma ptrs_move:
  assumes "ptrs h b t" "distinct (refs t)"
    "\<And>x. x \<in> set (below_refs t) \<Longrightarrow> lNiece (h' x) = lNiece (h x) \<and> rNiece (h' x) = rNiece (h x)"
    "\<And>x. x \<in> set (below_refs t) \<Longrightarrow> aunt (h' x) = (if x \<in> kids t then Some b' else aunt (h x))"
    "lNiece (h' b') = lNiece (h b)" "rNiece (h' b') = rNiece (h b)"
  shows "ptrs h' b' t"
proof (cases t)
  case (RNode a l r)
  have p: "ptrs h (rref r) l" "ptrs h (rref l) r" and d: "distinct (refs l)" "distinct (refs r)"
    and dis: "set (refs l) \<inter> set (refs r) = {}" using assms(1,2) RNode by auto
  have nk: "x \<notin> kids t" if "x \<in> set (below_refs l) \<union> set (below_refs r)" for x
    using that d dis rref_disjoint[OF dis] RNode by (auto simp: refs_below)
  have "ptrs h' (rref r) l" using assms(3,4) nk RNode by (intro ptrs_cong[OF p(1)]) (auto simp: refs_below)
  moreover have "ptrs h' (rref l) r" using assms(3,4) nk RNode by (intro ptrs_cong[OF p(2)]) (auto simp: refs_below)
  ultimately show ?thesis using assms(1,5,6) assms(4)[of "rref l"] assms(4)[of "rref r"] RNode by auto
qed (use assms in auto)

text \<open>The heap may change below a node and in the node that points to its children.\<close>

lemma ptrs_put:
  assumes "walk t ds = Some s" "ptrs h b t" "distinct (refs t)" "b \<notin> set (below_refs t)" "rref s' = rref s"
    "ptrs h' (hold b t ds) s'"
    "\<And>x. x \<in> set (refs t) \<Longrightarrow> x \<notin> set (below_refs s) \<Longrightarrow> aunt (h' x) = aunt (h x)"
    "\<And>x. x \<in> insert b (set (refs t)) \<Longrightarrow> x \<notin> set (below_refs s) \<Longrightarrow> x \<noteq> hold b t ds \<Longrightarrow> lNiece (h' x) = lNiece (h x) \<and> rNiece (h' x) = rNiece (h x)"
  shows "ptrs h' b (put t ds s')"
  using assms(1-4,6-8)
proof (induction t ds arbitrary: b rule: path_induct)
  case (step a e u v ds)
  have p: "niece e (h b) = Some (rref u)" "niece (\<not> e) (h b) = Some (rref v)"
    "aunt (h (rref u)) = Some b" "aunt (h (rref v)) = Some b" "ptrs h (rref v) u" "ptrs h (rref u) v"
    using step.prems(1) by (auto simp: ptrs_fork)
  have d: "a \<notin> set (refs u)" "a \<notin> set (refs v)" "distinct (refs u)" "distinct (refs v)" "set (refs u) \<inter> set (refs v) = {}"
    using step.prems(2) by auto
  note rd = rref_disjoint[OF d(5)]
  have su: "set (below_refs s) \<subseteq> set (below_refs u)"
  proof (cases ds)
    case (Cons c es)
    then have "set (refs s) \<subseteq> set (below_refs u)"
      using step(1) walk_below by simp
    then show ?thesis by (auto simp: refs_below)
  qed (use step(1) in simp)
  have bu: "set (below_refs u) \<subseteq> set (refs u)" "set (below_refs v) \<subseteq> set (refs v)" "rref u \<notin> set (below_refs u)" "rref v \<notin> set (below_refs v)"
    using d(3,4) by (auto simp: refs_below)
  have vb: "rref v \<notin> set (below_refs u)" using rd bu by auto
  have ho: "hold (rref v) u ds = rref v \<or> hold (rref v) u ds \<in> set (below_refs u)"
    using hold_in(1)[OF step(1) d(3) vb] by (cases ds) auto
  let ?g = "hold (rref v) u ds"
  have b: "b \<noteq> ?g" "b \<notin> set (below_refs s)" 
  proof -
    have "b \<notin> set (refs u)" "b \<notin> set (refs v)" using step.prems(3) by auto
    then show "b \<noteq> ?g" "b \<notin> set (below_refs s)" using ho su bu(1) rref_refs[of v] by auto
  qed
  have U: "ptrs h' (rref v) (put u ds s')"
  proof (rule step.IH[OF p(5) d(3) vb])
    show "ptrs h' ?g s'" using step.prems(4) by simp
    show "aunt (h' x) = aunt (h x)" if "x \<in> set (refs u)" "x \<notin> set (below_refs s)" for x
      using step.prems(5)[of x] that by simp
    show "lNiece (h' x) = lNiece (h x) \<and> rNiece (h' x) = rNiece (h x)"
      if "x \<in> insert (rref v) (set (refs u))" "x \<notin> set (below_refs s)" "x \<noteq> ?g" for x
      using step.prems(6)[of x] that by auto
  qed
  have outs: "x \<notin> set (below_refs s)" if "x \<in> set (refs v) \<or> x = a \<or> x = rref u" for x
    using that su bu d by auto
  have gv: "?g \<notin> set (below_refs v)" "?g \<noteq> rref u" using ho bu d(5) rd by auto
  have V: "ptrs h' (rref u) v"
  proof (rule ptrs_cong[OF p(6)])
    show "lNiece (h' x) = lNiece (h x) \<and> rNiece (h' x) = rNiece (h x) \<and> aunt (h' x) = aunt (h x)" if "x \<in> set (below_refs v)" for x
    proof -
      have "x \<in> set (refs v)" "x \<noteq> ?g" using that bu gv by auto
      then show ?thesis using step.prems(5)[of x] step.prems(6)[of x] outs by simp
    qed
    show "lNiece (h' (rref u)) = lNiece (h (rref u))" "rNiece (h' (rref u)) = rNiece (h (rref u))"
      using step.prems(6)[of "rref u"] outs gv by auto
  qed
  have "rref (put u ds s') = rref u" using put_rref[OF step(1)] assms(5) by simp
  moreover have "lNiece (h' b) = lNiece (h b) \<and> rNiece (h' b) = rNiece (h b)" using step.prems(6)[of b] b by simp
  moreover have "aunt (h' (rref u)) = aunt (h (rref u))" "aunt (h' (rref v)) = aunt (h (rref v))"
    using step.prems(5)[of "rref u"] step.prems(5)[of "rref v"] outs by auto
  ultimately show ?case using p U V by (cases e) (simp_all add: ptrs_fork niece_def)
qed simp

section \<open>Hashing up to the root\<close>

lemma ptrs_setData [simp]: "ptrs (setData n x h) b t = ptrs h b t"
  by (induction t arbitrary: b) auto

lemma sums_cong: "sums h t \<Longrightarrow> (\<And>x. x \<in> set (refs t) \<Longrightarrow> data (h' x) = data (h x)) \<Longrightarrow> sums h' t"
  by (induction t) auto

text \<open>All hashes are right but those from the end of the path up.\<close>

fun stale :: "heap \<Rightarrow> rtree \<Rightarrow> bool list \<Rightarrow> bool" where
  "stale h (RTip a x) ds \<longleftrightarrow> False"
| "stale h (RNode a l r) [] \<longleftrightarrow> sums h l \<and> sums h r"
| "stale h (RNode a l r) (d # ds) \<longleftrightarrow> (if d then sums h l \<and> stale h r ds else stale h l ds \<and> sums h r)"

lemma stale_fork [simp]: "stale h (fork a e u v) (e # ds) \<longleftrightarrow> stale h u ds \<and> sums h v" "stale h (fork a e u v) [] \<longleftrightarrow> sums h u \<and> sums h v"
  by (auto simp: fork_def)

lemma stale_end: "walk t es = Some s \<Longrightarrow> stale h t es \<Longrightarrow> \<exists>a l r. s = RNode a l r \<and> sums h l \<and> sums h r"
proof (induction t es rule: path_induct)
  case here
  then show ?case by (cases s) auto
qed auto

lemma stale_step:
  assumes "walk t es = Some (fork c d (RNode a l r) v)" "distinct (refs t)" "stale h t (es @ [d])"
  shows "stale (setData a (parentHash (data (h (rref l))) (data (h (rref r)))) h) t es"
  using assms
proof (induction t es rule: path_induct)
  case here
  have "rref l \<noteq> a" "rref r \<noteq> a" "a \<notin> set (refs l)" "a \<notin> set (refs r)" "a \<notin> set (refs v)"
    using here(1) rref_refs[of l] rref_refs[of r] by auto
  moreover have "sums h l" "sums h r" "sums h v" using here(2) by auto
  ultimately show ?case by (auto intro!: sums_cong[of h])
next
  case (step b e u w ds)
  have "a \<in> set (refs u)" using walk_refs[OF step(1)] by auto
  then have "a \<notin> set (refs w)" using step.prems(1) by auto
  then show ?case using step by (auto intro!: sums_cong[of h])
qed

lemma hashToRoot_walk:
  assumes "ptrs h (rref t) t" "aunt (h (rref t)) = None" "distinct (refs t)" "walk t es = Some s" "stale h t es"
  shows "\<exists>h'. hashToRoot (Some (rref s)) h = Some (Inr h') \<and> sums h' t \<and> (\<forall>x. x \<notin> set (refs t) \<longrightarrow> h' x = h x) \<and>
    (\<forall>x. lNiece (h' x) = lNiece (h x) \<and> rNiece (h' x) = rNiece (h x) \<and> aunt (h' x) = aunt (h x) \<and> remember (h' x) = remember (h x))"
  using assms(1,2,4,5)
proof (induction es arbitrary: h s rule: rev_induct)
  case Nil
  then obtain a l r where t: "t = RNode a l r" "sums h l" "sums h r" using stale_end[of t "[]" s h] by auto
  have n: "rref l \<noteq> a" "rref r \<noteq> a" "a \<notin> set (refs l)" "a \<notin> set (refs r)" using assms(3) t(1) rref_refs[of l] rref_refs[of r] by auto
  let ?h = "setData a (parentHash (data (h (rref l))) (data (h (rref r)))) h"
  have "getChildren h a = Inr (Some (rref l), Some (rref r))" using Nil t(1) by (simp add: getChildren_def)
  then have "hashToRoot (Some (rref s)) h = Some (Inr ?h)"
    using Nil t(1) by (subst hashToRoot.simps) (auto simp: getParent_def hashToRoot.simps[of None] Let_def)
  moreover have "sums ?h t" using t n by (auto intro!: sums_cong[of h])
  ultimately show ?case using t(1) by (intro exI[of _ ?h]) (auto simp: set_other)
next
  case (snoc d es)
  obtain a l r where s: "s = RNode a l r" "sums h l" "sums h r" using stale_end[OF snoc.prems(3,4)] by blast
  obtain c v where w: "walk t es = Some (fork c d s v)" using snoc.prems(3) walk_snoc by blast
  let ?h = "setData a (parentHash (data (h (rref l))) (data (h (rref r)))) h"
  have p: "ptrs h (hold (rref t) t (es @ [d])) s" using ptrs_walk[OF snoc.prems(1,3)] .
  have "getChildren h a = Inr (Some (rref l), Some (rref r))"
    using getChildren_walk[OF snoc.prems(1,2) assms(3) snoc.prems(3)] p s(1) by simp
  moreover have P: "ptrs ?h (rref t) t" "aunt (?h (rref t)) = None" using snoc.prems(1,2) by simp_all
  moreover have "getParent ?h a = Inr (Some c)" using getParent_walk[OF P assms(3) snoc.prems(3) w] s(1) by simp
  ultimately have "hashToRoot (Some (rref s)) h = hashToRoot (Some (rref (fork c d s v))) ?h"
    using s(1) by (subst hashToRoot.simps) (simp add: Let_def)
  moreover have "stale ?h t es" using stale_step[OF w[unfolded s(1)] assms(3)] snoc.prems(4) by simp
  moreover have "a \<in> set (refs t)" using walk_refs[OF snoc.prems(3)] s(1) by simp
  then have "?h x = h x" if "x \<notin> set (refs t)" for x using that by (intro set_other(4)) auto
  ultimately show ?case using snoc.IH[OF P w] by auto
qed

section \<open>Moving a node up\<close>

lemma transferNiece_shape:
  assumes "shape h b t" "distinct (refs t)" "b' \<noteq> b" "b' \<notin> set (below_refs t)" "b \<notin> set (below_refs t)"
    "\<And>a. a \<in> insert b (set (below_refs t)) \<Longrightarrow> lNiece (h' a) = lNiece (h a) \<and> rNiece (h' a) = rNiece (h a)"
    "\<And>a. a \<in> set (below_refs t) \<Longrightarrow> aunt (h' a) = aunt (h a)"
  shows "\<exists>h2. transferNiece b' b h' = Some h2 \<and>
    (\<forall>x. lNiece (h2 x) = (if x = b then None else if x = b' then lNiece (h b) else lNiece (h' x)) \<and>
      rNiece (h2 x) = (if x = b then None else if x = b' then rNiece (h b) else rNiece (h' x)) \<and>
      aunt (h2 x) = (if x \<in> kids t then Some b' else aunt (h' x)) \<and> data (h2 x) = data (h' x) \<and> remember (h2 x) = remember (h' x))"
proof -
  let ?h = "setR b None (setL b None (setR b' (rNiece (h' b)) (setL b' (lNiece (h' b)) h')))"
  have "updateAunt b' ?h = Some (adopt b' (kids t) ?h)"
    by (rule updateAunt_shape[OF assms(1,2,4)]) (use assms(3-7) in auto)
  then have "transferNiece b' b h' = Some (adopt b' (kids t) ?h)" unfolding transferNiece_def Let_def .
  then show ?thesis using assms(3) assms(6)[of b] by (intro exI[of _ "adopt b' (kids t) ?h"]) auto
qed

definition setN :: "bool \<Rightarrow> ref \<Rightarrow> ref option \<Rightarrow> heap \<Rightarrow> heap" where
  "setN e n x h = (if e then setR n x h else setL n x h)"

lemma setN_fields [simp]:
  "niece d (setN e n x h a) = (if a = n \<and> d = e then x else niece d (h a))"
  "aunt (setN e n x h a) = aunt (h a)" "data (setN e n x h a) = data (h a)" "remember (setN e n x h a) = remember (h a)"
  by (auto simp: setN_def niece_def)

lemma niece_setAunt [simp]: "niece i (setAunt n x h a) = niece i (h a)"
  by (simp add: niece_def)

lemma niece_iff:
  "lNiece m = niece False m" "rNiece m = niece True m"
  by (simp_all add: niece_def)

lemma transferAunt_niece:
  assumes "aunt (h x) = Some b" "niece e (h b) = Some x" "niece (\<not> e) (h b) \<noteq> Some x"
    "aunt (h y) = Some g" "niece d (h g) = Some y" "niece (\<not> d) (h g) = Some w" "aunt (h w) = Some g"
    "x \<noteq> y" "w \<noteq> y" "w \<noteq> x" "g \<noteq> b"
  shows "transferAunt x y h = Some (setAunt x (Some g) (setN d g (Some x) (setN e b None h)), Inr ())"
proof -
  let ?h1 = "setN e b None h" let ?h2 = "setN d g (Some x) ?h1" let ?h3 = "setAunt x (Some g) ?h2"
  have l: "(case aunt (h x) of None \<Rightarrow> (h, Inr ())
                  | Some g \<Rightarrow>
                      if lNiece (h g) = Some x then (setL g None h, Inr ())
                      else if rNiece (h g) = Some x then (setR g None h, Inr ())
                      else (h, Inl (WrongAunt (data (h x)) (data (h g))))) = (?h1, Inr ())"
    using assms(1-3) by (cases e) (auto simp: niece_def setN_def)
  have ne: "niece c (?h1 g) = niece c (h g)" for c using assms(11) by simp
  have j: "(case aunt (?h1 y) of None \<Rightarrow> (?h1, Inr ())
                  | Some g \<Rightarrow>
                      if lNiece (?h1 g) = Some y then (setL g (Some x) ?h1, Inr ())
                      else if rNiece (?h1 g) = Some y then (setR g (Some x) ?h1, Inr ())
                      else (?h1, Inl (WrongAunt (data (?h1 y)) (data (?h1 g))))) = (?h2, Inr ())"
    using assms(4-6,9) ne[of False] ne[of True] by (cases d) (auto simp: niece_def setN_def[of _ g])
  have "lNiece (?h3 g) = (if d then Some w else Some x)"
  proof -
    have "lNiece (?h3 g) = niece False (?h2 g)" by (simp add: niece_def)
    then show ?thesis using assms(6,11) by (cases d) auto
  qed
  moreover have "aunt (?h3 x) = Some g" "aunt (?h3 w) = Some g" using assms(7,10) by auto
  ultimately have "settled ?h3 g" unfolding settled_def by (cases d) auto
  then have "updateAunt g ?h3 = Some ?h3" by (rule updateAunt_settled)
  then show ?thesis using assms(4,8) unfolding transferAunt_def l Let_def prod.case sum.case j by simp
qed

text \<open>The node \<open>u\<close> takes the place of its parent \<open>a\<close>, next to \<open>w\<close>, and its sibling \<open>v\<close> goes.\<close>

lemma moveBelowAunt_shape:
  assumes "shape h g (fork c d (fork a e u v) w)" "distinct (refs (fork c d (fork a e u v) w))"
    "g \<notin> set (below_refs (fork c d (fork a e u v) w))"
  shows "\<exists>h'. moveBelowAunt (rref u) (rref v) a (Some (rref w)) h = Inr h' \<and>
    (\<forall>x i. niece i (h' x) = (if x = rref v \<or> x = a then None else if x = rref w then niece i (h (rref v))
        else if x = rref u then niece i (h a) else if x = g \<and> i = d then Some (rref u) else niece i (h x)) \<and>
      aunt (h' x) = (if x \<in> kids u then Some (rref w) else if x \<in> kids w then Some (rref u) else if x = rref u then Some g else aunt (h x)) \<and>
      data (h' x) = data (h x) \<and> remember (h' x) = remember (h x))"
proof -
  let ?A = "rref u" and ?V = "rref v" and ?W = "rref w"
  have P: "niece d (h g) = Some a" "niece (\<not> d) (h g) = Some ?W" "aunt (h a) = Some g" "aunt (h ?W) = Some g"
    "niece e (h ?W) = Some ?A" "niece (\<not> e) (h ?W) = Some ?V" "aunt (h ?A) = Some ?W" "aunt (h ?V) = Some ?W"
    using assms(1) by (auto simp: shape_iff ptrs_fork)
  have S: "shape h ?V u" "shape h ?A v" "shape h a w" using assms(1) by (auto simp: shape_iff ptrs_fork fork_def split: if_splits)
  have D: "distinct (refs u)" "distinct (refs v)" "distinct (refs w)" "set (refs u) \<inter> set (refs v) = {}"
    "set (refs u) \<inter> set (refs w) = {}" "set (refs v) \<inter> set (refs w) = {}" "a \<notin> set (refs u)" "a \<notin> set (refs v)" "a \<notin> set (refs w)"
    using assms(2) by auto
  have G: "g \<noteq> a" "g \<notin> set (refs u)" "g \<notin> set (refs v)" "g \<notin> set (refs w)" using assms(3) by auto
  have R: "?A \<in> set (refs u)" "?V \<in> set (refs v)" "?W \<in> set (refs w)" by simp_all
  have B: "x \<noteq> g \<and> x \<noteq> a \<and> x \<noteq> ?A \<and> x \<noteq> ?V \<and> x \<noteq> ?W" if "x \<in> set (below_refs u) \<union> set (below_refs w)" for x
    using that D G R by (auto simp: refs_below)
  have N: "?A \<noteq> ?V" "?A \<noteq> ?W" "?V \<noteq> ?W" "?A \<noteq> a" "?V \<noteq> a" "?W \<noteq> a" "g \<noteq> ?A" "g \<noteq> ?V" "g \<noteq> ?W"
    using rref_disjoint(3)[OF D(4)] rref_disjoint(3)[OF D(5)] rref_disjoint(3)[OF D(6)] D(7-9) G by auto
  have K: "kids u \<subseteq> set (below_refs u)" "kids w \<subseteq> set (below_refs w)" using kids_below by auto
  define h1 where "h1 = setAunt ?A (Some g) (setN d g (Some ?A) (setN e ?W None h))"
  have t1: "transferAunt ?A a h = Some (h1, Inr ())" unfolding h1_def
    by (rule transferAunt_niece[OF P(7,5) _ P(3,1,2,4)]) (use P(6) N in auto)
  have f1: "niece i (h1 x) = (if x = g \<and> i = d then Some ?A else if x = ?W \<and> i = e then None else niece i (h x))"
    "aunt (h1 x) = (if x = ?A then Some g else aunt (h x))" "data (h1 x) = data (h x)" "remember (h1 x) = remember (h x)" for x i
    using N by (auto simp: h1_def)
  have n1: "lNiece (h1 x) = lNiece (h x) \<and> rNiece (h1 x) = rNiece (h x)" if "x \<noteq> g" "x \<noteq> ?W" for x
    using f1(1)[of False x] f1(1)[of True x] that by (simp add: niece_def)
  obtain h2 where h2: "transferNiece ?A a h1 = Some h2"
    "\<And>x. lNiece (h2 x) = (if x = a then None else if x = ?A then lNiece (h a) else lNiece (h1 x)) \<and>
      rNiece (h2 x) = (if x = a then None else if x = ?A then rNiece (h a) else rNiece (h1 x)) \<and>
      aunt (h2 x) = (if x \<in> kids w then Some ?A else aunt (h1 x)) \<and> data (h2 x) = data (h1 x) \<and> remember (h2 x) = remember (h1 x)"
  proof -
    have "?A \<noteq> a" "?A \<notin> set (below_refs w)" "a \<notin> set (below_refs w)" using N B by auto
    moreover have "lNiece (h1 x) = lNiece (h x) \<and> rNiece (h1 x) = rNiece (h x)" if "x \<in> insert a (set (below_refs w))" for x
      using n1[of x] B[of x] that N G(1) by auto
    moreover have "aunt (h1 x) = aunt (h x)" if "x \<in> set (below_refs w)" for x using f1(2)[of x] B[of x] that by simp
    ultimately show ?thesis using transferNiece_shape[OF S(3) D(3), of ?A h1] that by blast
  qed
  have nk: "x \<notin> kids w" if "x \<in> set (refs u) \<or> x \<in> set (refs v)" for x using that K(2) D by (auto simp: refs_below)
  have n2: "lNiece (h2 x) = lNiece (h x) \<and> rNiece (h2 x) = rNiece (h x)" if "x \<in> insert ?V (set (below_refs u))" for x
    using that h2(2)[of x] n1[of x] B[of x] N by auto
  have a2: "aunt (h2 x) = aunt (h x)" if "x \<in> set (below_refs u)" for x
    using that h2(2)[of x] f1(2)[of x] B[of x] nk[of x] by (auto simp: refs_below)
  have Vu: "?V \<notin> set (below_refs u)" "?W \<notin> set (below_refs u)" using D R by (auto simp: refs_below)
  obtain h3 where h3: "transferNiece ?W ?V h2 = Some h3"
    "\<And>x. lNiece (h3 x) = (if x = ?V then None else if x = ?W then lNiece (h ?V) else lNiece (h2 x)) \<and>
      rNiece (h3 x) = (if x = ?V then None else if x = ?W then rNiece (h ?V) else rNiece (h2 x)) \<and>
      aunt (h3 x) = (if x \<in> kids u then Some ?W else aunt (h2 x)) \<and> data (h3 x) = data (h2 x) \<and> remember (h3 x) = remember (h2 x)"
    using transferNiece_shape[OF S(1) D(1) N(3)[symmetric] Vu(2,1) n2 a2] by blast
  have nku: "x \<notin> kids u" if "x = ?A \<or> x = a \<or> x \<in> set (refs w) \<or> x \<in> set (refs v)" for x
    using that K(1) D by (auto simp: refs_below)
  have nkw: "x \<notin> kids w" if "x = a \<or> x = ?W \<or> x = ?A" for x using that K(2) D B by blast
  have F: "niece i (h3 x) = (if x = ?V \<or> x = a then None else if x = ?W then niece i (h ?V)
        else if x = ?A then niece i (h a) else if x = g \<and> i = d then Some ?A else niece i (h x))" for i x
    using h3(2)[of x] h2(2)[of x] f1(1)[of i x] N by (cases i) (auto simp: niece_def)
  have Fa: "aunt (h3 x) = (if x \<in> kids u then Some ?W else if x \<in> kids w then Some ?A else if x = ?A then Some g else aunt (h x))" for x
    using h3(2)[of x] h2(2)[of x] f1(2)[of x] by auto
  have "aunt (h3 a) = Some g" "aunt (h3 ?A) = Some g" "aunt (h3 ?W) = Some g"
    using Fa nku nkw P(3,4) N by auto
  moreover have "lNiece (h3 g) = (if d then Some ?W else Some ?A)" using F[of False g] G N P(2) by (cases d) (auto simp: niece_def)
  ultimately have "settled h3 g" unfolding settled_def by (cases d) auto
  then have "updateAunt g h3 = Some h3" by (rule updateAunt_settled)
  then have "moveBelowAunt ?A ?V a (Some ?W) h = Inr h3"
    using t1 h2(1) h3(1) \<open>aunt (h3 a) = Some g\<close> by (simp add: moveBelowAunt_def returns_def deref_def)
  then show ?thesis using F Fa h3(2) h2(2) f1(3,4) by (intro exI[of _ h3]) simp
qed

section \<open>Deleting a node\<close>

lemma delNode_data [simp]: "data (delNode p h x) = data (h x)" "remember (delNode p h x) = remember (h x)"
  by (auto simp: delNode_def leaveAunt_def clearAunt_def Let_def split: option.splits)

lemma clearAunt_fields [simp]: "lNiece (clearAunt p h x) = lNiece (h x)" "rNiece (clearAunt p h x) = rNiece (h x)"
  by (auto simp: clearAunt_def split: option.splits)

lemma delNode_other:
  assumes "\<And>b i. aunt (h n) = Some b \<Longrightarrow> niece i (h b) \<noteq> Some n" "x \<noteq> n" "\<And>i. niece i (h n) \<noteq> Some x"
  shows "delNode (Some n) h x = h x"
proof -
  have l: "leaveAunt n h = h"
    using assms(1)[of _ True] assms(1)[of _ False] by (auto simp: leaveAunt_def niece_def split: option.splits)
  show ?thesis using assms(2) assms(3)[of True] assms(3)[of False]
    by (auto simp: delNode_def l Let_def clearAunt_def set_other niece_def split: option.splits)
qed

lemma ptrs_niece: "ptrs h b t \<Longrightarrow> niece i (h b) = Some x \<Longrightarrow> x \<in> kids t"
  by (cases t) (auto simp: niece_def split: if_splits)

lemma fork_swap: "fork a (\<not> e) v u = fork a e u v"
  by (simp add: fork_def)

lemma sums_fork: "sums h (fork a e u v) \<Longrightarrow> sums h u \<and> sums h v"
  by (auto simp: fork_def split: if_splits)

lemma walk_root: "walk t es = Some s \<Longrightarrow> distinct (refs t) \<Longrightarrow> rref t \<notin> set (below_refs s)"
proof (cases es)
  case (Cons d ds)
  assume "walk t es = Some s" "distinct (refs t)"
  then have "set (refs s) \<subseteq> set (below_refs t)" "rref t \<notin> set (below_refs t)" using walk_below Cons by (auto simp: refs_below)
  then show ?thesis by (auto simp: refs_below)
qed (auto simp: refs_below)

lemma stale_put:
  assumes "walk t es = Some s" "sums h t" "sums h u" "sums h w" shows "stale h (put t es (fork c d u w)) es"
  using assms by (induction t es rule: path_induct) (auto dest: sums_fork)

lemma getParent_aunt: "aunt (h x) = aunt (h y) \<Longrightarrow> getParent h x = getParent h y"
  by (simp add: getParent_def)

lemma niece_eq: "(\<And>i. niece i m = niece i m') \<Longrightarrow> lNiece m = lNiece m' \<and> rNiece m = rNiece m'"
  using niece_iff by metis

lemma node_eq:
  assumes "\<And>i. niece i m = niece i m'" "aunt m = aunt m'" "data m = data m'" "remember m = remember m'"
  shows "m = (m' :: polNode)"
  using niece_eq[OF assms(1)] assms(2-4) by (intro polNode.equality) auto

lemma moved_below:
  assumes "rooted h t" "walk t es = Some (fork c d (fork a e u v) w)" "g = hold (rref t) t es"
    "\<And>x i. niece i (h' x) = (if x = rref v \<or> x = a then None else if x = rref w then niece i (h (rref v))
        else if x = rref u then niece i (h a) else if x = g \<and> i = d then Some (rref u) else niece i (h x))"
    "\<And>x. x \<noteq> rref v \<Longrightarrow> x \<noteq> a \<Longrightarrow> aunt (h' x) = (if x \<in> kids u then Some (rref w) else if x \<in> kids w then Some (rref u)
        else if x = rref u then Some g else aunt (h x))"
    "\<And>x. data (h' x) = data (h x) \<and> remember (h' x) = remember (h x)"
  shows "ptrs h' (rref t) (put t es (fork c d u w))" "aunt (h' (rref t)) = None" "stale h' (put t es (fork c d u w)) es"
    "distinct (refs (put t es (fork c d u w)))" "set (refs (put t es (fork c d u w))) \<subseteq> set (refs t) - {a, rref v}"
    "\<And>x. x \<notin> set (refs t) \<Longrightarrow> h' x = h x"
proof -
  let ?s = "fork c d (fork a e u v) w" and ?s' = "fork c d u w"
  let ?A = "rref u" and ?V = "rref v" and ?W = "rref w"
  have t: "ptrs h (rref t) t" "sums h t" "aunt (h (rref t)) = None" "distinct (refs t)" using assms(1) by (auto simp: rooted_ptrs)
  have ps: "ptrs h g ?s" using ptrs_walk[OF t(1) assms(2)] assms(3) by simp
  have ds: "distinct (refs ?s)" using walk_distinct[OF assms(2) t(4)] .
  have D: "distinct (refs u)" "distinct (refs v)" "distinct (refs w)" "set (refs u) \<inter> set (refs v) = {}"
    "set (refs u) \<inter> set (refs w) = {}" "set (refs v) \<inter> set (refs w) = {}" "a \<notin> set (refs u)" "a \<notin> set (refs v)" "a \<notin> set (refs w)"
    "c \<notin> set (refs u)" "c \<notin> set (refs v)" "c \<notin> set (refs w)" "c \<noteq> a"
    using ds by auto
  have rt: "rref t \<notin> set (below_refs t)" using t(4) by (auto simp: refs_below)
  have gs: "g \<notin> set (below_refs ?s)" using hold_in(2)[OF assms(2) t(4) rt] assms(3) by simp
  then have G: "g \<noteq> a" "g \<notin> set (refs u)" "g \<notin> set (refs v)" "g \<notin> set (refs w)" by auto
  have gt: "g \<in> set (refs t)"
    using hold_in(1)[OF assms(2) t(4) rt] assms(3) by (cases "es = []") (auto simp: refs_below)
  have N: "?A \<noteq> ?V" "?A \<noteq> ?W" "?V \<noteq> ?W" "?A \<noteq> a" "?V \<noteq> a" "?W \<noteq> a" "g \<noteq> ?A" "g \<noteq> ?V" "g \<noteq> ?W"
    using rref_disjoint(3)[OF D(4)] rref_disjoint(3)[OF D(5)] rref_disjoint(3)[OF D(6)] D(7-9) G by auto
  have B: "x \<noteq> g \<and> x \<noteq> a \<and> x \<noteq> ?A \<and> x \<noteq> ?V \<and> x \<noteq> ?W" if "x \<in> set (below_refs u) \<union> set (below_refs w)" for x
  proof -
    have "x \<in> set (refs u) \<union> set (refs w)" "x \<noteq> ?A" "x \<noteq> ?W"
      using that D(1,3) rref_disjoint[OF D(5)] by (auto simp: refs_below)
    then show ?thesis using D G rref_disjoint[OF D(4)] rref_disjoint[OF D(6)] by auto
  qed
  have K: "kids u \<subseteq> set (below_refs u)" "kids w \<subseteq> set (below_refs w)" using kids_below by auto
  have ku: "x \<notin> kids u" if "x \<in> set (below_refs w) \<or> x = ?A \<or> x = ?W" for x
    using that K B D(5) by (auto simp: refs_below)
  have kw: "x \<notin> kids w" if "x \<in> set (below_refs u) \<or> x = ?A \<or> x = ?W" for x
    using that K B D(5) by (auto simp: refs_below)
  have P: "niece (\<not> d) (h g) = Some ?W" "aunt (h ?W) = Some g" "ptrs h ?V u" "ptrs h a w"
    using ps by (auto simp: ptrs_fork)
  have nb: "lNiece (h' x) = lNiece (h x) \<and> rNiece (h' x) = rNiece (h x)" if "x \<in> set (below_refs u) \<union> set (below_refs w)" for x
    by (rule niece_eq) (use B[OF that] assms(4) in simp)
  have nW: "lNiece (h' ?W) = lNiece (h ?V) \<and> rNiece (h' ?W) = rNiece (h ?V)" by (rule niece_eq) (use N assms(4) in simp)
  have nA: "lNiece (h' ?A) = lNiece (h a) \<and> rNiece (h' ?A) = rNiece (h a)" by (rule niece_eq) (use N assms(4) in simp)
  have "ptrs h' ?W u"
    using assms(5,6) nb nW B kw by (intro ptrs_move[OF P(3) D(1)]) auto
  moreover have "ptrs h' ?A w"
    using assms(5,6) nb nA B ku by (intro ptrs_move[OF P(4) D(3)]) auto
  moreover have "niece d (h' g) = Some ?A" "niece (\<not> d) (h' g) = Some ?W" using assms(4)[of d g] assms(4)[of "\<not> d" g] G(1) N P(1) by auto
  moreover have "aunt (h' ?A) = Some g" "aunt (h' ?W) = Some g" using assms(5) N ku kw P(2) by auto
  ultimately have ps': "ptrs h' g ?s'" by (simp add: ptrs_fork)
  have bs: "x \<noteq> a \<and> x \<noteq> ?A \<and> x \<noteq> ?V \<and> x \<noteq> ?W \<and> x \<notin> kids u \<and> x \<notin> kids w" if "x \<notin> set (below_refs ?s)" for x
    using that K by (auto simp: refs_below)
  show "ptrs h' (rref t) (put t es ?s')"
  proof (rule ptrs_put[OF assms(2) t(1,4) rt])
    show "ptrs h' (hold (rref t) t es) ?s'" using ps' assms(3) by simp
    show "aunt (h' x) = aunt (h x)" if "x \<notin> set (below_refs ?s)" for x
      using bs[OF that] assms(5) by simp
    show "lNiece (h' x) = lNiece (h x) \<and> rNiece (h' x) = rNiece (h x)" if "x \<notin> set (below_refs ?s)" "x \<noteq> hold (rref t) t es" for x
      by (rule niece_eq) (use bs[OF that(1)] that(2) assms(3,4) in simp)
  qed simp
  show "aunt (h' (rref t)) = None" using bs[OF walk_root[OF assms(2) t(4)]] assms(5) t(3) by simp
  have sm: "sums h' t" by (rule sums_cong[OF t(2)]) (use assms(6) in simp)
  then have "sums h' ?s" using sums_walk[OF _ assms(2)] by simp
  then show "stale h' (put t es ?s') es" using stale_put[OF assms(2) sm] by (auto dest!: sums_fork)
  show "distinct (refs (put t es ?s'))" using D by (intro put_distinct[OF assms(2) t(4)]) auto
  show "set (refs (put t es ?s')) \<subseteq> set (refs t) - {a, ?V}"
  proof -
    have "?V \<notin> set (refs ?s')" "a \<notin> set (refs ?s')" "?V \<in> set (refs ?s)" "a \<in> set (refs ?s)"
      using D rref_disjoint(2)[OF D(4)] rref_disjoint(1)[OF D(6)] by auto
    moreover have "set (refs ?s') \<subseteq> set (refs ?s)" by auto
    ultimately show ?thesis using put_refs_out[OF assms(2) t(4), of ?s'] walk_refs[OF assms(2)] by blast
  qed
  show "h' x = h x" if x: "x \<notin> set (refs t)" for x
  proof -
    have "x \<notin> set (below_refs ?s)" using walk_refs[OF assms(2)] x by (auto simp: refs_below[of ?s])
    then show ?thesis using bs[of x] assms(4-6) gt x by (intro node_eq) auto
  qed
qed

lemma getSibling_walk:
  assumes "ptrs h (rref t) t" "aunt (h (rref t)) = None" "distinct (refs t)" "walk t ds = Some s"
  shows "\<exists>q. getSibling h (rref s) = Inr q"
proof (cases ds rule: rev_cases)
  case Nil
  then show ?thesis using assms by (simp add: getSibling_def)
next
  case (snoc es d)
  obtain a v where w: "walk t es = Some (fork a d s v)" using assms(4) walk_snoc snoc by blast
  have "rref s \<noteq> rref v" using walk_distinct[OF w assms(3)] rref_disjoint by auto
  then show ?thesis using getSibling_fork ptrs_walk[OF assms(1) w] by blast
qed

lemma deleteSingle_below:
  assumes "rooted (Heap p) t" "walk t es = Some (fork c d (fork a e u v) w)"
    "getNode p (sibling del) = Inr (Some (rref u), Some (rref v), q)" "\<not> isRootPosition (parent del (treeRows (polNumLeaves p))) (polNumLeaves p)"
  shows "\<exists>h'. deleteSingle p del = Inr (p\<lparr>Heap := h', NodeMap := (NodeMap p)(mini (thash (erase v)) := None)\<rparr>) \<and>
    rooted h' (put t es (fork c d u w)) \<and> (\<forall>x. x \<notin> set (refs t) \<longrightarrow> h' x = Heap p x) \<and>
    set (refs (put t es (fork c d u w))) \<subseteq> set (refs t) - {rref v}"
proof -
  let ?h = "Heap p" let ?A = "rref u" and ?V = "rref v" and ?W = "rref w" let ?g = "hold (rref t) t es" and ?t = "put t es (fork c d u w)"
  have t: "ptrs ?h (rref t) t" "sums ?h t" "aunt (?h (rref t)) = None" "distinct (refs t)" "shape ?h (rref t) t"
    using assms(1) by (auto simp: rooted_ptrs shape_iff)
  have wa: "walk t (es @ [d]) = Some (fork a e u v)" using assms(2) walk_snoc by blast
  then have wv: "walk t ((es @ [d]) @ [\<not> e]) = Some v" using walk_snoc fork_swap by metis
  have ds: "distinct (refs (fork c d (fork a e u v) w))" using walk_distinct[OF assms(2) t(4)] .
  have rt: "rref t \<notin> set (below_refs t)" using t(4) by (auto simp: refs_below)
  note sh = shape_walk[OF t(5) assms(2)] and gs = hold_in(2)[OF assms(2) t(4) rt]
  have P: "aunt (?h a) = Some ?g" "aunt (?h ?V) = Some ?W" using sh by (auto simp: shape_iff ptrs_fork)
  have gp: "getParent ?h ?V = Inr (Some a)" using getParent_walk[OF t(1,3,4) wv wa] by simp
  obtain h1 where h1: "moveBelowAunt ?A ?V a (Some ?W) ?h = Inr h1"
    "\<And>x i. niece i (h1 x) = (if x = ?V \<or> x = a then None else if x = ?W then niece i (?h ?V)
        else if x = ?A then niece i (?h a) else if x = ?g \<and> i = d then Some ?A else niece i (?h x))"
    "\<And>x. aunt (h1 x) = (if x \<in> kids u then Some ?W else if x \<in> kids w then Some ?A else if x = ?A then Some ?g else aunt (?h x))"
    "\<And>x. data (h1 x) = data (?h x) \<and> remember (h1 x) = remember (?h x)"
    using moveBelowAunt_shape[OF sh ds gs] by blast
  define h2 where "h2 = delNode (Some ?V) h1"
  have N: "?V \<noteq> ?W" "?V \<noteq> a" "?W \<noteq> a" "?A \<noteq> a" "?A \<noteq> ?V" "a \<notin> set (refs u)" "a \<notin> set (refs w)" "?V \<notin> set (refs u)" "?V \<notin> set (refs w)"
    using ds rref_disjoint[of u v] rref_disjoint[of v w] by auto
  have Vk: "?V \<notin> kids u" "?V \<notin> kids w" "a \<notin> kids u" "a \<notin> kids w" using N kids_below[of u] kids_below[of w] by (auto simp: refs_below)
  have "niece i (?h ?V) \<noteq> Some ?V" for i
  proof -
    have "ptrs ?h ?V u" using sh by (auto simp: shape_iff ptrs_fork)
    then show ?thesis using ptrs_niece Vk(1) by blast
  qed
  then have del: "h2 x = h1 x" if "x \<noteq> ?V" for x
    unfolding h2_def using h1(2,3) Vk P(2) N that by (intro delNode_other) auto
  have "niece i (h2 ?V) = None" for i
    by (auto simp: h2_def delNode_def niece_def Let_def)
  then have n2: "niece i (h2 x) = niece i (h1 x)" for i x using del h1(2)[of i ?V] by (cases "x = ?V") auto
  have M: "ptrs h3 (rref t) ?t" "aunt (h3 (rref t)) = None" "stale h3 ?t es" "distinct (refs ?t)" "set (refs ?t) \<subseteq> set (refs t) - {a, ?V}"
    "\<And>x. x \<notin> set (refs t) \<Longrightarrow> h3 x = ?h x" if "h3 = setAunt a y h2" for h3 y
  proof -
    have "niece i (h3 x) = (if x = ?V \<or> x = a then None else if x = ?W then niece i (?h ?V)
        else if x = ?A then niece i (?h a) else if x = ?g \<and> i = d then Some ?A else niece i (?h x))" for x i
      using that n2 h1(2) by simp
    moreover have "aunt (h3 x) = (if x \<in> kids u then Some ?W else if x \<in> kids w then Some ?A else if x = ?A then Some ?g else aunt (?h x))"
      if "x \<noteq> ?V" "x \<noteq> a" for x using \<open>h3 = setAunt a y h2\<close> h1(3) del that by simp
    moreover have "data (h3 x) = data (?h x) \<and> remember (h3 x) = remember (?h x)" for x using that h1(4) by (simp add: h2_def)
    ultimately show "ptrs h3 (rref t) ?t" "aunt (h3 (rref t)) = None" "stale h3 ?t es" "distinct (refs ?t)" "set (refs ?t) \<subseteq> set (refs t) - {a, ?V}"
      "\<And>x. x \<notin> set (refs t) \<Longrightarrow> h3 x = ?h x" using moved_below[OF assms(1,2) refl, of h3] by blast+
  qed
  note M2 = M[OF setAunt_same[OF refl, symmetric]]
  have rr: "rref ?t = rref t" using put_rref[OF assms(2)] by simp
  have wt: "walk ?t es = Some (fork c d u w)" using put_walk[OF assms(2)] .
  then have wu: "walk ?t (es @ [d]) = Some u" using walk_snoc by blast
  have "set (refs u) \<inter> set (refs w) = {}" "distinct (refs u)" using ds by auto
  then have "?A \<notin> kids u" "?A \<notin> kids w"
    using kids_below[of u] kids_below[of w] rref_disjoint(1)[of u w] by (auto simp: refs_below)
  then have "aunt (h2 ?A) = Some ?g" using del[OF N(5)] h1(3)[of ?A] by simp
  moreover have "aunt (h2 a) = Some ?g" using del[OF N(2)[symmetric]] h1(3)[of a] Vk P(1) N(4) by simp
  ultimately have "getParent h2 a = getParent h2 ?A" by (intro getParent_aunt) simp
  moreover have M2t: "ptrs h2 (rref ?t) ?t" "aunt (h2 (rref ?t)) = None" using M2(1,2) rr by simp_all
  ultimately have gp2: "getParent h2 a = Inr (Some c)" using getParent_walk[OF M2t M2(4) wu wt] by simp
  obtain q' where q': "getSibling h2 c = Inr q'" using getSibling_walk[OF M2t M2(4) wt] by auto
  define h3 where "h3 = setAunt a (if q' = None then Some c else q') h2"
  note M3 = M[OF h3_def]
  have M3t: "ptrs h3 (rref ?t) ?t" "aunt (h3 (rref ?t)) = None" using M3(1,2) rr by simp_all
  obtain h4 where h4: "hashToRoot (Some c) h3 = Some (Inr h4)" "sums h4 ?t" "\<forall>x. x \<notin> set (refs ?t) \<longrightarrow> h4 x = h3 x"
    "\<forall>x. lNiece (h4 x) = lNiece (h3 x) \<and> rNiece (h4 x) = rNiece (h3 x) \<and> aunt (h4 x) = aunt (h3 x) \<and> remember (h4 x) = remember (h3 x)"
    using hashToRoot_walk[OF M3t M3(4) wt M3(3)] by auto
  have "rooted h4 ?t" unfolding rooted_ptrs using ptrs_cong[OF M3t(1), of h4] M3t(2) M3(4) h4(2,4) by simp
  moreover have "\<forall>x. x \<notin> set (refs t) \<longrightarrow> h4 x = ?h x" using h4(3) M3(5,6) by auto
  moreover have "set (refs ?t) \<subseteq> set (refs t) - {?V}" using M3(5) by blast
  moreover have dv: "data (h1 ?V) = thash (erase v)"
    using h1(4) sums_data sums_walk[OF t(2) wv] by metis
  have "deleteSingle p del = Inr (p\<lparr>Heap := h4, NodeMap := (NodeMap p)(mini (thash (erase v)) := None)\<rparr>)"
    using assms(3,4) gp P h1(1) gp2 q' h4(1) dv unfolding deleteSingle_def h2_def h3_def
    by (simp add: deref_def returns_def Let_def)
  ultimately show ?thesis by blast
qed

end
