(* ===== verification/DeleteSteps.thy ===== *)
theory DeleteSteps
  imports PollardProofs
begin

text \<open>
  Deletion in a forest one position at a time. A tree is cut at the ends of paths (\<open>cutAt\<close>), detwinned positions can be
  deleted in their order (\<open>delete_first\<close>), and detwinning does not change what is left (\<open>deTwin_delete\<close>).
\<close>

unbundle bit_operations_syntax

section \<open>Deletion by paths\<close>

text \<open>What is left of a tree when the nodes at the ends of some paths are deleted.\<close>

primrec cutAt :: "bool list set \<Rightarrow> utree \<Rightarrow> utree option" where
  "cutAt D (Tip x) = (if [] \<in> D then None else Some (Tip x))"
| "cutAt D (Node l r) = (if [] \<in> D then None else join (cutAt {q. False # q \<in> D} l) (cutAt {q. True # q \<in> D} r))"

lemma cutAt_root: "[] \<in> D \<Longrightarrow> cutAt D t = None"
  by (cases t) auto

lemma cutAt_none [simp]: "cutAt {} t = Some t"
  by (induction t) auto

lemma cutAt_single: "q \<noteq> [] \<Longrightarrow> cutAt {q} t \<noteq> None"
proof (cases t)
  case (Node l r)
  assume "q \<noteq> []"
  moreover have "join a (Some b) \<noteq> None" "join (Some b) a \<noteq> None" for a b by (cases a; simp)+
  moreover have "{p. d # p = q} = {} \<or> {p. (\<not> d) # p = q} = {}" for d by auto
  ultimately show ?thesis using Node by (cases q; cases "hd q") auto
qed auto

text \<open>One of the longest paths can be deleted first, when no path is a prefix of another and the
  sibling of the node is not deleted.\<close>

lemma cutAt_first:
  assumes "q \<in> D" "\<And>p. p \<in> D \<Longrightarrow> length p \<le> length q" "\<And>p. p \<in> D \<Longrightarrow> prefix p q \<Longrightarrow> p = q"
    "\<And>qs d. q = qs @ [d] \<Longrightarrow> qs @ [\<not> d] \<notin> D"
  shows "cutAt D t = Option.bind (cutAt {q} t) (cutAt (D - {q}))"
  using assms
proof (induction q arbitrary: t D)
  case Nil
  then show ?case by (simp add: cutAt_root)
next
  case (Cons d q)
  have nil: "[] \<notin> D" using Cons.prems(3)[of "[]"] by auto
  show ?case
  proof (cases t)
    case (Tip x)
    then show ?thesis using nil by simp
  next
    case (Node l r)
    let ?D = "\<lambda>e. {p. e # p \<in> D}"
    let ?t = "\<lambda>e. if e then r else l"
    have IH: "cutAt (?D d) (?t d) = Option.bind (cutAt {q} (?t d)) (cutAt (?D d - {q}))"
    proof (rule Cons.IH)
      show "length p \<le> length q" if "p \<in> ?D d" for p using Cons.prems(2)[of "d # p"] that by simp
      show "p = q" if "p \<in> ?D d" "prefix p q" for p using Cons.prems(3)[of "d # p"] that by simp
      show "qs @ [\<not> e] \<notin> ?D d" if "q = qs @ [e]" for qs e using Cons.prems(4)[of "d # qs" e] that by simp
    qed (use Cons.prems(1) in simp)
    have one: "{p. e # p \<in> {d # q}} = (if e = d then {q} else {})" for e by auto
    have rest: "{p. e # p \<in> D - {d # q}} = (if e = d then ?D d - {q} else ?D e)" for e by auto
    show ?thesis
    proof (cases "q = []")
      case True
      have "D = {[d]}"
      proof -
        have "p = [d]" if "p \<in> D" for p
        proof -
          have "length p \<le> 1" "p \<noteq> []" "p \<noteq> [\<not> d]" using Cons.prems(2)[OF that] Cons.prems(4)[of "[]" d] True nil that by auto
          then show ?thesis by (cases p) auto
        qed
        then have "D \<subseteq> {[d]}" by blast
        then show ?thesis using Cons.prems(1) True by blast
      qed
      then have "cutAt (D - {d # q}) w = Some w" "{p. e # p \<in> D} = (if e = d then {[]} else {})" for w e using True by auto
      moreover have "cutAt {[]} w = None" for w by (rule cutAt_root) simp
      ultimately show ?thesis using True Node nil one by (cases d) simp_all
    next
      case False
      obtain u where u: "cutAt {q} (?t d) = Some u" using cutAt_single[OF False] by blast
      then have "cutAt (?D d) (?t d) = cutAt (?D d - {q}) u" using IH by simp
      moreover have "cutAt {d # q} t = Some (if d then Node l u else Node u r)"
        unfolding Node cutAt.simps one using u by (cases d) simp_all
      moreover have "cutAt (D - {d # q}) (if d then Node l u else Node u r) =
          (if d then join (cutAt (?D False) l) (cutAt (?D d - {q}) u) else join (cutAt (?D d - {q}) u) (cutAt (?D True) r))"
      proof -
        have "cutAt (D - {d # q}) (Node a b) =
            join (cutAt (if False = d then ?D d - {q} else ?D False) a) (cutAt (if True = d then ?D d - {q} else ?D True) b)" for a b
          unfolding cutAt.simps rest using nil by simp
        then show ?thesis by (cases d) auto
      qed
      ultimately show ?thesis using Node nil by (cases d) simp_all
    qed
  qed
qed

lemma cutAt_twin:
  assumes "qs @ [False] \<in> D" "qs @ [True] \<in> D" "uwalk t (qs @ [False]) \<noteq> None"
  shows "cutAt D t = cutAt (insert qs (D - {qs @ [False], qs @ [True]})) t"
  using assms
proof (induction qs arbitrary: t D)
  case Nil
  then obtain l r where "t = Node l r" by (cases t) auto
  then show ?case using Nil by (simp add: cutAt_root)
next
  case (Cons d qs)
  then obtain l r where t: "t = Node l r" by (cases t) auto
  let ?D' = "insert (d # qs) (D - {(d # qs) @ [False], (d # qs) @ [True]})"
  have e: "{q. e # q \<in> ?D'} = (if e = d then insert qs ({q. d # q \<in> D} - {qs @ [False], qs @ [True]}) else {q. e # q \<in> D})" for e
    by auto
  have "cutAt {q. d # q \<in> D} (if d then r else l) = cutAt {q. d # q \<in> ?D'} (if d then r else l)"
    unfolding e using Cons.IH[of "{q. d # q \<in> D}" "if d then r else l"] Cons.prems t by simp
  moreover have "{q. (\<not> d) # q \<in> ?D'} = {q. (\<not> d) # q \<in> D}" unfolding e by simp
  ultimately show ?case using t by (cases d) simp_all
qed

text \<open>The other nodes that are to be deleted stay where they are.\<close>

lemma cutAt_walk:
  assumes "cutAt {q} t = Some u" "uwalk t p \<noteq> None" "length p \<le> length q" "\<not> prefix p q" "\<And>qs d. q = qs @ [d] \<Longrightarrow> p \<noteq> qs @ [\<not> d]"
  shows "uwalk u p \<noteq> None"
  using assms
proof (induction q arbitrary: t u p)
  case Nil
  then show ?case by (simp add: cutAt_root)
next
  case (Cons d q)
  obtain e p' where p: "p = e # p'" using Cons.prems(4) by (cases p) auto
  obtain l r where t: "t = Node l r" using Cons.prems(2) p by (cases t) auto
  let ?t = "\<lambda>e. if e then r else l"
  have one: "{p. e # p \<in> {d # q}} = (if e = d then {q} else {})" for e by auto
  have w: "uwalk (?t e) p' \<noteq> None" using Cons.prems(2) p t by simp
  have q: "q \<noteq> []"
  proof
    assume "q = []"
    then have "p' = []" using Cons.prems(3) p by simp
    then show False using Cons.prems(4) Cons.prems(5)[of "[]" d] p \<open>q = []\<close> by (cases e; cases d) auto
  qed
  obtain v where v: "cutAt {q} (?t d) = Some v" using cutAt_single[OF q] by blast
  then have u: "u = (if d then Node l v else Node v r)" using Cons.prems(1) t one by (cases d) auto
  show ?case
  proof (cases "e = d")
    case True
    have "uwalk v p' \<noteq> None"
    proof (rule Cons.IH[OF v])
      show "p' \<noteq> qs @ [\<not> d']" if "q = qs @ [d']" for qs d' using Cons.prems(5)[of "d # qs" d'] that p True by simp
    qed (use w Cons.prems(3,4) p True in auto)
    then show ?thesis using u p True by simp
  next
    case False
    then show ?thesis using w u p by (cases d) auto
  qed
qed

section \<open>The paths of positions\<close>

definition paths :: "u64 \<Rightarrow> u8 \<Rightarrow> nat \<Rightarrow> u64 set \<Rightarrow> bool list set" where
  "paths n F h D = {ds. length ds \<le> h \<and> follow F (rootPosition n (of_nat h) F) ds \<in> D}"

lemma prune_cutAt:
  "height t \<le> r \<Longrightarrow> prune D F p t = cutAt {ds. length ds \<le> r \<and> follow F p ds \<in> D} t"
proof (induction t arbitrary: p r)
  case (Node a b)
  then obtain r' where r: "r = Suc r'" "height a \<le> r'" "height b \<le> r'" by (cases r) auto
  then show ?case using Node.IH[of r'] by simp
qed auto

lemma delete_cutAt:
  assumes "forest_ok n Fo" "bit n h" shows "delete n F D Fo h = Option.bind (Fo h) (cutAt (paths n F h D))"
proof (cases "Fo h")
  case (Some t)
  then have "height t \<le> h" using forest_okD[OF assms] by simp
  from prune_cutAt[OF this] show ?thesis using Some by (simp add: delete_def paths_def)
qed (simp add: delete_def)

lemma way_inj: "way l k = way l k' \<Longrightarrow> k div 2 ^ l = k' div 2 ^ l \<Longrightarrow> k = k'"
proof (induction l arbitrary: k k')
  case (Suc l)
  have w: "way l (k div 2) = way l (k' div 2)" "odd k = odd k'" using Suc.prems(1) unfolding way_snoc by simp_all
  have "k div 2 = k' div 2" by (rule Suc.IH[OF w(1)]) (use Suc.prems(2) in \<open>simp only: power_Suc div_mult2_eq\<close>)
  moreover note w(2)
  ultimately show ?case by presburger
qed simp

lemma way_append: "way (l + m) k = way l (k div 2 ^ m) @ way m k"
proof (induction m arbitrary: k)
  case (Suc m)
  have "way (l + Suc m) k = way (l + m) (k div 2) @ [odd k]" using way_snoc[of "l + m" k] by simp
  then show ?case unfolding Suc[of "k div 2"] way_snoc power_Suc div_mult2_eq by simp
qed simp

lemma paths_place:
  assumes "fits n F" "place n F d h r k" shows "way (h - r) k \<in> paths n F h D \<longleftrightarrow> d \<in> D"
proof -
  let ?ds = "way (h - r) k" and ?p = "follow F (rootPosition n (of_nat h) F) (way (h - r) k)"
  have b: "bit n h" and rh: "r \<le> h" using place_bit[OF assms(2)] place_row(1)[OF assms] by auto
  obtain k' where k': "place n F ?p h (h - length ?ds) k'" "way (length ?ds) k' = ?ds" "k' div 2 ^ length ?ds = 2 * (unat n div 2 ^ Suc h)"
    using follow_place[OF assms(1) root_place[OF assms(1) b], of ?ds] length_way[of "h - r" k] diff_le_self[of h r] by metis
  have "k div 2 ^ (h - r) = 2 * (unat n div 2 ^ Suc h)" using assms(2) by (simp add: place_def in_tree_def)
  then have "k' = k" using way_inj[of "h - r" k' k] k'(2,3) length_way by metis
  then have "?p = d" using k'(1) assms(2) rh by (simp add: place_def)
  then show ?thesis by (simp add: paths_def)
qed

lemma pathsD:
  assumes "fits n F" "bit n h" "ds \<in> paths n F h D"
  shows "\<exists>d r k. d \<in> D \<and> place n F d h r k \<and> ds = way (h - r) k"
proof -
  have l: "length ds \<le> h" and D: "follow F (rootPosition n (of_nat h) F) ds \<in> D" using assms(3) by (auto simp: paths_def)
  obtain k where "place n F (follow F (rootPosition n (of_nat h) F) ds) h (h - length ds) k" "way (length ds) k = ds"
    using follow_place[OF assms(1) root_place[OF assms(1,2)] l] by blast
  moreover have "h - (h - length ds) = length ds" using l by simp
  ultimately show ?thesis using D by metis
qed

lemma place_unique:
  assumes "fits n F" "place n F p h r k" "place n F p h' r' k'" shows "h = h' \<and> r = r' \<and> k = k'"
proof -
  have "r = r'" "k = k'" using node_less_iff[OF assms(1,2,3)] node_less_iff[OF assms(1,3,2)] by auto
  then show ?thesis using assms(2,3) in_tree_unique[of "unat n" h r k h'] by (simp add: place_def)
qed

lemma way_flip: "way (Suc l) (if even k then k + 1 else k - 1) = way l (k div 2) @ [even k]"
proof -
  have "(if even k then k + 1 else k - 1) div 2 = k div 2" by (auto elim!: evenE oddE)
  moreover have "odd (if even k then k + 1 else k - 1) = even k" by auto
  ultimately show ?thesis unfolding way_snoc by simp
qed

text \<open>The path of a position, of its sibling and of its ancestors.\<close>

lemma paths_sibling:
  assumes "fits n F" "place n F d h r k" "way (h - r) k = qs @ [e]" shows "qs @ [\<not> e] \<in> paths n F h D \<longleftrightarrow> sibling d \<in> D"
proof -
  have "r \<noteq> h" using assms(3) by auto
  then have l: "r < h" "h - r = Suc (h - Suc r)" using place_row(1)[OF assms(1,2)] by auto
  have "qs = way (h - Suc r) (k div 2)" "e = odd k" using assms(3) unfolding l(2) way_snoc by auto
  then have "qs @ [\<not> e] = way (h - r) (if even k then k + 1 else k - 1)" unfolding l(2) way_flip by simp
  then show ?thesis using paths_place[OF assms(1) node_sibling[OF assms(1,2) l(1)]] by metis
qed

lemma prefix_ancestor:
  assumes "fits n F" "place n F d h r k" "place n F d' h r' k'" "r \<le> r'" "prefix (way (h - r') k') (way (h - r) k)"
  shows "d' = d \<or> isAncestor d' d F"
proof -
  have h: "r \<le> h" "r' \<le> h" using place_row(1)[OF assms(1)] assms(2,3) by auto
  have "way (h - r) k = way (h - r') (k div 2 ^ (r' - r)) @ way (r' - r) k"
    using way_append[of "h - r'" "r' - r" k] h assms(4) by simp
  then have "way (h - r') k' = way (h - r') (k div 2 ^ (r' - r))"
    using assms(5) by (auto simp: prefix_def dest!: append_eq_append_conv[THEN iffD1, rotated])
  moreover have "k' div 2 ^ (h - r') = k div 2 ^ (r' - r) div 2 ^ (h - r')"
  proof -
    have "h - r = (r' - r) + (h - r')" using h assms(4) by simp
    then have "k div 2 ^ (h - r) = k div 2 ^ (r' - r) div 2 ^ (h - r')" by (simp only: power_add div_mult2_eq)
    moreover have "k' div 2 ^ (h - r') = 2 * (unat n div 2 ^ Suc h)" "k div 2 ^ (h - r) = 2 * (unat n div 2 ^ Suc h)"
      using assms(2,3) unfolding place_def in_tree_def by blast+
    ultimately show ?thesis by (simp only:)
  qed
  ultimately have k: "k' = k div 2 ^ (r' - r)" by (rule way_inj)
  show ?thesis
  proof (cases "r = r'")
    case True
    then have "k' = k" using k by simp
    moreover have "d = posn (unat F) r k" "d' = posn (unat F) r' k'" using assms(2,3) unfolding place_def by blast+
    ultimately show ?thesis using True by simp
  next
    case False
    then have "r < r'" using assms(4) by simp
    from iffD2[OF place_ancestor[OF assms(1,2,3)] conjI[OF this k]] show ?thesis ..
  qed
qed

lemma paths_empty [simp]: "paths n F h {} = {}"
  by (simp add: paths_def)

lemma paths_none:
  assumes "fits n F" "place n F d g r k" "bit n h" "h \<noteq> g" shows "paths n F h {d} = {}" "paths n F h (insert d D) = paths n F h D"
proof -
  have "paths n F h {d} = {}"
  proof (rule equals0I)
    fix ds assume "ds \<in> paths n F h {d}"
    then obtain d' r' k' where "d' \<in> {d}" "place n F d' h r' k'" using pathsD[OF assms(1,3)] by blast
    then have "place n F d h r' k'" by simp
    from place_unique[OF assms(1,2) this] show False using assms(4) by simp
  qed
  moreover have "paths n F h (insert d D) = paths n F h {d} \<union> paths n F h D" by (auto simp: paths_def)
  ultimately show "paths n F h {d} = {}" "paths n F h (insert d D) = paths n F h D" by auto
qed

lemma paths_one:
  assumes "fits n F" "place n F d h r k" shows "paths n F h {d} = {way (h - r) k}"
proof -
  have "ds = way (h - r) k" if ds: "ds \<in> paths n F h {d}" for ds
  proof -
    obtain d' r' k' where d': "d' \<in> {d}" "place n F d' h r' k'" "ds = way (h - r') k'"
      using pathsD[OF assms(1) place_bit[OF assms(2)] ds] by blast
    then have "place n F d h r' k'" by simp
    from place_unique[OF assms this] show ?thesis using d'(3) by simp
  qed
  moreover have "way (h - r) k \<in> paths n F h {d}" using paths_place[OF assms] by simp
  ultimately show ?thesis by blast
qed

section \<open>Deleting one position at a time\<close>

text \<open>Positions that can be deleted in their order: none lies under another and no two are siblings.\<close>

definition apart_dels :: "u64 \<Rightarrow> u8 \<Rightarrow> u64 list \<Rightarrow> bool" where
  "apart_dels n F ds \<longleftrightarrow> targets_ok n F ds \<and> ascending ds \<and> list_all (\<lambda>d. sibling d \<notin> set ds) ds"

lemma apart_dels_Cons: "apart_dels n F (d # ds) \<Longrightarrow> apart_dels n F ds"
  by (auto simp: apart_dels_def targets_ok_def list_all_iff)

lemma later_paths:
  assumes "apart_dels n F (d # ds)" "place n F d h r k" "p \<in> paths n F h (set ds)"
  shows "length p \<le> length (way (h - r) k)" "\<not> prefix p (way (h - r) k)" "\<And>qs e. way (h - r) k = qs @ [e] \<Longrightarrow> p \<noteq> qs @ [\<not> e]"
proof -
  have f: "fits n F" and a: "targets_ok n F (d # ds)" "\<forall>d' \<in> set ds. d < d'" "sibling d \<notin> set (d # ds)"
    using assms(1) by (auto simp: apart_dels_def targets_ok_def)
  obtain d' r' k' where d': "d' \<in> set ds" "place n F d' h r' k'" "p = way (h - r') k'"
    using pathsD[OF f place_bit[OF assms(2)] assms(3)] by blast
  have lt: "d < d'" "r \<le> r'" using a(2) d'(1) node_less_iff[OF f assms(2) d'(2)] by auto
  then show "length p \<le> length (way (h - r) k)" using d'(3) by simp
  have "\<not> isAncestor d' d F" using a(1) d'(1) by (auto simp: targets_ok_def)
  then show "\<not> prefix p (way (h - r) k)" using prefix_ancestor[OF f assms(2) d'(2) lt(2)] lt(1) d'(3) by auto
  show "p \<noteq> qs @ [\<not> e]" if "way (h - r) k = qs @ [e]" for qs e
    using paths_sibling[OF f assms(2) that, of "set ds"] assms(3) a(3) by auto
qed

lemma delete_first:
  assumes "apart_dels n F (d # ds)" "forest_ok n Fo" "bit n h"
  shows "delete n F (set (d # ds)) Fo h = delete n F (set ds) (delete n F {d} Fo) h"
proof -
  have f: "fits n F" "node n F d" "d \<notin> set ds" using assms(1) by (auto simp: apart_dels_def targets_ok_def)
  obtain g r k where g: "place n F d g r k" using node_place[OF f(1,2)] .
  have L: "delete n F (set (d # ds)) Fo h = Option.bind (Fo h) (cutAt (paths n F h (insert d (set ds))))"
    using delete_cutAt[OF assms(2,3)] by simp
  have R: "delete n F (set ds) (delete n F {d} Fo) h = Option.bind (Option.bind (Fo h) (cutAt (paths n F h {d}))) (cutAt (paths n F h (set ds)))"
    using delete_cutAt[OF delete_ok[OF assms(2)] assms(3)] delete_cutAt[OF assms(2,3)] by simp
  show ?thesis
  proof (cases "h = g")
    case False
    then show ?thesis unfolding L R paths_none[OF f(1) g assms(3) False] by (cases "Fo h") auto
  next
    case True
    let ?q = "way (h - r) k" and ?D = "paths n F h (insert d (set ds))"
    note g' = g[folded True]
    have D: "?D = insert ?q (paths n F h (set ds))" using paths_one[OF f(1) g'] by (auto simp: paths_def)
    have "?q \<notin> paths n F h (set ds)" using paths_place[OF f(1) g'] f(3) by simp
    then have D': "?D - {?q} = paths n F h (set ds)" using D by auto
    have "cutAt ?D t = Option.bind (cutAt {?q} t) (cutAt (?D - {?q}))" for t
    proof (rule cutAt_first)
      show "length p \<le> length ?q" "prefix p ?q \<Longrightarrow> p = ?q" if "p \<in> ?D" for p
        using that later_paths(1,2)[OF assms(1) g'] unfolding D by auto
      show "qs @ [\<not> e] \<notin> ?D" if "?q = qs @ [e]" for qs e
        using later_paths(3)[OF assms(1) g' _ that] that unfolding D by auto
    qed (simp add: D)
    then show ?thesis unfolding L R paths_one[OF f(1) g'] D' by (cases "Fo h") auto
  qed
qed

lemma subtree_later:
  assumes "apart_dels n F (d # ds)" "forest_ok n Fo" "d' \<in> set ds" "subtree_at n F Fo d' \<noteq> None"
  shows "subtree_at n F (delete n F {d} Fo) d' \<noteq> None"
proof -
  have f: "fits n F" "node n F d" "node n F d'" "d' \<noteq> d" using assms(1,3) by (auto simp: apart_dels_def targets_ok_def)
  obtain g r k where g: "place n F d g r k" using node_place[OF f(1,2)] .
  obtain h s j where h: "place n F d' h s j" using node_place[OF f(1,3)] .
  obtain t where t: "Fo h = Some t" "uwalk t (way (h - s) j) \<noteq> None"
    using assms(4) unfolding subtree_at_place[OF f(1) h] sub_way by (cases "Fo h") auto
  have dl: "delete n F {d} Fo h = cutAt (paths n F h {d}) t" using delete_cutAt[OF assms(2) place_bit[OF h]] t(1) by simp
  show ?thesis
  proof (cases "h = g")
    case False
    then show ?thesis unfolding subtree_at_place[OF f(1) h] dl paths_none(1)[OF f(1) g place_bit[OF h] False] sub_way using t by simp
  next
    case True
    note g' = g[folded True]
    have p: "way (h - s) j \<in> paths n F h (set ds)" using paths_place[OF f(1) h] assms(3) by simp
    note lp = later_paths[OF assms(1) g' p]
    have "way (h - r) k \<noteq> []"
    proof
      assume "way (h - r) k = []"
      then show False using lp(1,2) by (metis le_zero_eq length_0_conv list.size(3) prefix_order.refl)
    qed
    then obtain u where u: "cutAt {way (h - r) k} t = Some u" using cutAt_single by blast
    then have "uwalk u (way (h - s) j) \<noteq> None" using cutAt_walk[OF u t(2) lp] by simp
    then show ?thesis unfolding subtree_at_place[OF f(1) h] dl paths_one[OF f(1) g'] u sub_way by simp
  qed
qed

section \<open>Detwinned positions\<close>

lemma uwalk_other: "uwalk t (ds @ [d]) \<noteq> None \<Longrightarrow> uwalk t (ds @ [e]) \<noteq> None"
proof -
  assume a: "uwalk t (ds @ [d]) \<noteq> None"
  then obtain u where u: "uwalk t ds = Some u" "uwalk u [d] \<noteq> None" unfolding uwalk_append by (cases "uwalk t ds") auto
  then have "uwalk u [e] \<noteq> None" by (cases u) auto
  then show ?thesis unfolding uwalk_append using u(1) by simp
qed

lemma delete_twin:
  assumes "fits n F" "node n F p" "\<not> root n F p" "p \<in> D" "sibling p \<in> D" "subtree_at n F Fo p \<noteq> None" "forest_ok n Fo" "bit n h"
  shows "delete n F (insert (parent p F) (D - {p, sibling p})) Fo h = delete n F D Fo h"
proof -
  obtain g r k where g: "place n F p g r k" "r < g" using inner[OF assms(1-3)] .
  let ?P = "insert (parent p F) (D - {p, sibling p})"
  have split: "paths n F h (insert a (D - {b, c})) = paths n F h {a} \<union> (paths n F h D - (paths n F h {b} \<union> paths n F h {c}))" for a b c
    by (auto simp: paths_def)
  note pp = node_parent[OF assms(1) g] and ps = node_sibling[OF assms(1) g]
  show ?thesis
  proof (cases "h = g")
    case False
    then show ?thesis
      unfolding delete_cutAt[OF assms(7,8)] split paths_none(1)[OF assms(1) pp assms(8) False] paths_none(1)[OF assms(1) ps assms(8) False]
        paths_none(1)[OF assms(1) g(1) assms(8) False] by simp
  next
    case True
    let ?qs = "way (h - Suc r) (k div 2)"
    have l: "h - r = Suc (h - Suc r)" using g(2) True by simp
    have qp: "paths n F h {p} = {?qs @ [odd k]}" using paths_one[OF assms(1) g(1)[folded True]] unfolding l way_snoc .
    have qs: "paths n F h {sibling p} = {?qs @ [even k]}" using paths_one[OF assms(1) ps[folded True]] unfolding l way_flip .
    have tw: "{?qs @ [odd k], ?qs @ [even k]} = {?qs @ [False], ?qs @ [True]}" by (cases "even k") auto
    have P: "paths n F h ?P = insert ?qs (paths n F h D - {?qs @ [False], ?qs @ [True]})"
      unfolding split qp qs paths_one[OF assms(1) pp[folded True]] using tw by auto
    have "paths n F h {p} \<subseteq> paths n F h D" "paths n F h {sibling p} \<subseteq> paths n F h D" using assms(4,5) by (auto simp: paths_def)
    then have "{?qs @ [False], ?qs @ [True]} \<subseteq> paths n F h D" unfolding qp qs tw[symmetric] by blast
    moreover obtain t where t: "Fo h = Some t" "uwalk t (?qs @ [odd k]) \<noteq> None"
      using assms(6) True unfolding subtree_at_place[OF assms(1) g(1)] sub_way True[symmetric] l way_snoc by (cases "Fo h") auto
    moreover have "uwalk t (?qs @ [False]) \<noteq> None" using uwalk_other t(2) by blast
    ultimately show ?thesis unfolding delete_cutAt[OF assms(7,8)] P using cutAt_twin[of ?qs "paths n F h D" t] by simp
  qed
qed

lemma deTwin_loop_delete:
  assumes "detwinned n F ds i" "forest_ok n Fo" "\<forall>d \<in> set ds. subtree_at n F Fo d \<noteq> None" "bit n h"
  shows "delete n F (set (deTwin_loop ds F i)) Fo h = delete n F (set ds) Fo h \<and>
    (\<forall>d \<in> set (deTwin_loop ds F i). subtree_at n F Fo d \<noteq> None)"
  using assms(1,3)
proof (induction ds F i rule: deTwin_loop.induct)
  case (1 ds F i)
  show ?case
  proof (cases "i < length ds")
    case il: True
    show ?thesis
    proof (cases "i + 1 < length ds \<and> rightSib (ds ! i) = ds ! (i + 1)")
      case tw: True
      let ?ds = "insertInOrder (take i ds @ drop (i + 2) ds) (parent (ds ! i) F)"
      note t = detwinned_twin[OF "1.prems"(1) conjunct1[OF tw] conjunct2[OF tw] refl]
      have f: "fits n F" "node n F (ds ! i)" "ds ! i \<in> set ds"
        using "1.prems"(1) il by (auto simp: detwinned_def targets_ok_def)
      have ex: "subtree_at n F Fo (ds ! i) \<noteq> None" using "1.prems"(2) f(3) by blast
      then have "subtree_at n F Fo (parent (ds ! i) F) \<noteq> None"
        using subtree_at_up[OF f(1,2) t(4), of Fo] by (metis option.distinct(1) option.exhaust)
      then have "\<forall>d \<in> set ?ds. subtree_at n F Fo d \<noteq> None" using "1.prems"(2) unfolding t(3) by blast
      from "1.IH"(1)[OF il tw refl refl refl t(1) this] have "delete n F (set (deTwin_loop ?ds F i)) Fo h = delete n F (set ?ds) Fo h"
        "\<forall>d \<in> set (deTwin_loop ?ds F i). subtree_at n F Fo d \<noteq> None" by auto
      moreover have "delete n F (set ?ds) Fo h = delete n F (set ds) Fo h"
        unfolding t(3) by (rule delete_twin[OF f(1,2) t(4) f(3) t(5) ex assms(2,4)])
      moreover have "deTwin_loop ds F i = deTwin_loop ?ds F i" using il tw by (subst deTwin_loop.simps) (simp add: Let_def)
      ultimately show ?thesis by simp
    next
      case nt: False
      have "deTwin_loop ds F i = deTwin_loop ds F (i + 1)" unfolding deTwin_loop.simps[of ds F i] if_P[OF il] if_not_P[OF nt] ..
      then show ?thesis using "1.IH"(2)[OF il nt detwinned_skip[OF "1.prems"(1) il nt] "1.prems"(2)] by simp
    qed
  next
    case False
    then have "deTwin_loop ds F i = ds" by (subst deTwin_loop.simps) (simp add: Let_def)
    then show ?thesis using "1.prems"(2) by simp
  qed
qed

lemma deTwin_delete:
  assumes "targets_ok n F ts" "distinct ts" "forest_ok n Fo" "\<forall>t \<in> set ts. subtree_at n F Fo t \<noteq> None" "ds = deTwin (sort ts) F"
  shows "apart_dels n F ds" "\<forall>d \<in> set ds. subtree_at n F Fo d \<noteq> None" "\<And>h. bit n h \<Longrightarrow> delete n F (set ds) Fo h = delete n F (set ts) Fo h"
proof -
  have ok: "targets_ok n F (sort ts)" "ascending (sort ts)" using assms(1,2) by (auto simp: targets_ok_def strict_sorted_iff)
  then have d: "detwinned n F (sort ts) 0" by (simp add: detwinned_def)
  show "apart_dels n F ds" using deTwin_spec[OF ok] assms(5) by (simp add: apart_dels_def list_all_iff)
  have l: "delete n F (set ds) Fo h = delete n F (set ts) Fo h \<and> (\<forall>d \<in> set ds. subtree_at n F Fo d \<noteq> None)" if "bit n h" for h
    using deTwin_loop_delete[OF d assms(3) _ that] assms(4,5) by (simp add: deTwin_def)
  then show "bit n h \<Longrightarrow> delete n F (set ds) Fo h = delete n F (set ts) Fo h" for h by blast
  show "\<forall>d \<in> set ds. subtree_at n F Fo d \<noteq> None"
  proof (cases ts)
    case Nil
    then have "ds = []" using assms(5) by (simp add: deTwin_def deTwin_loop.simps[of "[]"])
    then show ?thesis by simp
  next
    case (Cons t us)
    then obtain h r k where "place n F t h r k" using node_place assms(1) by (metis list.set_intros(1) targets_ok_def)
    then show ?thesis using l place_bit by blast
  qed
qed

end
