(* ===== verification/PollardDelete.thy ===== *)
theory PollardDelete
  imports PollardSurgery DeleteSteps
begin

text \<open>
  Deletion in a pollard follows deletion in the forest. \<open>deleteRoot\<close> empties a tree, and \<open>deleteSingle\<close> moves
  the sibling up, below a root (\<open>deleteBelow_linked\<close>) or into it (\<open>deleteTop_linked\<close>); \<open>Modify\<close> removes the
  targets and adds leaves (\<open>Pollard_Modify_linked\<close>). The map of the pollard still leads to its leaves
  when the keys of the nodes are different.
\<close>

unbundle bit_operations_syntax

text \<open>The tree with another address for its root.\<close>

primrec rename :: "ref \<Rightarrow> rtree \<Rightarrow> rtree" where
  "rename a (RTip b x) = RTip a x"
| "rename a (RNode b l r) = RNode a l r"

lemma rename_simps [simp]: "rref (rename a t) = a" "erase (rename a t) = erase t" "below_refs (rename a t) = below_refs t"
  by (cases t; simp)+

lemma shape_rename:
  "shape h b t \<Longrightarrow> data (h a) = data (h (rref t)) \<Longrightarrow> shape h b (rename a t)"
  by (cases t) auto

lemma root_not_kid: "distinct (refs t) \<Longrightarrow> rref t \<notin> kids t"
  using kids_below[of t] by (auto simp: refs_below)

lemma moveToRoot_shape:
  assumes "shape h a (fork a e u v)" "distinct (refs (fork a e u v))"
  shows "\<exists>h'. moveToRoot (rref u) (rref v) a h = Inr h' \<and> shape h' a (rename a u) \<and> data (h' a) = data (h (rref u)) \<and>
    data (h' (rref v)) = data (h (rref v)) \<and> aunt (h' (rref v)) = Some a \<and> niece True (h' (rref v)) = None \<and> niece False (h' (rref v)) = None \<and>
    (\<forall>x. x \<notin> set (refs (fork a e u v)) \<longrightarrow> h' x = h x)"
proof -
  let ?A = "rref u" and ?V = "rref v"
  have D: "distinct (refs u)" "set (refs u) \<inter> set (refs v) = {}" "a \<notin> set (refs u)" "a \<notin> set (refs v)" using assms(2) by auto
  have P: "shape h ?V u" "shape h ?A v" "aunt (h ?A) = Some a" "aunt (h ?V) = Some a"
    using assms(1) by (auto simp: shape_iff ptrs_fork fork_def split: if_splits)
  have N: "?A \<noteq> ?V" "?A \<noteq> a" "?V \<noteq> a" using rref_disjoint(3)[OF D(2)] D(3,4) by auto
  have B: "x \<noteq> a \<and> x \<noteq> ?A \<and> x \<noteq> ?V" if "x \<in> set (below_refs u)" for x
    using that D rref_disjoint[OF D(2)] by (auto simp: refs_below)
  let ?h0 = "h(a := h ?A)"
  obtain h1 where h1: "transferNiece a ?V ?h0 = Some h1"
    "\<And>x. lNiece (h1 x) = (if x = ?V then None else if x = a then lNiece (h ?V) else lNiece (?h0 x)) \<and>
      rNiece (h1 x) = (if x = ?V then None else if x = a then rNiece (h ?V) else rNiece (?h0 x)) \<and>
      aunt (h1 x) = (if x \<in> kids u then Some a else aunt (?h0 x)) \<and> data (h1 x) = data (?h0 x) \<and> remember (h1 x) = remember (?h0 x)"
  proof -
    have "a \<noteq> ?V" "a \<notin> set (below_refs u)" "?V \<notin> set (below_refs u)" using N B by auto
    moreover have "lNiece (?h0 x) = lNiece (h x) \<and> rNiece (?h0 x) = rNiece (h x)" if "x \<in> insert ?V (set (below_refs u))" for x
      using that N B[of x] by auto
    moreover have "aunt (?h0 x) = aunt (h x)" if "x \<in> set (below_refs u)" for x using B[OF that] by simp
    ultimately show ?thesis using transferNiece_shape[OF P(1) D(1), of a ?h0] that by blast
  qed
  have K: "kids u \<subseteq> set (below_refs u)" "kids v \<subseteq> set (refs v)" using kids_below[of u] kids_below[of v] by (auto simp: refs_below)
  have sh: "shape h1 a u"
    using h1(2) N B by (intro shape_move[OF P(1) D(1)]) (auto simp: refs_below)
  define h2 where "h2 = delNode (Some ?A) h1"
  have "updateAunt a h1 = Some h1" using updateAunt_settled[OF shape_settled[OF sh]] .
  then have m: "moveToRoot ?A ?V a h = Inr h2" using h1(1) by (simp add: moveToRoot_def returns_def h2_def)
  have ka: "niece i (h1 a) = Some x \<Longrightarrow> x \<in> kids u" for i x using ptrs_niece sh by (auto simp: shape_iff)
  have kA: "niece i (h1 ?A) = Some x \<Longrightarrow> x \<in> kids v" for i x
    using ptrs_niece[of h ?A v i x] P(2) h1(2)[of ?A] N by (cases i) (auto simp: niece_def shape_iff)
  have aA: "aunt (h1 ?A) = Some a" using h1(2)[of ?A] P(3) N K(1) B by auto
  have del: "h2 x = h1 x" if "x \<noteq> ?A" "x \<notin> kids v" for x
    unfolding h2_def using aA ka K(1) B kA that by (intro delNode_other) auto
  have U: "x \<noteq> ?A \<and> x \<notin> kids v" if "x = a \<or> x \<in> set (below_refs u)" for x
    using that N D B K(2) by (auto simp: refs_below)
  have "?V \<notin> kids v" using root_not_kid assms(2) by simp
  then have hV: "h2 ?V = h1 ?V" using del N by simp
  have "shape h2 a u" using U del by (intro shape_cong[OF sh D(1)]) (auto simp: h2_def)
  moreover have "data (h2 x) = data (?h0 x)" "remember (h2 x) = remember (?h0 x)" for x using h1(2) by (simp_all add: h2_def)
  ultimately have s2: "shape h2 a (rename a u)" using N by (intro shape_rename) auto
  have vk: "?V \<notin> kids u" using K(1) B by auto
  have "h2 x = h x" if "x \<notin> set (refs (fork a e u v))" for x
  proof -
    have x: "x \<noteq> a" "x \<notin> set (refs u)" "x \<notin> set (refs v)" using that by auto
    then have "x \<noteq> ?A" "x \<noteq> ?V" "x \<notin> kids u" "x \<notin> kids v" using K by (auto simp: refs_below)
    then have "h1 x = h x" using h1(2)[of x] x by (intro polNode.equality) auto
    then show ?thesis using del[of x] \<open>x \<noteq> ?A\<close> \<open>x \<notin> kids v\<close> by simp
  qed
  then show ?thesis using m s2 hV h1(2)[of ?V] N P(4) vk \<open>data (h2 a) = data (?h0 a)\<close>
    by (intro exI[of _ h2]) (auto simp: niece_def h2_def)
qed

lemma deleteSingle_top:
  assumes "rooted (Heap p) (fork a e u v)" "getNode p (sibling del) = Inr (Some (rref u), Some (rref v), q)"
    "isRootPosition (parent del (treeRows (polNumLeaves p))) (polNumLeaves p)"
  shows "\<exists>h'. deleteSingle p del = Inr (p\<lparr>Heap := h',
      NodeMap := (if NodeMap p (mini (thash (erase u))) \<noteq> None then (NodeMap p)(mini (thash (erase u)) \<mapsto> a) else NodeMap p)(mini (thash (erase v)) := None)\<rparr>) \<and>
    rooted h' (rename a u) \<and> (\<forall>x. x \<notin> set (refs (fork a e u v)) \<longrightarrow> h' x = Heap p x)"
proof -
  let ?h = "Heap p" let ?A = "rref u" and ?V = "rref v"
  have t: "shape ?h a (fork a e u v)" "aunt (?h a) = None" "distinct (refs (fork a e u v))" using assms(1) by (auto simp: rooted_def)
  have "sums ?h (fork a e u v)" using t(1) by (simp add: shape_iff)
  note su = sums_fork[OF this]
  have P: "aunt (?h ?V) = Some a" "data (?h ?A) = thash (erase u)" "data (?h ?V) = thash (erase v)"
    using t(1) sums_data[of ?h u] sums_data[of ?h v] su by (simp_all add: shape_iff ptrs_fork)
  obtain h1 where h1: "moveToRoot ?A ?V a ?h = Inr h1" "shape h1 a (rename a u)" "data (h1 a) = data (?h ?A)" "data (h1 ?V) = data (?h ?V)"
    "aunt (h1 ?V) = Some a" "niece True (h1 ?V) = None" "niece False (h1 ?V) = None" "\<forall>x. x \<notin> set (refs (fork a e u v)) \<longrightarrow> h1 x = ?h x"
    using moveToRoot_shape[OF t(1,3)] by blast
  have D: "?V \<notin> set (refs u)" "a \<notin> set (refs u)" "?V \<noteq> a" "distinct (refs u)" using t(3) rref_disjoint[of u v] by auto
  define h2 where "h2 = setAunt a None (delNode (Some ?V) h1)"
  have "niece i (h1 a) \<noteq> Some ?V" for i
    using ptrs_niece[of h1 a "rename a u" i ?V] h1(2) kids_below[of "rename a u"] D(1) by (auto simp: shape_iff refs_below)
  then have del: "delNode (Some ?V) h1 x = h1 x" if "x \<noteq> ?V" for x
    using h1(5-7) that by (intro delNode_other) (auto, metis (full_types) option.distinct(1))
  have dr: "distinct (refs (rename a u))" using D(2,4) by (auto simp: refs_below)
  have e2: "h2 x = h1 x" if "x \<noteq> a" "x \<noteq> ?V" for x using del[OF that(2)] that(1) by (simp add: h2_def setAunt_def)
  have "shape h2 a (rename a u)"
  proof (rule shape_cong[OF h1(2) dr])
    show "h2 x = h1 x" if "x \<in> set (below_refs (rename a u))" for x
    proof -
      have "x \<in> set (refs u)" using that by (simp add: refs_below)
      then show ?thesis using D(1,2) by (intro e2) auto
    qed
  qed (use del D(3) in \<open>auto simp: h2_def\<close>)
  then have "rooted h2 (rename a u)" using dr by (simp add: rooted_def h2_def)
  moreover have "\<forall>x. x \<notin> set (refs (fork a e u v)) \<longrightarrow> h2 x = ?h x"
  proof (intro allI impI)
    fix x assume x: "x \<notin> set (refs (fork a e u v))"
    then have "x \<noteq> a" "x \<noteq> ?V" by auto
    then show "h2 x = ?h x" using e2 h1(8) x by simp
  qed
  moreover have "getParent ?h ?V = Inr (Some a)" using P(1) t(2) by (simp add: getParent_def)
  then have "deleteSingle p del = Inr (p\<lparr>Heap := h2,
      NodeMap := (if NodeMap p (mini (thash (erase u))) \<noteq> None then (NodeMap p)(mini (thash (erase u)) \<mapsto> a) else NodeMap p)(mini (thash (erase v)) := None)\<rparr>)"
    using assms(2,3) h1(1,3,4) t(2) P unfolding deleteSingle_def h2_def by (simp add: deref_def Let_def)
  ultimately show ?thesis by blast
qed

section \<open>Deleting a root\<close>

lemma chop_shape:
  assumes "shape h a t" "rref t = a" "distinct (refs t)" "h' = clearAunt (rNiece (h a)) (clearAunt (lNiece (h a)) h)"
    "x \<notin> set (below_refs t)"
  shows "chop a h' x = (if x = a then (h a)\<lparr>lNiece := None, rNiece := None\<rparr> else h x)"
proof (cases t)
  case (RTip b y)
  then have "h' = h" using assms(1,4) by (simp add: clearAunt_def)
  then show ?thesis using RTip assms(1,2) by (auto simp: chop_def delNode_def Let_def setL_def setR_def)
next
  case (RNode b l r)
  have D: "set (refs l) \<inter> set (refs r) = {}" "a \<notin> set (refs l)" "a \<notin> set (refs r)" "distinct (refs l)" "distinct (refs r)"
    using assms(2,3) RNode by auto
  let ?L = "rref l" and ?R = "rref r"
  have P: "lNiece (h a) = Some ?L" "rNiece (h a) = Some ?R" "ptrs h ?R l" "ptrs h ?L r" using assms(1,2) RNode by (auto simp: shape_iff)
  have N: "?L \<noteq> ?R" "?L \<noteq> a" "?R \<noteq> a" using rref_disjoint(3)[OF D(1)] D(2,3) by auto
  have h': "h' = setAunt ?R None (setAunt ?L None h)" using assms(4) P by (simp add: clearAunt_def)
  have K: "kids l \<subseteq> set (below_refs l)" "kids r \<subseteq> set (below_refs r)" using kids_below by auto
  define h1 where "h1 = delNode (Some ?L) h'"
  have d1: "h1 y = h' y" if "y \<noteq> ?L" "y \<notin> kids r" for y unfolding h1_def
    using that N ptrs_niece[OF P(4)] h' by (intro delNode_other) auto
  have kr: "?R \<notin> kids r" "?R \<notin> kids l" using K D(4,5) rref_disjoint[OF D(1)] by (auto simp: refs_below)
  then have hR: "h1 ?R = h' ?R" using d1 N by simp
  define h2 where "h2 = delNode (Some ?R) h1"
  have d2: "h2 y = h1 y" if "y \<noteq> ?R" "y \<notin> kids l" for y unfolding h2_def
    using that N ptrs_niece[OF P(3)] h' hR by (intro delNode_other) auto
  have o: "h2 y = h y" if "y \<notin> set (below_refs t)" for y
  proof -
    have "y \<noteq> ?L" "y \<noteq> ?R" "y \<notin> kids l" "y \<notin> kids r" using that K RNode by (auto simp: refs_below)
    then show ?thesis using d1[of y] d2[of y] h' by (simp add: setAunt_def)
  qed
  have "a \<notin> kids r" using K(2) D(3) by (auto simp: refs_below)
  then have "h1 a = h' a" using d1[of a] N by simp
  then have "lNiece (h' a) = Some ?L" "rNiece (h1 a) = Some ?R" using P h' by simp_all
  then have "chop a h' = setR a None (setL a None h2)" by (simp add: chop_def Let_def h1_def h2_def)
  moreover have "a \<notin> set (below_refs t)" using assms(2,3) by (auto simp: refs_below)
  ultimately show ?thesis using o assms(5) by (auto simp: setL_def setR_def)
qed

section \<open>A deletion in the tree and in the heap\<close>

lemma erase_fork: "erase (fork a e u v) = (if e then Node (erase v) (erase u) else Node (erase u) (erase v))"
  by (simp add: fork_def)

lemma cutAt_side: "cutAt {e # q} (if e then Node y x else Node x y) =
    (if q = [] then Some y else Option.bind (cutAt {q} x) (\<lambda>z. Some (if e then Node y z else Node z y)))"
proof -
  have one: "{p. d # p \<in> {e # q}} = (if d = e then {q} else {})" for d by auto
  show ?thesis
  proof (cases "q = []")
    case True
    have "cutAt {[]} x = None" by (rule cutAt_root) simp
    then show ?thesis using True one by (cases e) simp_all
  next
    case False
    obtain z where "cutAt {q} x = Some z" using cutAt_single[OF False] by blast
    then show ?thesis using False one by (cases e) simp_all
  qed
qed

lemma cutAt_fork: "cutAt {[\<not> e]} (erase (fork a e u v)) = Some (erase u)"
  using cutAt_side[of "\<not> e" "[]" "erase u" "erase v"] by (auto simp: erase_fork)

lemma cutAt_put:
  assumes "walk t es = Some (fork c d (fork a e u v) w)"
  shows "cutAt {es @ [d, \<not> e]} (erase t) = Some (erase (put t es (fork c d u w)))"
  using assms
proof (induction t es rule: path_induct)
  case here
  show ?case using cutAt_side[of d "[\<not> e]" "erase w" "erase (fork a e u v)"] cutAt_fork[of e a u v] by (simp add: erase_fork[of c])
next
  case (step b i x y ds)
  then show ?case using cutAt_side[of i "ds @ [d, \<not> e]" "erase y" "erase x"] by (simp add: erase_fork[of b])
qed

section \<open>Short hashes\<close>

text \<open>The hashes of all nodes, of which the pollard tells the short ones apart.\<close>

primrec nodeHashes :: "utree \<Rightarrow> Hash list" where
  "nodeHashes (Tip x) = [x]"
| "nodeHashes (Node l r) = parentHash (thash l) (thash r) # nodeHashes l @ nodeHashes r"

definition forest_hashes :: "u64 \<Rightarrow> forest \<Rightarrow> Hash list" where
  "forest_hashes n Fo = concat (map (\<lambda>h. case Fo h of None \<Rightarrow> [] | Some t \<Rightarrow> nodeHashes t) (rows n))"

lemma uwalk_hashes: "uwalk t p = Some s \<Longrightarrow> thash s \<in> set (nodeHashes t)"
proof (induction t p rule: uwalk.induct)
  case (1 t)
  then show ?case by (cases t) auto
qed (auto split: if_splits)

lemma minis_tree:
  "minis_distinct (nodeHashes t) \<Longrightarrow> uwalk t p = Some s \<Longrightarrow> uwalk t q = Some u \<Longrightarrow> p \<noteq> q \<Longrightarrow> mini (thash s) \<noteq> mini (thash u)"
proof (induction t arbitrary: p q)
  case (Tip x)
  then show ?case by (cases p; cases q) auto
next
  case (Node l r)
  have d: "minis_distinct (nodeHashes l)" "minis_distinct (nodeHashes r)"
    "mini (parentHash (thash l) (thash r)) \<notin> mini ` set (nodeHashes l)" "mini (parentHash (thash l) (thash r)) \<notin> mini ` set (nodeHashes r)"
    "mini ` set (nodeHashes l) \<inter> mini ` set (nodeHashes r) = {}" using Node.prems(1) by (auto simp: minis_distinct_def)
  have w: "mini (thash z) \<in> mini ` set (nodeHashes (if e then r else l))" if "uwalk (Node l r) (e # ds) = Some z" for e ds z
    using that uwalk_hashes[of "if e then r else l" ds z] by auto
  consider e ds where "p = []" "q = e # ds" | e ds where "q = []" "p = e # ds" | e ds i es where "p = e # ds" "q = i # es"
    using Node.prems(4) by (cases p; cases q) auto
  then show ?case
  proof cases
    case (1 e ds)
    then show ?thesis using w[of e ds u] d(3,4) Node.prems by (cases e) auto
  next
    case (2 e ds)
    then show ?thesis using w[of e ds s] d(3,4) Node.prems by (cases e) auto
  next
    case (3 e ds i es)
    show ?thesis
    proof (cases "e = i")
      case True
      then show ?thesis using Node.IH(1)[OF d(1), of ds es] Node.IH(2)[OF d(2), of ds es] Node.prems 3 by (cases e) auto
    next
      case False
      have "mini (thash s) \<in> mini ` set (nodeHashes (if e then r else l))" "mini (thash u) \<in> mini ` set (nodeHashes (if i then r else l))"
        using w[of e ds s] w[of i es u] Node.prems(2,3) 3 by auto
      then show ?thesis using d(5) False by (cases e; cases i) (simp_all only: if_True if_False, fastforce+)
    qed
  qed
qed

lemma distinct_concat_apart:
  "distinct (concat (map f xs)) \<Longrightarrow> distinct xs \<Longrightarrow> a \<in> set xs \<Longrightarrow> b \<in> set xs \<Longrightarrow> a \<noteq> b \<Longrightarrow> set (f a) \<inter> set (f b) = {}"
  by (induction xs) auto

lemma minis_forest:
  assumes "minis_distinct (forest_hashes n Fo)" "bit n h" "bit n g" "Fo h = Some t" "Fo g = Some t'"
    "uwalk t p = Some s" "uwalk t' q = Some u" "(h, p) \<noteq> (g, q)"
  shows "mini (thash s) \<noteq> mini (thash u)"
proof -
  let ?f = "\<lambda>h. map mini (case Fo h of None \<Rightarrow> [] | Some t \<Rightarrow> nodeHashes t)"
  have d: "distinct (concat (map ?f (rows n)))" using assms(1) by (simp add: minis_distinct_def forest_hashes_def map_concat comp_def)
  have r: "h \<in> set (rows n)" "g \<in> set (rows n)" using assms(2,3) rows_iff by auto
  show ?thesis
  proof (cases "h = g")
    case True
    have "distinct (?f h)" using d r(1) by (auto simp: distinct_concat_iff)
    then have "minis_distinct (nodeHashes t)" using assms(4) by (simp add: minis_distinct_def)
    then show ?thesis using minis_tree assms True by auto
  next
    case False
    have "set (?f h) \<inter> set (?f g) = {}" using distinct_concat_apart[OF d distinct_rows r False] .
    then show ?thesis using uwalk_hashes[OF assms(6)] uwalk_hashes[OF assms(7)] assms(4,5) by auto
  qed
qed

section \<open>Deletion in a pollard\<close>

text \<open>The map leads to the leaves of a set, which need not be all of the pollard's.\<close>

definition indexedOn :: "Hash set \<Rightarrow> Pollard \<Rightarrow> (nat \<Rightarrow> rtree) \<Rightarrow> bool" where
  "indexedOn X p T \<longleftrightarrow> (\<forall>r \<in> set (rows (polNumLeaves p)). \<forall>(a, x) \<in> set (tips (T r)). x \<noteq> empty \<and> x \<in> X \<longrightarrow> NodeMap p (mini x) = Some a)"

lemma indexedOnI:
  assumes "\<And>r a x. bit (polNumLeaves p) r \<Longrightarrow> (a, x) \<in> set (tips (T r)) \<Longrightarrow> x \<noteq> empty \<Longrightarrow> x \<in> X \<Longrightarrow> NodeMap p (mini x) = Some a"
  shows "indexedOn X p T"
  using assms by (auto simp: indexedOn_def rows_iff)

lemma indexedOnD:
  "indexedOn X p T \<Longrightarrow> bit (polNumLeaves p) r \<Longrightarrow> (a, x) \<in> set (tips (T r)) \<Longrightarrow> x \<noteq> empty \<Longrightarrow> x \<in> X \<Longrightarrow> NodeMap p (mini x) = Some a"
  by (auto simp: indexedOn_def rows_iff)

lemma linked_cong:
  assumes "linked p T Fo" "\<And>h. bit (polNumLeaves p) h \<Longrightarrow> Fo' h = Fo h" shows "linked p T Fo'"
  using assms by (auto simp: linked_def rows_iff)

lemma linked_replace:
  assumes "linked p T Fo" "polNumLeaves p = n" "bit n h" "rooted h' t'" "set (refs t') \<subseteq> set (refs (T h))" "rref t' = rref (T h)"
    "\<forall>x. x \<notin> set (refs (T h)) \<longrightarrow> h' x = Heap p x" "opt t' = Fo' h" "\<And>g. bit n g \<Longrightarrow> g \<noteq> h \<Longrightarrow> Fo' g = Fo g"
  shows "linked (p\<lparr>Heap := h', NodeMap := M\<rparr>) (T(h := t')) Fo'"
proof -
  have P: "planted (Heap p) (Fresh p) (set (rows n)) T" and hr: "h \<in> set (rows n)" using assms(1-3) by (auto simp: linked_def rows_iff)
  have "planted h' (Fresh p) (set (rows n)) (T(h := t'))"
  proof (rule plantedI)
    show "rooted h' ((T(h := t')) i)" if "i \<in> set (rows n)" for i
    proof (cases "i = h")
      case False
      have "h' a = Heap p a" if "a \<in> set (refs (T i))" for a
        using plantedD(3)[OF P \<open>i \<in> set (rows n)\<close> hr False] that assms(7) by blast
      then show ?thesis using rooted_frame[OF plantedD(1)[OF P that]] False by simp
    qed (use assms(4) in simp)
    show "set (refs ((T(h := t')) i)) \<subseteq> {..<Fresh p}" if "i \<in> set (rows n)" for i
      using plantedD(2)[OF P that] assms(5) by (cases "i = h") auto
    show "set (refs ((T(h := t')) i)) \<inter> set (refs ((T(h := t')) j)) = {}" if "i \<in> set (rows n)" "j \<in> set (rows n)" "i \<noteq> j" for i j
      using plantedD(3)[OF P that] assms(5) by (cases "i = h"; cases "j = h"; auto)
  qed
  then show ?thesis using assms(1,2,6,8,9) by (auto simp: linked_def rows_iff)
qed

lemma tips_refs: "(a, x) \<in> set (tips t) \<Longrightarrow> a \<in> set (refs t)"
  by (induction t) auto

lemma tip_place:
  assumes "linked p T Fo" "polNumLeaves p = n" "bit n r" "(a, x) \<in> set (tips (T r))" "x \<noteq> empty"
  obtains t ds where "Fo r = Some t" "walk (T r) ds = Some (RTip a x)" "uwalk t ds = Some (Tip x)" "erase (T r) = t"
proof -
  obtain ds where ds: "walk (T r) ds = Some (RTip a x)" using tips_walk[OF assms(4)] by blast
  have "erase (T r) \<noteq> Tip empty"
  proof
    assume "erase (T r) = Tip empty"
    then have "T r = RTip (rref (T r)) empty" by (cases "T r") auto
    then show False using assms(4,5) by (metis empty_iff insert_iff list.set(1) list.simps(15) prod.inject tips.simps(1))
  qed
  then have "Fo r = Some (erase (T r))" using linkedD(2)[OF assms(1-3)] by (simp add: opt_def)
  then show ?thesis using that[of "erase (T r)" ds] ds uwalk_erase[of "T r" ds] by simp
qed

lemma delete_other:
  assumes "fits n F" "place n F d h r k" "forest_ok n Fo" "bit n g" "g \<noteq> h" shows "delete n F {d} Fo g = Fo g"
  using delete_cutAt[OF assms(3,4), of F "{d}"] paths_none(1)[OF assms(1,2,4,5)] by (cases "Fo g") auto

lemma delete_here:
  assumes "fits n F" "place n F d h r k" "forest_ok n Fo" shows "delete n F {d} Fo h = Option.bind (Fo h) (cutAt {way (h - r) k})"
  using delete_cutAt[OF assms(3) place_bit[OF assms(2)], of F "{d}"] paths_one[OF assms(1,2)] by simp

lemma leaf_not_empty:
  assumes "empty \<notin> set (forest_leaves n Fo)" "bit n h" "Fo h = Some t" "uwalk t ds = Some u" shows "u \<noteq> Tip empty"
proof
  assume "u = Tip empty"
  moreover have "set (leaves u) \<subseteq> set (leaves t)" using assms(4) by (induction t ds rule: uwalk.induct) (auto split: if_splits)
  moreover have "set (leaves t) \<subseteq> set (forest_leaves n Fo)"
  proof -
    have "set (case Fo h of None \<Rightarrow> [] | Some t \<Rightarrow> leaves t) \<subseteq> set (forest_leaves n Fo)"
      unfolding forest_leaves_def set_concat set_map using assms(2) rows_iff by blast
    then show ?thesis using assms(3) by simp
  qed
  ultimately show False using assms(1) by auto
qed

lemma found_fork:
  assumes "linked p T Fo" "polNumLeaves p = n" "F = treeRows n" "fits n F" "place n F d h r k" "r < h" "subtree_at n F Fo d \<noteq> None"
  obtains t a u v where "Fo h = Some t" "erase (T h) = t" "walk (T h) (way (h - Suc r) (k div 2)) = Some (fork a (even k) u v)"
    "getNode p (sibling d) = Inr (Some (rref u), Some (rref v), Some a)" "way (h - r) k = way (h - Suc r) (k div 2) @ [\<not> even k]"
    "uwalk t (way (h - r) k) = Some (erase v)" "uwalk t (way (h - Suc r) (k div 2) @ [even k]) = Some (erase u)"
proof -
  let ?qs = "way (h - Suc r) (k div 2)" let ?k = "if even k then k + 1 else k - 1"
  have l: "h - r = Suc (h - Suc r)" using assms(6) by simp
  obtain t where t: "Fo h = Some t" "uwalk t (?qs @ [odd k]) \<noteq> None"
    using assms(7) unfolding subtree_at_place[OF assms(4,5)] sub_way l way_snoc by (cases "Fo h") auto
  have e: "erase (T h) = t" using linkedD(2)[OF assms(1,2) place_bit[OF assms(5)]] t(1) by (auto simp: opt_def split: if_splits)
  then obtain v where "walk (T h) (?qs @ [odd k]) = Some v" using t(2) uwalk_erase[of "T h"] by (metis (no_types) option.exhaust option.map(1))
  then obtain a u where w: "walk (T h) ?qs = Some (fork a (odd k) v u)" unfolding walk_snoc by blast
  then have w: "walk (T h) ?qs = Some (fork a (even k) u v)" using fork_swap[of a "odd k" u v] by simp
  have k2: "?k div 2 = k div 2" "odd ?k = even k" by (auto elim!: evenE oddE)
  have "r \<noteq> h" using assms(6) by simp
  then have "getNode p (sibling d) = (case walk (T h) ?qs of
       Some (RNode a l r) \<Rightarrow> Inr (if even k then (Some (rref r), Some (rref l), Some a) else (Some (rref l), Some (rref r), Some a))
     | _ \<Rightarrow> Inr (None, None, None))"
    using getNode_place[OF assms(1-4) node_sibling[OF assms(4-6)]] unfolding k2 by (simp only: if_False)
  then have g: "getNode p (sibling d) = Inr (Some (rref u), Some (rref v), Some a)" using w by (simp add: fork_def)
  have "walk (T h) (?qs @ [even k]) = Some u" "walk (T h) (?qs @ [\<not> even k]) = Some v" using w walk_snoc fork_swap by metis+
  then have "uwalk t (?qs @ [even k]) = Some (erase u)" "uwalk t (?qs @ [\<not> even k]) = Some (erase v)"
    using uwalk_erase[of "T h"] e by simp_all
  moreover have "way (h - r) k = ?qs @ [\<not> even k]" unfolding l way_snoc by simp
  ultimately show ?thesis using that[OF t(1) e w g] by simp
qed

lemma isRoot_place: "F = treeRows n \<Longrightarrow> fits n F \<Longrightarrow> place n F d h r k \<Longrightarrow> isRootPosition d n \<longleftrightarrow> r = h"
  using root_iff(1)[of n F d h r k] by (simp add: isRootPositionTotalRows_def)

text \<open>A leaf whose key is that of another node is that node.\<close>

lemma tip_apart:
  assumes "linked p T Fo" "polNumLeaves p = n" "minis_distinct (forest_hashes n Fo)" "bit n g" "(b, x) \<in> set (tips (T g))" "x \<noteq> empty"
    "bit n h" "Fo h = Some (erase (T h))" "walk (T h) qs = Some v" "mini x = mini (thash (erase v))"
  shows "g = h" "v = RTip b x"
proof -
  obtain ds where ds: "Fo g = Some (erase (T g))" "walk (T g) ds = Some (RTip b x)" "uwalk (erase (T g)) ds = Some (Tip x)"
    using tip_place[OF assms(1,2,4,5,6)] by metis
  have "uwalk (erase (T h)) qs = Some (erase v)" using assms(9) by (simp add: uwalk_erase)
  then have "(g, ds) = (h, qs)"
    using minis_forest[OF assms(3,4,7) ds(1) assms(8) ds(3)] assms(10) by fastforce
  then show "g = h" "v = RTip b x" using ds(2) assms(9) by auto
qed

lemma indexed_replace:
  assumes "linked p T Fo" "polNumLeaves p = n" "minis_distinct (forest_hashes n Fo)" "indexedOn X p T" "bit n h" "Fo h = Some (erase (T h))"
    "\<And>y. M y \<noteq> NodeMap p y \<Longrightarrow> \<exists>qs v. walk (T h) qs = Some v \<and> y = mini (thash (erase v))"
    "\<And>b x. (b, x) \<in> set (tips t') \<Longrightarrow> x \<noteq> empty \<Longrightarrow> x \<in> X \<Longrightarrow> M (mini x) = Some b"
  shows "indexedOn X (p\<lparr>Heap := h', NodeMap := M\<rparr>) (T(h := t'))"
proof (rule indexedOnI)
  fix g b x assume a: "bit (polNumLeaves (p\<lparr>Heap := h', NodeMap := M\<rparr>)) g" "(b, x) \<in> set (tips ((T(h := t')) g))" "x \<noteq> empty" "x \<in> X"
  show "NodeMap (p\<lparr>Heap := h', NodeMap := M\<rparr>) (mini x) = Some b"
  proof (cases "g = h")
    case False
    then have g: "bit n g" "(b, x) \<in> set (tips (T g))" using a(1,2) assms(2) by auto
    have "M (mini x) = NodeMap p (mini x)"
      using assms(7)[of "mini x"] tip_apart(1)[OF assms(1-3) g a(3) assms(5,6)] False by blast
    then show ?thesis using indexedOnD[OF assms(4) _ g(2) a(3,4)] g(1) assms(2) by simp
  qed (use a assms(8) in simp)
qed

text \<open>One step of the removal keeps the pollard in step with the forest, and the map with the leaves.\<close>

definition follows :: "Hash set \<Rightarrow> Pollard \<Rightarrow> (nat \<Rightarrow> rtree) \<Rightarrow> bool \<Rightarrow> Pollard \<Rightarrow> forest \<Rightarrow> bool" where
  "follows X p T apart p' Fo' \<longleftrightarrow> (\<exists>T'. linked p' T' Fo' \<and> polNumLeaves p' = polNumLeaves p \<and> NumDels p' = NumDels p \<and>
     (apart \<and> indexedOn X p T \<longrightarrow> indexedOn X p' T'))"

lemma deleteRoot_linked:
  assumes "linked p T Fo" "polNumLeaves p = n" "F = treeRows n" "fits n F" "place n F d h h k" "forest_ok n Fo" "Fo h \<noteq> None"
  shows "\<exists>p'. deleteRoot p d = Inr p' \<and> follows X p T (minis_distinct (forest_hashes n Fo)) p' (delete n F {d} Fo)"
proof -
  let ?a = "rref (T h)" let ?h = "Heap p"
  have b: "bit n h" using place_bit[OF assms(5)] .
  note L = linkedD[OF assms(1,2) b] and rn = rows_nth[OF b]
  have s: "shape ?h ?a (T h)" "aunt (?h ?a) = None" "distinct (refs (T h))" using L(1) by (auto simp: rooted_def)
  have e: "Fo h = Some (erase (T h))" using L(2) assms(7) by (simp add: opt_def split: if_splits)
  obtain bits where d: "detectOffset d n = Inr (of_nat (bigger_trees (unat n) h), 0, bits)"
    using detectOffset_posn[of n h h k] assms(3-5) by (auto simp: place_def fits_def)
  have ub: "unat (of_nat (bigger_trees (unat n) h) :: u8) = bigger_trees (unat n) h"
    using rn length_rows[of n] by (simp add: unat_of_nat)
  have len: "length (polRoots p) = length (rows n)" "polRoots p ! bigger_trees (unat n) h = ?a"
    using assms(1,2) rn by (auto simp: linked_def)
  have "(of_int (int (length (rows n)) - 1) :: u8) = of_nat (length (rows n) - 1)" using rn by (simp add: of_nat_diff)
  moreover have "unat (of_nat (length (rows n) - 1) :: u8) = length (rows n) - 1" using length_rows[of n] by (simp add: unat_of_nat)
  ultimately have le: "\<not> (of_nat (bigger_trees (unat n) h) :: u8) > of_int (int (length (rows n)) - 1)"
    using rn ub by (simp add: word_less_nat_alt) linarith
  let ?h2 = "clearAunt (rNiece (?h ?a)) (clearAunt (lNiece (?h ?a)) ?h)"
  have rN: "rNiece (clearAunt (lNiece (?h ?a)) ?h ?a) = rNiece (?h ?a)" by (simp add: clearAunt_def setAunt_def split: option.splits)
  let ?h' = "setData ?a empty (setAunt ?a None (chop ?a ?h2))" let ?M = "(NodeMap p)(mini (data (?h ?a)) := None)"
  have r: "deleteRoot p d = Inr (p\<lparr>Heap := ?h', NodeMap := ?M\<rparr>)"
    using d le len rn ub rN assms(2) by (simp add: deleteRoot_def nthR_def Let_def)
  note ch = chop_shape[OF s(1) refl s(3) refl]
  have fr: "\<forall>x. x \<notin> set (refs (T h)) \<longrightarrow> ?h' x = ?h x" using ch refs_below[of "T h"] by (auto simp: setData_def setAunt_def)
  have "?a \<notin> set (below_refs (T h))" using s(3) refs_below[of "T h"] by simp
  then have R: "rooted ?h' (RTip ?a empty)" using ch[of ?a] s(1) by (cases "T h") (auto simp: rooted_def setData_def setAunt_def)
  have "delete n F {d} Fo h = None" using delete_here[OF assms(4-6)] e cutAt_root[of "{[]}"] by simp
  then have "linked (p\<lparr>Heap := ?h', NodeMap := ?M\<rparr>) (T(h := RTip ?a empty)) (delete n F {d} Fo)"
    using delete_other[OF assms(4-6)] by (intro linked_replace[OF assms(1,2) b R _ _ fr]) (auto simp: opt_def)
  moreover have "data (?h ?a) = thash (erase (T h))" using s(1) sums_data[of ?h "T h"] by (simp add: shape_iff)
  then have "indexedOn X (p\<lparr>Heap := ?h', NodeMap := ?M\<rparr>) (T(h := RTip ?a empty))"
    if "minis_distinct (forest_hashes n Fo) \<and> indexedOn X p T"
    using that e by (intro indexed_replace[OF assms(1,2) _ _ b]) (auto intro!: exI[of _ "[]"] split: if_splits)
  ultimately show ?thesis unfolding r follows_def using assms(2) by auto
qed

lemma deleteTop_linked:
  assumes "linked p T Fo" "polNumLeaves p = n" "F = treeRows n" "fits n F" "place n F d h r k" "r < h" "subtree_at n F Fo d \<noteq> None"
    "forest_ok n Fo" "empty \<notin> set (forest_leaves n Fo)" "Suc r = h"
  shows "\<exists>p'. deleteSingle p d = Inr p' \<and> follows X p T (minis_distinct (forest_hashes n Fo)) p' (delete n F {d} Fo)"
proof -
  obtain t a u v where t: "Fo h = Some t" "erase (T h) = t" "walk (T h) (way (h - Suc r) (k div 2)) = Some (fork a (even k) u v)"
    and g: "getNode p (sibling d) = Inr (Some (rref u), Some (rref v), Some a)" and w: "way (h - r) k = way (h - Suc r) (k div 2) @ [\<not> even k]"
    and uw: "uwalk t (way (h - Suc r) (k div 2) @ [even k]) = Some (erase u)"
    using found_fork[OF assms(1-7)] by metis
  have b: "bit n h" using place_bit[OF assms(5)] .
  have Th: "T h = fork a (even k) u v" using t(3) assms(10) by simp
  have "isRootPosition (parent d (treeRows (polNumLeaves p))) (polNumLeaves p)"
    using isRoot_place[OF assms(3,4) node_parent[OF assms(4-6)]] assms(2,3,10) by simp
  then obtain h' where h': "deleteSingle p d = Inr (p\<lparr>Heap := h',
      NodeMap := (if NodeMap p (mini (thash (erase u))) \<noteq> None then (NodeMap p)(mini (thash (erase u)) \<mapsto> a) else NodeMap p)(mini (thash (erase v)) := None)\<rparr>)"
    "rooted h' (rename a u)" "\<forall>x. x \<notin> set (refs (T h)) \<longrightarrow> h' x = Heap p x"
    using deleteSingle_top[OF _ g] linkedD(1)[OF assms(1,2) b] unfolding Th by blast
  let ?M = "(if NodeMap p (mini (thash (erase u))) \<noteq> None then (NodeMap p)(mini (thash (erase u)) \<mapsto> a) else NodeMap p)(mini (thash (erase v)) := None)"
  have dr: "distinct (refs (fork a (even k) u v))" using linkedD(1)[OF assms(1,2) b] unfolding Th by (simp add: rooted_def)
  have "erase u \<noteq> Tip empty" using leaf_not_empty[OF assms(9) b t(1) uw] .
  then have "opt (rename a u) = delete n F {d} Fo h"
    using delete_here[OF assms(4,5,8)] w t(1,2) cutAt_fork[of "even k" a u v] assms(10) unfolding Th[symmetric] by (simp add: opt_def)
  moreover have "set (refs (rename a u)) \<subseteq> set (refs (T h))" "rref (rename a u) = rref (T h)" unfolding Th refs_below[of "rename a u"] refs_below[of u]
    by (auto simp: refs_below[of u])
  ultimately have "linked (p\<lparr>Heap := h', NodeMap := ?M\<rparr>) (T(h := rename a u)) (delete n F {d} Fo)"
    using delete_other[OF assms(4,5,8)] h'(2,3) by (intro linked_replace[OF assms(1,2) b]) auto
  moreover have "indexedOn X (p\<lparr>Heap := h', NodeMap := ?M\<rparr>) (T(h := rename a u))"
    if A: "minis_distinct (forest_hashes n Fo)" "indexedOn X p T"
  proof (rule indexed_replace[OF assms(1,2) A b])
    have W: "walk (T h) [even k] = Some u" "walk (T h) [\<not> even k] = Some v" unfolding Th by (auto simp: fork_def)
    show "\<exists>qs v. walk (T h) qs = Some v \<and> y = mini (thash (erase v))" if m: "?M y \<noteq> NodeMap p y" for y
    proof -
      have "y = mini (thash (erase u)) \<or> y = mini (thash (erase v))" using m by (auto split: if_splits)
      then show ?thesis using W by blast
    qed
    show "Fo h = Some (erase (T h))" using t by simp
    note ap = tip_apart(2)[OF assms(1,2) A(1) b _ _ b this]
    fix c x assume c: "(c, x) \<in> set (tips (rename a u))" "x \<noteq> empty" "x \<in> X"
    show "?M (mini x) = Some c"
    proof (cases u)
      case (RTip b0 x0)
      then have "(b0, x) \<in> set (tips (T h))" "c = a" "x = x0" using c(1) unfolding Th by (auto simp: fork_def)
      moreover from this have "v \<noteq> RTip b0 x" using dr RTip by (auto simp: fork_def split: if_splits)
      ultimately show ?thesis using ap[OF _ c(2) W(2)] indexedOnD[OF A(2) _ _ c(2,3)] b assms(2) RTip by auto
    next
      case (RNode b0 l0 r0)
      then have i: "(c, x) \<in> set (tips u)" "(c, x) \<in> set (tips (T h))" using c(1) unfolding Th by (auto simp: fork_def)
      moreover have "v \<noteq> RTip c x" using dr tips_refs[OF i(1)] by (auto simp: fork_def split: if_splits)
      ultimately show ?thesis using ap[OF i(2) c(2) W(2)] ap[OF i(2) c(2) W(1)] indexedOnD[OF A(2) _ i(2) c(2,3)] b assms(2) RNode by auto
    qed
  qed
  ultimately show ?thesis unfolding h'(1) follows_def using assms(2) by auto
qed

lemma deleteBelow_linked:
  assumes "linked p T Fo" "polNumLeaves p = n" "F = treeRows n" "fits n F" "place n F d h r k" "r < h" "subtree_at n F Fo d \<noteq> None"
    "forest_ok n Fo" "empty \<notin> set (forest_leaves n Fo)" "Suc r \<noteq> h"
  shows "\<exists>p'. deleteSingle p d = Inr p' \<and> follows X p T (minis_distinct (forest_hashes n Fo)) p' (delete n F {d} Fo)"
proof -
  let ?qs = "way (h - Suc r) (k div 2)"
  obtain t a u v where t: "Fo h = Some t" "erase (T h) = t" "walk (T h) ?qs = Some (fork a (even k) u v)"
    and g: "getNode p (sibling d) = Inr (Some (rref u), Some (rref v), Some a)" and w: "way (h - r) k = ?qs @ [\<not> even k]"
    using found_fork[OF assms(1-7)] by metis
  have b: "bit n h" using place_bit[OF assms(5)] .
  have "h - Suc r = Suc (h - Suc (Suc r))" using assms(6,10) by simp
  then obtain es d' where es: "?qs = es @ [d']" by (metis way_snoc)
  obtain c w' where wf: "walk (T h) es = Some (fork c d' (fork a (even k) u v) w')" using t(3) unfolding es walk_snoc by blast
  have "\<not> isRootPosition (parent d (treeRows (polNumLeaves p))) (polNumLeaves p)"
    using isRoot_place[OF assms(3,4) node_parent[OF assms(4-6)]] assms(2,3,10) by simp
  then obtain h' where h': "deleteSingle p d = Inr (p\<lparr>Heap := h', NodeMap := (NodeMap p)(mini (thash (erase v)) := None)\<rparr>)"
    "rooted h' (put (T h) es (fork c d' u w'))" "\<forall>x. x \<notin> set (refs (T h)) \<longrightarrow> h' x = Heap p x"
    "set (refs (put (T h) es (fork c d' u w'))) \<subseteq> set (refs (T h)) - {rref v}"
    using deleteSingle_below[OF linkedD(1)[OF assms(1,2) b] wf g] by blast
  let ?t = "put (T h) es (fork c d' u w')" let ?M = "(NodeMap p)(mini (thash (erase v)) := None)"
  have "delete n F {d} Fo h = Some (erase ?t)"
    using delete_here[OF assms(4,5,8)] w es t(1,2) cutAt_put[OF wf] by simp
  moreover have "rref ?t = rref (T h)" using put_rref[OF wf, of "fork c d' u w'"] by simp
  moreover have "erase ?t \<noteq> Tip empty"
  proof
    assume "erase ?t = Tip empty"
    then obtain z where "?t = RTip z empty" by (cases ?t) auto
    then show False using put_walk[OF wf, of "fork c d' u w'"] by (cases es) (auto simp: fork_def split: if_splits)
  qed
  ultimately have "linked (p\<lparr>Heap := h', NodeMap := ?M\<rparr>) (T(h := ?t)) (delete n F {d} Fo)"
    using delete_other[OF assms(4,5,8)] h'(2,3,4) by (intro linked_replace[OF assms(1,2) b]) (auto simp: opt_def)
  moreover have "indexedOn X (p\<lparr>Heap := h', NodeMap := ?M\<rparr>) (T(h := ?t))"
    if A: "minis_distinct (forest_hashes n Fo)" "indexedOn X p T"
  proof (rule indexed_replace[OF assms(1,2) A b])
    have W: "walk (T h) (?qs @ [\<not> even k]) = Some v" using t(3) walk_snoc fork_swap by metis
    show "\<exists>qs v. walk (T h) qs = Some v \<and> y = mini (thash (erase v))" if m: "?M y \<noteq> NodeMap p y" for y
      using m W by (cases "y = mini (thash (erase v))") auto
    show F: "Fo h = Some (erase (T h))" using t by simp
    fix z x assume z: "(z, x) \<in> set (tips ?t)" "x \<noteq> empty" "x \<in> X"
    have "set (tips (fork c d' u w')) \<subseteq> set (tips (fork c d' (fork a (even k) u v) w'))" by (auto simp: fork_def)
    then have i: "(z, x) \<in> set (tips (T h))" using put_tips[OF wf] z(1) by blast
    have "z \<noteq> rref v" using tips_refs[OF z(1)] h'(4) by blast
    then have "mini x \<noteq> mini (thash (erase v))" using tip_apart(2)[OF assms(1,2) A(1) b i z(2) b F W] by auto
    then show "?M (mini x) = Some z" using indexedOnD[OF A(2) _ i z(2,3)] b assms(2) by simp
  qed
  ultimately show ?thesis unfolding h'(1) follows_def using assms(2) by auto
qed

lemma remove_linked:
  assumes "linked p T Fo" "polNumLeaves p = n" "F = treeRows n" "fits n F" "node n F d" "subtree_at n F Fo d \<noteq> None"
    "forest_ok n Fo" "empty \<notin> set (forest_leaves n Fo)"
  shows "\<exists>p'. (if isRootPosition d n then deleteRoot p d else deleteSingle p d) = Inr p' \<and>
    follows X p T (minis_distinct (forest_hashes n Fo)) p' (delete n F {d} Fo)"
proof -
  obtain h r k where pl: "place n F d h r k" using node_place[OF assms(4,5)] .
  have le: "r \<le> h" using place_row(1)[OF assms(4) pl] .
  have R: "isRootPosition d n \<longleftrightarrow> r = h" using isRoot_place[OF assms(3,4) pl] .
  show ?thesis
  proof (cases "r = h")
    case True
    have "Fo h \<noteq> None" using assms(6) subtree_at_place[OF assms(4) pl] by (cases "Fo h") auto
    then show ?thesis using deleteRoot_linked[OF assms(1-4) _ assms(7)] pl True R by simp
  next
    case False
    then have lt: "r < h" using le by simp
    show ?thesis using deleteTop_linked[OF assms(1-4) pl lt assms(6-8)] deleteBelow_linked[OF assms(1-4) pl lt assms(6-8)] R False
      by (cases "Suc r = h") auto
  qed
qed

text \<open>The keys of all nodes are different in the forest, and after each deletion.\<close>

fun apart_steps :: "u64 \<Rightarrow> u8 \<Rightarrow> u64 list \<Rightarrow> forest \<Rightarrow> bool" where
  "apart_steps n F [] Fo \<longleftrightarrow> True"
| "apart_steps n F (d # ds) Fo \<longleftrightarrow> minis_distinct (forest_hashes n Fo) \<and> apart_steps n F ds (delete n F {d} Fo)"

lemma delete_nothing: "forest_ok n Fo \<Longrightarrow> bit n h \<Longrightarrow> delete n F {} Fo h = Fo h"
  by (cases "Fo h") (simp_all add: delete_cutAt)

lemma delete_keeps:
  assumes "targets_ok n F ts" "distinct ts" "forest_ok n Fo" shows "set (forest_leaves n (delete n F (set ts) Fo)) \<subseteq> set (forest_leaves n Fo)"
  using arg_cong[OF delete_leaves[OF assms], of set_mset] by auto

lemma removeEach_linked:
  assumes "linked p T Fo" "polNumLeaves p = n" "F = treeRows n" "apart_dels n F ds" "\<forall>d \<in> set ds. subtree_at n F Fo d \<noteq> None"
    "forest_ok n Fo" "empty \<notin> set (forest_leaves n Fo)"
  shows "\<exists>p'. removeEach ds p = Inr p' \<and> follows X p T (apart_steps n F ds Fo) p' (delete n F (set ds) Fo)"
  using assms
proof (induction ds arbitrary: p T Fo)
  case Nil
  have "linked p T (delete n F {} Fo)" using linked_cong[OF Nil(1)] delete_nothing[OF Nil(6)] Nil(2) by simp
  then show ?case by (auto simp: follows_def)
next
  case (Cons d ds)
  let ?Fo = "delete n F {d} Fo"
  have t: "targets_ok n F (d # ds)" using Cons.prems(4) by (simp add: apart_dels_def)
  then have f: "fits n F" "node n F d" and t1: "targets_ok n F [d]" by (auto simp: targets_ok_def)
  obtain p1 where p1: "(if isRootPosition d n then deleteRoot p d else deleteSingle p d) = Inr p1"
    "follows X p T (minis_distinct (forest_hashes n Fo)) p1 ?Fo"
    using remove_linked[OF Cons.prems(1-3) f _ Cons.prems(6,7)] Cons.prems(5) by auto
  obtain T1 where T1: "linked p1 T1 ?Fo" "polNumLeaves p1 = n" "NumDels p1 = NumDels p"
    "minis_distinct (forest_hashes n Fo) \<and> indexedOn X p T \<longrightarrow> indexedOn X p1 T1" using p1(2) Cons.prems(2) by (auto simp: follows_def)
  have "\<forall>d' \<in> set ds. subtree_at n F ?Fo d' \<noteq> None" using subtree_later[OF Cons.prems(4,6)] Cons.prems(5) by auto
  moreover have "forest_ok n ?Fo" using delete_ok Cons.prems(6) by blast
  moreover have "empty \<notin> set (forest_leaves n ?Fo)" using delete_keeps[OF t1 _ Cons.prems(6)] Cons.prems(7) by auto
  ultimately obtain p' where p': "removeEach ds p1 = Inr p'" "follows X p1 T1 (apart_steps n F ds ?Fo) p' (delete n F (set ds) ?Fo)"
    using Cons.IH[OF T1(1,2) Cons.prems(3) apart_dels_Cons[OF Cons.prems(4)]] by blast
  obtain T' where T': "linked p' T' (delete n F (set ds) ?Fo)" "polNumLeaves p' = n" "NumDels p' = NumDels p"
    "apart_steps n F ds ?Fo \<and> indexedOn X p1 T1 \<longrightarrow> indexedOn X p' T'" using p'(2) T1 by (auto simp: follows_def)
  have "linked p' T' (delete n F (set (d # ds)) Fo)" using linked_cong[OF T'(1)] delete_first[OF Cons.prems(4,6)] T'(2) by blast
  then have "follows X p T (apart_steps n F (d # ds) Fo) p' (delete n F (set (d # ds)) Fo)"
    using T' T1(4) Cons.prems(2) unfolding follows_def by auto
  moreover have "removeEach (d # ds) p = Inr p'" using p1(1) p'(1) Cons.prems(2) by simp
  ultimately show ?case by blast
qed

section \<open>Modify\<close>

lemma deleteFromMap_linked: "linked p T Fo \<Longrightarrow> linked (deleteFromMap p hs) T Fo"
  by (simp add: linked_def deleteFromMap_def)

lemma deleteFromMap_other: "k \<notin> mini ` set hs \<Longrightarrow> NodeMap (deleteFromMap p hs) k = NodeMap p k"
proof -
  have "fold (\<lambda>del m. m(mini del := None)) hs m k = m k" if "k \<notin> mini ` set hs" for m
    using that by (induction hs arbitrary: m) auto
  then show "k \<notin> mini ` set hs \<Longrightarrow> NodeMap (deleteFromMap p hs) k = NodeMap p k" by (simp add: deleteFromMap_def)
qed

lemma deleteFromMap_indexed:
  assumes "indexed p T" "mini ` X \<inter> mini ` set hs = {}" shows "indexedOn X (deleteFromMap p hs) T"
proof (rule indexedOnI)
  fix r a x assume a: "bit (polNumLeaves (deleteFromMap p hs)) r" "(a, x) \<in> set (tips (T r))" "x \<noteq> empty" "x \<in> X"
  have r: "r \<in> set (rows (polNumLeaves p))" using a(1) by (simp add: rows_iff deleteFromMap_def)
  have "NodeMap p (mini x) = Some a" using bspec[OF bspec[OF assms(1)[unfolded indexed_def] r] a(2)] a(3) by simp
  moreover have "mini x \<notin> mini ` set hs" using assms(2) imageI[OF a(4), of mini] by blast
  ultimately show "NodeMap (deleteFromMap p hs) (mini x) = Some a" by (simp add: deleteFromMap_other)
qed

lemma indexedOn_all: "linked p T Fo \<Longrightarrow> indexedOn (set (forest_leaves (polNumLeaves p) Fo)) p T \<Longrightarrow> indexed p T"
  using tips_forest unfolding indexed_def indexedOn_def by blast

lemma Pollard_remove_linked:
  assumes "linked p T Fo" "polNumLeaves p = n" "F = treeRows n" "targets_ok n F ts" "distinct ts" "forest_ok n Fo"
    "\<forall>t \<in> set ts. subtree_at n F Fo t \<noteq> None" "empty \<notin> set (forest_leaves n Fo)"
  shows "\<exists>p'. Pollard_remove p ts = Inr p' \<and> follows X p T (apart_steps n F (deTwin (sort ts) F) Fo) p' (delete n F (set ts) Fo)"
proof -
  let ?ds = "deTwin (sort ts) F"
  note d = deTwin_delete[OF assms(4-7) refl]
  obtain p' where p': "removeEach ?ds p = Inr p'" "follows X p T (apart_steps n F ?ds Fo) p' (delete n F (set ?ds) Fo)"
    using removeEach_linked[OF assms(1-3) d(1,2) assms(6,8)] by blast
  then have "follows X p T (apart_steps n F ?ds Fo) p' (delete n F (set ts) Fo)"
    unfolding follows_def using linked_cong d(3) assms(2) by metis
  then show ?thesis using p'(1) assms(2,3) by (auto simp: Pollard_remove_def)
qed

theorem Pollard_Modify_linked:
  assumes "linked p T Fo" "polNumLeaves p = n" "F = treeRows n" "targets_ok n F (Targets pr)" "distinct (Targets pr)" "forest_ok n Fo"
    "\<forall>t \<in> set (Targets pr). subtree_at n F Fo t \<noteq> None" "empty \<notin> set (forest_leaves n Fo)"
    "unat n + length xs < 2 ^ 64" "Fo' = delete n F (set (Targets pr)) Fo" "Fo'' = insert_leaves n Fo' (map leaf_Hash xs)"
    "forest_nonzero (n + of_nat (length xs)) Fo''"
  shows "\<exists>p' T'. Pollard_Modify p xs hs pr = Inr p' \<and> linked p' T' Fo'' \<and> polNumLeaves p' = n + of_nat (length xs) \<and>
    NumDels p' = NumDels p + of_nat (length (Targets pr)) \<and>
    (indexed p T \<and> mini ` set (forest_leaves n Fo') \<inter> mini ` set hs = {} \<and> apart_steps n F (deTwin (sort (Targets pr)) F) Fo \<and>
     minis_distinct (forest_leaves n Fo' @ map leaf_Hash xs) \<longrightarrow> indexed p' T')"
proof -
  let ?X = "set (forest_leaves n Fo')" let ?A = "apart_steps n F (deTwin (sort (Targets pr)) F) Fo"
  have "polNumLeaves (deleteFromMap p hs) = n" using assms(2) by (simp add: deleteFromMap_def)
  then obtain p1 where p1: "Pollard_remove (deleteFromMap p hs) (Targets pr) = Inr p1" "follows ?X (deleteFromMap p hs) T ?A p1 Fo'"
    using Pollard_remove_linked[OF deleteFromMap_linked[OF assms(1)] _ assms(3-8), of hs ?X] assms(10) by blast
  then obtain T1 where T1: "linked p1 T1 Fo'" "polNumLeaves p1 = n" "NumDels p1 = NumDels p"
    "?A \<and> indexedOn ?X (deleteFromMap p hs) T \<longrightarrow> indexedOn ?X p1 T1"
    unfolding follows_def using assms(2) by (auto simp: deleteFromMap_def)
  let ?p = "p1\<lparr>NumDels := NumDels p1 + of_nat (length (Targets pr))\<rparr>"
  have l: "linked ?p T1 Fo'" "polNumLeaves ?p = n" "indexed ?p T1 \<longleftrightarrow> indexed p1 T1" using T1 by (simp_all add: linked_def indexed_def)
  obtain p' T' where p': "Pollard_add xs ?p = Inr p'" "linked p' T' Fo''" "polNumLeaves p' = n + of_nat (length xs)" "NumDels p' = NumDels ?p"
    "indexed ?p T1 \<and> minis_distinct (forest_leaves n Fo' @ map leaf_Hash xs) \<longrightarrow> indexed p' T'"
    using Pollard_add_linked[OF l(1,2) assms(9)] assms(11,12) by blast
  have ix: "indexed ?p T1" if "indexed p T" "mini ` ?X \<inter> mini ` set hs = {}" ?A
  proof -
    have "indexedOn ?X p1 T1" using T1(4) that(3) deleteFromMap_indexed[OF that(1,2)] by (rule_tac mp) simp_all
    then show ?thesis using indexedOn_all[OF T1(1)] T1(2) l(3) by simp
  qed
  have "Pollard_Modify p xs hs pr = Inr p'" using p1(1) p'(1) by (simp add: Pollard_Modify_def)
  moreover have "NumDels p' = NumDels p + of_nat (length (Targets pr))" using p'(4) T1(3) by simp
  ultimately show ?thesis using p'(2,3,5) ix by (intro exI[of _ p'] exI[of _ T']) (simp only: simp_thms, iprover)
qed

end
