(* ===== verification/Interfaces.thy ===== *)
theory Interfaces
  imports PollardDelete
begin

text \<open>
  The interface of accumulator_interface.go as a contract on a forest (\<open>accumulator\<close>): what the roots are, which proof
  \<open>Prove\<close> returns and which proofs \<open>Verify\<close> accepts. MapPollard and Pollard both fulfil it, and two accumulators of the same
  forest agree (\<open>accumulator_pair\<close>).
\<close>

unbundle bit_operations_syntax

section \<open>What an accumulator promises\<close>

text \<open>The proof of some positions of a forest, and the positions of some leaves.\<close>

definition proof_at :: "u64 \<Rightarrow> forest \<Rightarrow> u64 list \<Rightarrow> Proof" where
  "proof_at n Fo ts = \<lparr>Targets = ts, proofHashes = map (label n (treeRows n) Fo) (needed n (treeRows n) ts)\<rparr>"

definition leaf_targets :: "u64 \<Rightarrow> forest \<Rightarrow> u64 list \<Rightarrow> Hash list \<Rightarrow> bool" where
  "leaf_targets n Fo ts hs \<longleftrightarrow> targets_ok n (treeRows n) ts \<and> distinct ts \<and>
     map (subtree_at n (treeRows n) Fo) ts = map (\<lambda>x. Some (Tip x)) hs"

lemma leaf_targetsD:
  assumes "leaf_targets n Fo ts hs"
  shows "targets_ok n (treeRows n) ts" "distinct ts" "map (label n (treeRows n) Fo) ts = hs"
    "\<forall>t \<in> set ts. subtree_at n (treeRows n) Fo t \<noteq> None" "fits n (treeRows n)"
proof -
  have m: "map (subtree_at n (treeRows n) Fo) ts = map (\<lambda>x. Some (Tip x)) hs" using assms by (simp add: leaf_targets_def)
  then show "map (label n (treeRows n) Fo) ts = hs"
    by (auto simp: label_def list_eq_iff_nth_eq)
  have "subtree_at n (treeRows n) Fo ` set ts \<subseteq> range (\<lambda>x. Some (Tip x))"
    using arg_cong[OF m, of set] by auto
  then show "\<forall>t \<in> set ts. subtree_at n (treeRows n) Fo t \<noteq> None" by fastforce
qed (use assms in \<open>auto simp: leaf_targets_def targets_ok_def\<close>)

text \<open>With different keys a node is found from its hash.\<close>

lemma same_node:
  assumes "minis_distinct (forest_hashes n Fo)" "fits n F" "node n F p" "node n F q" "subtree_at n F Fo p = Some s" "subtree_at n F Fo q = Some u"
    "thash s = thash u"
  shows "p = q"
proof -
  obtain h r k where p: "place n F p h r k" using node_place[OF assms(2,3)] .
  obtain g r' k' where q: "place n F q g r' k'" using node_place[OF assms(2,4)] .
  obtain t where t: "Fo h = Some t" "uwalk t (way (h - r) k) = Some s"
    using assms(5) subtree_at_place[OF assms(2) p] by (auto simp: sub_way bind_eq_Some_conv)
  obtain t' where t': "Fo g = Some t'" "uwalk t' (way (g - r') k') = Some u"
    using assms(6) subtree_at_place[OF assms(2) q] by (auto simp: sub_way bind_eq_Some_conv)
  have "(h, way (h - r) k) = (g, way (g - r') k')"
    using minis_forest[OF assms(1) place_bit[OF p] place_bit[OF q] t(1) t'(1) t(2) t'(2)] assms(7) by metis
  then show ?thesis using paths_place[OF assms(2) p, of "{q}"] paths_place[OF assms(2) q, of "{q}"] by (metis Pair_inject singletonD singletonI)
qed

lemma leaf_targets_unique:
  assumes "minis_distinct (forest_hashes n Fo)" "leaf_targets n Fo ts hs" "leaf_targets n Fo us hs" shows "ts = us"
proof (rule nth_equalityI)
  let ?F = "treeRows n"
  have m: "map (subtree_at n ?F Fo) ts = map (\<lambda>x. Some (Tip x)) hs" "map (subtree_at n ?F Fo) us = map (\<lambda>x. Some (Tip x)) hs"
    and nd: "\<forall>t \<in> set ts. node n ?F t" "\<forall>t \<in> set us. node n ?F t" and f: "fits n ?F"
    using assms(2,3) by (auto simp: leaf_targets_def targets_ok_def)
  have len: "length ts = length hs" "length us = length hs" using arg_cong[OF m(1), of length] arg_cong[OF m(2), of length] by auto
  then show "length ts = length us" by simp
  fix i assume i: "i < length ts"
  have "subtree_at n ?F Fo (ts ! i) = Some (Tip (hs ! i))" "subtree_at n ?F Fo (us ! i) = Some (Tip (hs ! i))"
    using arg_cong[OF m(1), of "\<lambda>l. l ! i"] arg_cong[OF m(2), of "\<lambda>l. l ! i"] i len by auto
  then show "ts ! i = us ! i" using same_node[OF assms(1) f _ _ _ _ refl] nd i len by (metis nth_mem)
qed

locale accumulator =
  fixes prove :: "'a \<Rightarrow> Hash list \<Rightarrow> Proof result"
    and accepts :: "'a \<Rightarrow> Hash list \<Rightarrow> Proof \<Rightarrow> bool"
    and roots_of :: "'a \<Rightarrow> Hash list"
    and leaf_count :: "'a \<Rightarrow> u64"
    and holds :: "'a \<Rightarrow> forest \<Rightarrow> bool"
    and knows :: "'a \<Rightarrow> forest \<Rightarrow> Hash list \<Rightarrow> bool"
  assumes nonzero_law: "holds a Fo \<Longrightarrow> forest_nonzero (leaf_count a) Fo"
    and roots_law: "holds a Fo \<Longrightarrow> roots_of a = Roots (stump_of (leaf_count a) Fo)"
    and prove_law: "holds a Fo \<Longrightarrow> knows a Fo hs \<Longrightarrow> distinct hs \<Longrightarrow>
      \<exists>ts. leaf_targets (leaf_count a) Fo ts hs \<and> prove a hs = Inr (proof_at (leaf_count a) Fo ts)"
    and accept_law: "holds a Fo \<Longrightarrow> leaf_targets (leaf_count a) Fo ts hs \<Longrightarrow> accepts a hs (proof_at (leaf_count a) Fo ts)"
begin

lemma stump_accepts:
  assumes "holds a Fo" "leaf_targets (leaf_count a) Fo ts hs"
  shows "\<exists>js. Verify \<lparr>Roots = roots_of a, NumLeaves = leaf_count a\<rparr> hs (proof_at (leaf_count a) Fo ts) = Inr js"
proof -
  note t = leaf_targetsD[OF assms(2)]
  have "\<lparr>Roots = roots_of a, NumLeaves = leaf_count a\<rparr> = stump_of (leaf_count a) Fo" using roots_law[OF assms(1)] by (simp add: stump_of_def)
  then show ?thesis using Verify_complete[OF t(1,2) refl nonzero_law[OF assms(1)] t(4) refl] t(3) by (auto simp: proof_at_def)
qed

lemma proves:
  assumes "holds a Fo" "knows a Fo hs" "distinct hs"
  shows "\<exists>pr. prove a hs = Inr pr \<and> accepts a hs pr \<and> (\<exists>js. Verify \<lparr>Roots = roots_of a, NumLeaves = leaf_count a\<rparr> hs pr = Inr js)"
  using prove_law[OF assms] accept_law[OF assms(1)] stump_accepts[OF assms(1)] by blast

end

locale accumulator_pair =
  one: accumulator prove1 accepts1 roots1 count1 holds1 knows1 + two: accumulator prove2 accepts2 roots2 count2 holds2 knows2
  for prove1 :: "'a \<Rightarrow> Hash list \<Rightarrow> Proof result" and accepts1 roots1 count1 holds1 knows1
    and prove2 :: "'b \<Rightarrow> Hash list \<Rightarrow> Proof result" and accepts2 roots2 count2 holds2 knows2
begin

lemma agree:
  assumes "holds1 a Fo" "holds2 b Fo" "count1 a = count2 b"
  shows "roots1 a = roots2 b" "knows1 a Fo hs \<Longrightarrow> distinct hs \<Longrightarrow> \<exists>pr. prove1 a hs = Inr pr \<and> accepts2 b hs pr"
    "knows1 a Fo hs \<Longrightarrow> knows2 b Fo hs \<Longrightarrow> distinct hs \<Longrightarrow> minis_distinct (forest_hashes (count1 a) Fo) \<Longrightarrow> prove1 a hs = prove2 b hs"
proof -
  show "roots1 a = roots2 b" using one.roots_law[OF assms(1)] two.roots_law[OF assms(2)] assms(3) by simp
  show "knows1 a Fo hs \<Longrightarrow> distinct hs \<Longrightarrow> \<exists>pr. prove1 a hs = Inr pr \<and> accepts2 b hs pr"
    using one.prove_law[OF assms(1)] two.accept_law[OF assms(2)] assms(3) by metis
  assume k: "knows1 a Fo hs" "knows2 b Fo hs" "distinct hs" "minis_distinct (forest_hashes (count1 a) Fo)"
  obtain ts us where "leaf_targets (count1 a) Fo ts hs" "prove1 a hs = Inr (proof_at (count1 a) Fo ts)"
    "leaf_targets (count1 a) Fo us hs" "prove2 b hs = Inr (proof_at (count1 a) Fo us)"
    using one.prove_law[OF assms(1) k(1,3)] two.prove_law[OF assms(2) k(2,3)] assms(3) by metis
  then show "prove1 a hs = prove2 b hs" using leaf_targets_unique[OF k(4)] by metis
qed

end

section \<open>The two accumulators\<close>

definition pollard_of :: "Pollard \<Rightarrow> forest \<Rightarrow> bool" where
  "pollard_of p Fo \<longleftrightarrow> (\<exists>T. linked p T Fo \<and> indexed p T) \<and> unat (polNumLeaves p) \<le> 2 ^ 63 \<and>
     forest_ok (polNumLeaves p) Fo \<and> forest_nonzero (polNumLeaves p) Fo"

lemma fits_rows: "unat n \<le> 2 ^ 63 \<Longrightarrow> fits n (treeRows n)"
  using treeRows_least[of n 63] le_treeRows[of n] by (simp add: fits_def)

interpretation map_pollard: accumulator MapPollard_Prove "\<lambda>m hs pr. MapPollard_Verify m hs pr False = Inr m" GetRoots GetNumLeaves
  "\<lambda>m Fo. represents m Fo \<and> forest_nonzero (mapNumLeaves m) Fo" "\<lambda>m Fo hs. cached m hs"
proof unfold_locales
  fix m Fo hs ts
  assume R: "represents m Fo \<and> forest_nonzero (mapNumLeaves m) Fo"
  let ?n = "mapNumLeaves m"
  show "forest_nonzero (GetNumLeaves m) Fo" "GetRoots m = Roots (stump_of (GetNumLeaves m) Fo)"
    using R arg_cong[OF GetStump_represents[of m Fo], of Roots] by (simp_all add: GetNumLeaves_def GetStump_def)
  {
    assume c: "cached m hs" "distinct hs"
    let ?ts = "map (\<lambda>h. the (CachedLeaves m h)) hs"
    let ?us = "map (\<lambda>t. translatePos t (TotalRows m) (treeRows ?n)) ?ts"
    note P = Prove_represents[OF conjunct1[OF R] c refl refl refl refl refl]
    note D = representsD[OF conjunct1[OF R] refl refl]
    have "subtree_at ?n (treeRows ?n) Fo (translatePos (the (CachedLeaves m x)) (TotalRows m) (treeRows ?n)) = Some (Tip x)" if x: "x \<in> set hs" for x
    proof -
      obtain t where "CachedLeaves m x = Some t" using c(1) x by (auto simp: cached_def list_all_iff)
      then show ?thesis using D(6)[of x t] translate_node(4)[OF D(1,3), of t Fo] by simp
    qed
    then have "leaf_targets ?n Fo ?us hs" using P(2,3) by (simp add: leaf_targets_def)
    then show "\<exists>ts. leaf_targets (GetNumLeaves m) Fo ts hs \<and> MapPollard_Prove m hs = Inr (proof_at (GetNumLeaves m) Fo ts)"
      using P(1) unfolding GetNumLeaves_def proof_at_def by blast
  }
  assume l: "leaf_targets (GetNumLeaves m) Fo ts hs"
  note t = leaf_targetsD[OF l[unfolded GetNumLeaves_def]]
  obtain js where "Verify (stump_of ?n Fo) hs (proof_at ?n Fo ts) = Inr js"
    using Verify_complete[OF t(1,2) refl conjunct2[OF R] t(4) refl] t(3) by (auto simp: proof_at_def)
  moreover have "\<forall>u \<in> set (Targets (proof_at ?n Fo ts)). node ?n (treeRows ?n) u" using t(1) by (simp add: proof_at_def targets_ok_def)
  ultimately show "MapPollard_Verify m hs (proof_at (GetNumLeaves m) Fo ts) False = Inr m"
    using MapPollard_Verify_eq[OF conjunct1[OF R]] by (simp add: GetNumLeaves_def)
qed

interpretation pollard: accumulator Pollard_Prove "\<lambda>p hs pr. \<forall>rem. Pollard_Verify p hs pr rem = Inr ()" Pollard_GetRoots Pollard_GetNumLeaves
  "\<lambda>p Fo. pollard_of p Fo \<and> forest_distinct (polNumLeaves p) Fo" "\<lambda>p Fo hs. set hs \<subseteq> set (forest_leaves (polNumLeaves p) Fo)"
proof unfold_locales
  fix p Fo hs ts
  assume P: "pollard_of p Fo \<and> forest_distinct (polNumLeaves p) Fo"
  let ?n = "polNumLeaves p"
  obtain T where T: "linked p T Fo" "indexed p T" and c: "fits ?n (treeRows ?n)" "forest_ok ?n Fo" "forest_nonzero ?n Fo" "forest_distinct ?n Fo"
    using P fits_rows by (auto simp: pollard_of_def)
  show "forest_nonzero (Pollard_GetNumLeaves p) Fo" "Pollard_GetRoots p = Roots (stump_of (Pollard_GetNumLeaves p) Fo)"
    using c GetRoots_linked[OF T(1)] by (simp_all add: Pollard_GetNumLeaves_def)
  {
    assume h: "set hs \<subseteq> set (forest_leaves ?n Fo)" "distinct hs"
    show "\<exists>ts. leaf_targets (Pollard_GetNumLeaves p) Fo ts hs \<and> Pollard_Prove p hs = Inr (proof_at (Pollard_GetNumLeaves p) Fo ts)"
      by (rule Pollard_Prove_linked[OF T refl refl c h]) (auto simp: leaf_targets_def proof_at_def Pollard_GetNumLeaves_def)
  }
  assume l: "leaf_targets (Pollard_GetNumLeaves p) Fo ts hs"
  note t = leaf_targetsD[OF l[unfolded Pollard_GetNumLeaves_def]]
  show "\<forall>rem. Pollard_Verify p hs (proof_at (Pollard_GetNumLeaves p) Fo ts) rem = Inr ()"
    using Pollard_Verify_complete[OF T(1) refl refl t(1,2) c(3) t(4) t(3)[symmetric] refl] by (simp add: proof_at_def Pollard_GetNumLeaves_def)
qed

interpretation accumulators: accumulator_pair MapPollard_Prove "\<lambda>m hs pr. MapPollard_Verify m hs pr False = Inr m" GetRoots GetNumLeaves
  "\<lambda>m Fo. represents m Fo \<and> forest_nonzero (mapNumLeaves m) Fo" "\<lambda>m Fo hs. cached m hs"
  Pollard_Prove "\<lambda>p hs pr. \<forall>rem. Pollard_Verify p hs pr rem = Inr ()" Pollard_GetRoots Pollard_GetNumLeaves
  "\<lambda>p Fo. pollard_of p Fo \<and> forest_distinct (polNumLeaves p) Fo" "\<lambda>p Fo hs. set hs \<subseteq> set (forest_leaves (polNumLeaves p) Fo)"
  by unfold_locales

end
