(* ===== verification/Bridge.thy ===== *)
theory Bridge
  imports Interfaces
begin

text \<open>
  A pollard and a stump that follow the same blocks. \<open>block_served\<close> is the step of a block: the pollard proves its
  deletions, and with this proof both are updated; \<open>serve_follows\<close> is a sequence of blocks.
\<close>

unbundle bit_operations_syntax

section \<open>Blocks\<close>

text \<open>A block deletes leaves, given by their positions, and adds others. The keys that the map of a
  pollard has for the nodes are different, before the block and after each deletion.\<close>

definition after_block :: "u64 \<Rightarrow> forest \<Rightarrow> u64 list \<Rightarrow> Leaf list \<Rightarrow> forest" where
  "after_block n Fo ts adds = insert_leaves n (delete n (treeRows n) (set ts) Fo) (map leaf_Hash adds)"

definition leaf_at :: "u64 \<Rightarrow> u8 \<Rightarrow> forest \<Rightarrow> u64 \<Rightarrow> bool" where
  "leaf_at n F Fo t = (case subtree_at n F Fo t of None \<Rightarrow> False | Some u \<Rightarrow> (case u of Tip x \<Rightarrow> node n F t | Node l r \<Rightarrow> False))"

lemma leaf_atD:
  assumes "leaf_at n F Fo t" shows "node n F t" "subtree_at n F Fo t = Some (Tip (label n F Fo t))"
proof -
  obtain x where "subtree_at n F Fo t = Some (Tip x)" "node n F t"
    using assms by (cases "subtree_at n F Fo t"; cases "the (subtree_at n F Fo t)") (simp_all add: leaf_at_def)
  then show "node n F t" "subtree_at n F Fo t = Some (Tip (label n F Fo t))" by (simp_all add: label_def)
qed

definition block_ok :: "u64 \<Rightarrow> forest \<Rightarrow> u64 list \<Rightarrow> Leaf list \<Rightarrow> bool" where
  "block_ok n Fo ts adds \<longleftrightarrow>
     (let F = treeRows n; Fo' = delete n F (set ts) Fo
      in uint n + int (length adds) \<le> 2 ^ 63 \<and> distinct ts \<and>
         list_all (leaf_at n F Fo) ts \<and>
         forest_nonzero (n + of_nat (length adds)) (after_block n Fo ts adds) \<and>
         minis_distinct (forest_hashes n Fo) \<and> apart_steps n F (deTwin (sort ts) F) Fo \<and>
         minis_distinct (forest_leaves n Fo' @ map leaf_Hash adds))"

definition deletions :: "u64 \<Rightarrow> forest \<Rightarrow> u64 list \<Rightarrow> Hash list" where
  "deletions n Fo ts = map (label n (treeRows n) Fo) ts"

lemma leaves_hashes: "mset (leaves t) \<subseteq># mset (nodeHashes t)"
proof (induction t)
  case (Node l r)
  have "mset (leaves l) + mset (leaves r) \<subseteq># mset (nodeHashes l) + mset (nodeHashes r)" using subset_mset.add_mono[OF Node] .
  then show ?case by (simp add: subset_mset.le_iff_add) (metis add_mset_add_single union_assoc)
qed simp

lemma distinct_submset: "mset xs \<subseteq># mset ys \<Longrightarrow> distinct ys \<Longrightarrow> distinct xs"
  unfolding distinct_count_atmost_1 by (metis (no_types, lifting) count_mset_0_iff leD le_less_linear less_one mset_subset_eq_count nat_neq_iff not_gr_zero)

lemma keys_leaves:
  assumes "minis_distinct (forest_hashes n Fo)" shows "minis_distinct (forest_leaves n Fo)"
proof -
  let ?a = "\<lambda>h. case Fo h of None \<Rightarrow> [] | Some t \<Rightarrow> leaves t" and ?b = "\<lambda>h. case Fo h of None \<Rightarrow> [] | Some t \<Rightarrow> nodeHashes t"
  have "mset (?a h) \<subseteq># mset (?b h)" for h using leaves_hashes by (cases "Fo h") auto
  then have "mset (concat (map ?a hs)) \<subseteq># mset (concat (map ?b hs))" for hs
    by (induction hs) (auto intro: subset_mset.add_mono)
  then have "image_mset mini (mset (forest_leaves n Fo)) \<subseteq># image_mset mini (mset (forest_hashes n Fo))"
    unfolding forest_leaves_def forest_hashes_def by (rule image_mset_subseteq_mono)
  then show ?thesis using assms distinct_submset[of "map mini (forest_leaves n Fo)" "map mini (forest_hashes n Fo)"]
    by (simp add: minis_distinct_def)
qed

lemma keys_roots:
  assumes "minis_distinct (forest_hashes n Fo)" shows "forest_distinct n Fo"
proof -
  have "rhash (Fo g) \<noteq> rhash (Fo h)" if a: "bit n g" "bit n h" "g \<noteq> h" "rhash (Fo g) \<noteq> empty" for g h
  proof
    assume e: "rhash (Fo g) = rhash (Fo h)"
    then obtain t u where "Fo g = Some t" "Fo h = Some u" using a(4) by (cases "Fo g"; cases "Fo h") auto
    then show False using minis_forest[OF assms a(1,2), of t u "[]" t "[]" u] e a(3) by simp
  qed
  then have "distinct (filter (\<lambda>x. x \<noteq> empty) (map (\<lambda>h. rhash (Fo h)) hs))" if "distinct hs" "set hs \<subseteq> set (rows n)" for hs
    using that
  proof (induction hs)
    case (Cons a hs)
    then have "rhash (Fo a) \<notin> rhash ` Fo ` set hs" if "rhash (Fo a) \<noteq> empty" using that rows_iff by fastforce
    then show ?case using Cons by (auto simp: image_image)
  qed simp
  then show ?thesis using distinct_rows by (simp add: forest_distinct_def)
qed

lemma block_small: "block_ok n Fo ts adds \<Longrightarrow> unat n + length adds \<le> 2 ^ 63"
proof -
  assume "block_ok n Fo ts adds"
  then have "int (unat n + length adds) \<le> 2 ^ 63" by (simp add: block_ok_def Let_def)
  also have "\<dots> = int (2 ^ 63)" by simp
  finally show ?thesis by linarith
qed

lemma block_leaves:
  assumes "block_ok n Fo ts adds" shows "leaf_targets n Fo ts (deletions n Fo ts)" "fits n (treeRows n)"
proof -
  show f: "fits n (treeRows n)" using block_small[OF assms] by (intro fits_rows) linarith
  have l: "leaf_at n (treeRows n) Fo t" if "t \<in> set ts" for t
    using assms that by (simp add: block_ok_def Let_def list_all_iff)
  have "map (subtree_at n (treeRows n) Fo) ts = map (\<lambda>x. Some (Tip x)) (deletions n Fo ts)"
    using leaf_atD(2)[OF l] by (simp add: deletions_def)
  moreover have "targets_ok n (treeRows n) ts" using leaves_ok[OF f] leaf_atD[OF l] by blast
  moreover have "distinct ts" using assms by (simp add: block_ok_def Let_def)
  ultimately show "leaf_targets n Fo ts (deletions n Fo ts)" by (simp add: leaf_targets_def)
qed

lemma block_removed:
  assumes "block_ok n Fo ts adds" "forest_ok n Fo" "Fo' = delete n (treeRows n) (set ts) Fo"
  shows "mset (forest_leaves n Fo) = mset (forest_leaves n Fo') + mset (deletions n Fo ts)"
    "mini ` set (forest_leaves n Fo') \<inter> mini ` set (deletions n Fo ts) = {}" "distinct (deletions n Fo ts)"
    "set (deletions n Fo ts) \<subseteq> set (forest_leaves n Fo)"
proof -
  let ?F = "treeRows n"
  note t = leaf_targetsD[OF block_leaves(1)[OF assms(1)]]
  have "leavesO (subtree_at n ?F Fo t) = [label n ?F Fo t]" if "t \<in> set ts" for t
    using leaf_atD(2)[of n ?F Fo t] assms(1) that by (simp add: block_ok_def Let_def list_all_iff leavesO_def)
  then have "concat (map (\<lambda>t. leavesO (subtree_at n ?F Fo t)) ts) = concat (map (\<lambda>t. [label n ?F Fo t]) ts)" by (metis (no_types, lifting) map_eq_conv)
  then have "concat (map (\<lambda>t. leavesO (subtree_at n ?F Fo t)) ts) = deletions n Fo ts" by (simp add: deletions_def)
  then show m: "mset (forest_leaves n Fo) = mset (forest_leaves n Fo') + mset (deletions n Fo ts)"
    using delete_leaves[OF t(1,2) assms(2)] assms(3) by simp
  have "minis_distinct (forest_leaves n Fo)" using keys_leaves assms(1) by (simp add: block_ok_def Let_def)
  moreover have "mset (map mini (forest_leaves n Fo)) = mset (map mini (forest_leaves n Fo' @ deletions n Fo ts))" using m by simp
  ultimately have d: "distinct (map mini (forest_leaves n Fo' @ deletions n Fo ts))"
    using mset_eq_imp_distinct_iff unfolding minis_distinct_def by blast
  then show "mini ` set (forest_leaves n Fo') \<inter> mini ` set (deletions n Fo ts) = {}" by simp
  show "distinct (deletions n Fo ts)" using d by (simp add: distinct_map)
  show "set (deletions n Fo ts) \<subseteq> set (forest_leaves n Fo)" using arg_cong[OF m, of set_mset] by auto
qed

lemma nonzero_leaves: "nonzero t \<Longrightarrow> empty \<notin> set (leaves t)"
  by (induction t) auto

lemma forest_nonzero_leaves:
  assumes "forest_nonzero n Fo" shows "empty \<notin> set (forest_leaves n Fo)"
proof -
  have "empty \<notin> set (case Fo h of None \<Rightarrow> [] | Some t \<Rightarrow> leaves t)" if "bit n h" for h
    using forest_nonzeroD[OF assms that] nonzero_leaves by (auto simp: nonzeroO_def split: option.splits)
  then show ?thesis unfolding forest_leaves_def set_concat set_map using rows_iff by blast
qed

lemma Stump_Update_eq:
  assumes "targets_ok n F ts" "distinct ts" "F = treeRows n" "forest_ok n Fo" "forest_nonzero n Fo" "forest_distinct n Fo"
    "\<forall>t \<in> set ts. subtree_at n F Fo t \<noteq> None" "unat n + length xs \<le> 2 ^ 63" "n' = n + of_nat (length xs)"
    "forest_nonzero n' (insert_leaves n (delete n F (set ts) Fo) xs)"
  shows "\<exists>ud. Stump_Update (stump_of n Fo) (map (label n F Fo) ts) xs \<lparr>Targets = ts, proofHashes = map (label n F Fo) (needed n F ts)\<rparr> =
      Inr (stump_of n' (insert_leaves n (delete n F (set ts) Fo) xs), ud) \<and> PrevNumLeaves ud = n \<and> NewDelPos ud = climbL n F ts"
proof -
  let ?D = "delete n F (set ts) Fo"
  have c: "unat n + length xs < 2 ^ 64" using assms(8) by simp
  have nz: "forest_nonzero n ?D" using insert_leaves_nonzero[OF c] assms(9,10) by simp
  obtain hs as where add: "Stump_add (stump_of n ?D) xs = Inr (stump_of n' (insert_leaves n ?D xs), hs, as,
      map (\<lambda>h. rootPosition n (of_nat h) (treeRows n')) (destroyed n (length xs) (\<lambda>h. rhash (?D h))))"
    using Stump_add_eq[OF assms(8), of ?D] assms(9,10) by auto
  note del = Stump_del_eq[OF assms(1-5) nz assms(6,7) refl]
  show ?thesis using add del by (auto simp: Stump_Update_def)
qed

text \<open>A pollard proves the deletions of a block, and with that proof the stump and the pollard make
  the same step.\<close>

lemma block_served:
  assumes "pollard_of p Fo" "n = polNumLeaves p" "block_ok n Fo ts adds" "dels = deletions n Fo ts" "pr = proof_at n Fo ts"
    "Fo' = after_block n Fo ts adds" "n' = n + of_nat (length adds)"
  shows "Pollard_Prove p dels = Inr pr \<and> (\<forall>rem. Pollard_Verify p dels pr rem = Inr ())"
    "\<exists>ud. Stump_Update (stump_of n Fo) dels (map leaf_Hash adds) pr = Inr (stump_of n' Fo', ud)"
    "\<exists>p'. Pollard_Modify p adds dels pr = Inr p' \<and> pollard_of p' Fo' \<and> polNumLeaves p' = n' \<and> NumDels p' = NumDels p + of_nat (length dels)"
    "mset (forest_leaves n' Fo') + mset dels = mset (forest_leaves n Fo) + mset (map leaf_Hash adds)"
proof -
  let ?F = "treeRows n" and ?D = "delete n (treeRows n) (set ts) Fo"
  obtain T where T: "linked p T Fo" "indexed p T" and c: "forest_ok n Fo" "forest_nonzero n Fo"
    using assms(1,2) by (auto simp: pollard_of_def)
  have B: "unat n + length adds \<le> 2 ^ 63" "forest_nonzero n' Fo'" "minis_distinct (forest_hashes n Fo)" "apart_steps n ?F (deTwin (sort ts) ?F) Fo"
    "minis_distinct (forest_leaves n ?D @ map leaf_Hash adds)"
    using block_small[OF assms(3)] assms(3,6,7) unfolding block_ok_def Let_def by blast+
  have lt: "unat n + length adds < 2 ^ 64" using B(1) by simp
  have l: "leaf_targets n Fo ts dels" using block_leaves(1)[OF assms(3)] assms(4) by simp
  note t = leaf_targetsD[OF l] and r = block_removed[OF assms(3) c(1) refl, folded assms(4)]
  have H: "pollard_of p Fo \<and> forest_distinct (polNumLeaves p) Fo" using assms(1,2) keys_roots[OF B(3)] by simp
  obtain us where us: "leaf_targets n Fo us dels" "Pollard_Prove p dels = Inr (proof_at n Fo us)"
    using pollard.prove_law[OF H, of dels] r(3,4) assms(2) unfolding Pollard_GetNumLeaves_def by blast
  have "us = ts" using leaf_targets_unique[OF B(3) us(1) l] .
  then show "Pollard_Prove p dels = Inr pr \<and> (\<forall>rem. Pollard_Verify p dels pr rem = Inr ())"
    using us(2) pollard.accept_law[OF H, of ts dels] l assms(2,5) by (simp add: Pollard_GetNumLeaves_def)
  show "\<exists>ud. Stump_Update (stump_of n Fo) dels (map leaf_Hash adds) pr = Inr (stump_of n' Fo', ud)"
    using Stump_Update_eq[OF t(1,2) refl c keys_roots[OF B(3)] t(4), of "map leaf_Hash adds"] B(1,2) t(3) assms(5,6,7)
    by (auto simp: proof_at_def after_block_def)
  have pr: "Targets pr = ts" using assms(5) by (simp add: proof_at_def)
  note i = insert_leaves_spec[of n "map leaf_Hash adds" ?D] and len = arg_cong[OF t(3), of length]
  have o: "forest_leaves n' Fo' = forest_leaves n ?D @ map leaf_Hash adds" "forest_ok n' Fo'"
    using i lt delete_ok[OF c(1)] assms(6,7) by (auto simp: after_block_def)
  then show "mset (forest_leaves n' Fo') + mset dels = mset (forest_leaves n Fo) + mset (map leaf_Hash adds)" using r(1) by simp
  have "unat n' \<le> 2 ^ 63" using B(1) assms(7) by (simp add: unat_word_ariths unat_of_nat)
  moreover obtain p' T' where "Pollard_Modify p adds dels pr = Inr p'" "linked p' T' Fo'" "polNumLeaves p' = n'"
    "NumDels p' = NumDels p + of_nat (length dels)" "indexed p' T'"
    using Pollard_Modify_linked[OF T(1) assms(2)[symmetric] refl, of pr adds ?D Fo' dels] t(1,2,4) c(1) forest_nonzero_leaves[OF c(2)] lt B r(2) T(2)
      assms(6,7) len unfolding pr after_block_def by (metis length_map)
  ultimately show "\<exists>p'. Pollard_Modify p adds dels pr = Inr p' \<and> pollard_of p' Fo' \<and> polNumLeaves p' = n' \<and> NumDels p' = NumDels p + of_nat (length dels)"
    using o(2) B(2) by (auto simp: pollard_of_def)
qed

section \<open>A pollard that serves a stump\<close>

text \<open>A node with a pollard serves one that has a stump only: for each block, the hashes to
  delete and the leaves to add, it sends the proof of the deletions.\<close>

fun serve :: "(Hash list \<times> Leaf list) list \<Rightarrow> Pollard \<Rightarrow> Stump \<Rightarrow> (Pollard \<times> Stump) result" where
  "serve [] p s = Inr (p, s)"
| "serve ((dels, adds) # bs) p s =
     bindR (Pollard_Prove p dels) (\<lambda>pr.
     bindR (Pollard_Verify p dels pr False) (\<lambda>_.
     bindR (Stump_Update s dels (map leaf_Hash adds) pr) (\<lambda>(s', _).
     bindR (Pollard_Modify p adds dels pr) (\<lambda>p'. serve bs p' s'))))"

text \<open>The blocks in terms of the forest: what they ask for, when they are valid, and what they leave.\<close>

fun requests :: "u64 \<Rightarrow> forest \<Rightarrow> (u64 list \<times> Leaf list) list \<Rightarrow> (Hash list \<times> Leaf list) list" where
  "requests n Fo [] = []"
| "requests n Fo ((ts, adds) # bs) =
     (deletions n Fo ts, adds) # requests (n + of_nat (length adds)) (after_block n Fo ts adds) bs"

fun history_ok :: "u64 \<Rightarrow> forest \<Rightarrow> (u64 list \<times> Leaf list) list \<Rightarrow> bool" where
  "history_ok n Fo [] \<longleftrightarrow> True"
| "history_ok n Fo ((ts, adds) # bs) \<longleftrightarrow>
     block_ok n Fo ts adds \<and> history_ok (n + of_nat (length adds)) (after_block n Fo ts adds) bs"

fun after_blocks :: "u64 \<Rightarrow> forest \<Rightarrow> (u64 list \<times> Leaf list) list \<Rightarrow> u64 \<times> forest" where
  "after_blocks n Fo [] = (n, Fo)"
| "after_blocks n Fo ((ts, adds) # bs) = after_blocks (n + of_nat (length adds)) (after_block n Fo ts adds) bs"

lemma mset_steps:
  fixes A B C :: "'a multiset"
  assumes "A + d2 = B + a2" "B + d1 = C + a1" shows "A + (d1 + d2) = C + (a1 + a2)"
proof -
  have "A + (d1 + d2) = (A + d2) + d1" by (simp add: ac_simps)
  also have "\<dots> = (B + d1) + a2" unfolding assms(1) by (simp add: ac_simps)
  also have "\<dots> = C + (a1 + a2)" unfolding assms(2) by (simp add: ac_simps)
  finally show ?thesis .
qed

lemma serve_follows:
  assumes "pollard_of p Fo" "n = polNumLeaves p" "history_ok n Fo bs" "rs = requests n Fo bs" "after_blocks n Fo bs = (n', Fo')"
  shows "\<exists>p'. serve rs p (stump_of n Fo) = Inr (p', stump_of n' Fo') \<and> pollard_of p' Fo' \<and> polNumLeaves p' = n' \<and>
    NumDels p' = NumDels p + of_nat (length (concat (map fst rs))) \<and>
    mset (forest_leaves n' Fo') + mset (concat (map fst rs)) = mset (forest_leaves n Fo) + mset (map leaf_Hash (concat (map snd rs)))"
  using assms
proof (induction bs arbitrary: p n Fo rs)
  case Nil
  then show ?case by simp
next
  case (Cons b bs)
  obtain ts adds where b: "b = (ts, adds)" by force
  let ?n = "n + of_nat (length adds)" and ?Fo = "after_block n Fo ts adds" and ?dels = "deletions n Fo ts" and ?pr = "proof_at n Fo ts"
  have ok: "block_ok n Fo ts adds" "history_ok ?n ?Fo bs" using Cons.prems(3) b by auto
  note S = block_served[OF Cons.prems(1,2) ok(1) refl refl refl refl]
  obtain ud where u: "Stump_Update (stump_of n Fo) ?dels (map leaf_Hash adds) ?pr = Inr (stump_of ?n ?Fo, ud)" using S(2) by blast
  obtain p1 where p1: "Pollard_Modify p adds ?dels ?pr = Inr p1" "pollard_of p1 ?Fo" "?n = polNumLeaves p1"
    "NumDels p1 = NumDels p + of_nat (length ?dels)" using S(3) by metis
  have "after_blocks ?n ?Fo bs = (n', Fo')" using Cons.prems(5) b by simp
  from Cons.IH[OF p1(2,3) ok(2) refl this] obtain p' where p': "serve (requests ?n ?Fo bs) p1 (stump_of ?n ?Fo) = Inr (p', stump_of n' Fo')"
    "pollard_of p' Fo'" "polNumLeaves p' = n'" "NumDels p' = NumDels p1 + of_nat (length (concat (map fst (requests ?n ?Fo bs))))"
    "mset (forest_leaves n' Fo') + mset (concat (map fst (requests ?n ?Fo bs))) =
      mset (forest_leaves ?n ?Fo) + mset (map leaf_Hash (concat (map snd (requests ?n ?Fo bs))))" by blast
  have rs: "rs = (?dels, adds) # requests ?n ?Fo bs" using Cons.prems(4) b by simp
  have "serve rs p (stump_of n Fo) = Inr (p', stump_of n' Fo')" unfolding rs using S(1) u p1(1) p'(1) by simp
  moreover have "NumDels p' = NumDels p + of_nat (length (concat (map fst rs)))" unfolding rs using p'(4) p1(4) by simp
  moreover have "mset (forest_leaves n' Fo') + mset (concat (map fst rs)) = mset (forest_leaves n Fo) + mset (map leaf_Hash (concat (map snd rs)))"
    unfolding rs using mset_steps[OF p'(5) S(4)] by simp
  ultimately show ?case using p'(2,3) by blast
qed

lemma NewAccumulator_pollard: "pollard_of (NewAccumulator True) (\<lambda>_. None)"
proof -
  have "linked (NewAccumulator True) T (\<lambda>_. None) \<and> indexed (NewAccumulator True) T" for T
    by (simp add: NewAccumulator_def linked_def indexed_def planted_def rows_def)
  then show ?thesis by (simp add: pollard_of_def forest_ok_def forest_nonzero_def NewAccumulator_def rows_def)
qed

end
