(* ===== verification/PollardRestore.thy ===== *)
theory PollardRestore
  imports PollardDelete
begin

text \<open>
  What \<open>WriteTo\<close> writes of a pollard (\<open>bytesOf\<close>, the nodes with their nieces), and that \<open>RestorePollardFrom\<close> makes from it
  nodes with the same trees (\<open>filled\<close>, \<open>Restore_linked\<close>) and a map that leads to the leaves.
\<close>

unbundle bit_operations_syntax

section \<open>Writing\<close>

text \<open>The bytes that are written for a node and its nieces, which are the children of its sibling.\<close>

fun bytesOf :: "rtree \<Rightarrow> rtree \<Rightarrow> byte list" where
  "bytesOf u (RTip a x) = hashBytes (thash (erase u)) @ [of_bool (kids u = {}), 0]"
| "bytesOf u (RNode a l r) = hashBytes (thash (erase u)) @ [of_bool (kids u = {}), 1] @ bytesOf l r @ bytesOf r l"

text \<open>Two nodes that point to the children of each other.\<close>

definition twins :: "heap \<Rightarrow> rtree \<Rightarrow> rtree \<Rightarrow> bool" where
  "twins h u v \<longleftrightarrow> ptrs h (rref v) u \<and> ptrs h (rref u) v \<and> sums h u \<and> sums h v \<and>
     getChildren h (rref u) = Inr (lNiece (h (rref v)), rNiece (h (rref v))) \<and>
     getChildren h (rref v) = Inr (lNiece (h (rref u)), rNiece (h (rref u)))"

lemma twins_below:
  assumes "twins h u (RNode a l r)" "rref l \<noteq> rref r" shows "twins h l r" "twins h r l"
proof -
  have p: "ptrs h (rref u) (RNode a l r)" "sums h (RNode a l r)" using assms(1) by (simp_all add: twins_def)
  then have "getSibling h (rref l) = Inr (Some (rref r))" "getSibling h (rref r) = Inr (Some (rref l))"
    using getSibling_fork[of h "rref u" a False l r] assms(2) by (simp_all add: fork_def)
  then show "twins h l r" "twins h r l" using p by (simp_all add: twins_def getChildren_def)
qed

lemma writeOne_twins:
  assumes "twins h u v" "distinct (refs v)" shows "writeOne h (Some (rref u)) = Some (Inr (bytesOf u v))"
  using assms
proof (induction u v rule: bytesOf.induct)
  case (1 u a x)
  have "(lNiece (h a) = None \<and> rNiece (h a) = None) \<longleftrightarrow> kids u = {}" using 1(1) by (cases u) (auto simp: twins_def)
  then show ?case using 1(1) sums_data[of h u] by (subst writeOne.simps) (auto simp: twins_def)
next
  case (2 u a l r)
  have d: "distinct (refs l)" "distinct (refs r)" "rref l \<noteq> rref r" using 2(4) rref_disjoint(3)[of l r] by auto
  have k: "(lNiece (h a) = None \<and> rNiece (h a) = None) \<longleftrightarrow> kids u = {}" using 2(3) by (cases u) (auto simp: twins_def)
  have "writeOne h (Some (rref l)) = Some (Inr (bytesOf l r))" "writeOne h (Some (rref r)) = Some (Inr (bytesOf r l))"
    using 2(1)[OF twins_below(1)[OF 2(3) d(3)] d(2)] 2(2)[OF twins_below(2)[OF 2(3) d(3)] d(1)] by auto
  then show ?case using 2(3) k sums_data[of h u] by (subst writeOne.simps) (auto simp: twins_def)
qed

lemma writeOne_rooted: "rooted h t \<Longrightarrow> writeOne h (Some (rref t)) = Some (Inr (bytesOf t t))"
  by (rule writeOne_twins) (auto simp: twins_def rooted_ptrs getChildren_def)

definition forestBytes :: "u64 \<Rightarrow> (nat \<Rightarrow> rtree) \<Rightarrow> byte list" where
  "forestBytes n T = concat (map (\<lambda>r. bytesOf (T r) (T r)) (rows n))"

lemma WriteTo_linked:
  assumes "linked p T Fo" "n = polNumLeaves p" "bs = putUint64 n @ putUint64 (NumDels p) @ forestBytes n T"
  shows "WriteTo p = Inr (bs, length bs)"
proof -
  have "writeRoots (Heap p) (map (\<lambda>r. rref (T r)) rs) = Inr (concat (map (\<lambda>r. bytesOf (T r) (T r)) rs))" if "set rs \<subseteq> set (rows n)" for rs
    using that
  proof (induction rs)
    case (Cons r rs)
    then have "rooted (Heap p) (T r)" using linkedD(1)[OF assms(1)] assms(2) by (auto simp: rows_iff)
    then show ?case using Cons writeOne_rooted by (simp add: returns_def)
  qed simp
  from this[of "rows n"] show ?thesis using assms by (simp add: WriteTo_def linked_def forestBytes_def Let_def)
qed

lemma length_bytesOf: "length (bytesOf u v) = 34 * (1 + length (below_refs v))"
  by (induction u v rule: bytesOf.induct) (auto simp: refs_below)

lemma getCount_twins:
  assumes "twins h u v" "distinct (refs v)" shows "getCount h (Some (rref u)) = Some (1 + int (length (below_refs v)))"
  using assms
proof (induction u v rule: bytesOf.induct)
  case (1 u a x)
  then have "lNiece (h (rref u)) = None" "rNiece (h (rref u)) = None" by (auto simp: twins_def)
  moreover have "getCount h None = Some 0" by (subst getCount.simps) simp
  ultimately show ?case by (subst getCount.simps) simp
next
  case (2 u a l r)
  have d: "distinct (refs l)" "distinct (refs r)" "rref l \<noteq> rref r" using 2(4) rref_disjoint(3)[of l r] by auto
  have "getCount h (Some (rref l)) = Some (1 + int (length (below_refs r)))" "getCount h (Some (rref r)) = Some (1 + int (length (below_refs l)))"
    using 2(1)[OF twins_below(1)[OF 2(3) d(3)] d(2)] 2(2)[OF twins_below(2)[OF 2(3) d(3)] d(1)] by auto
  then show ?case using 2(3) by (subst getCount.simps) (auto simp: twins_def refs_below)
qed

lemma SerializeSize_linked:
  assumes "linked p T Fo" "WriteTo p = Inr (bs, k)" shows "SerializeSize p = Some (int k)"
proof -
  let ?n = "polNumLeaves p"
  have "sumCounts (Heap p) (map (\<lambda>r. rref (T r)) rs) c = Some (c + int (length (concat (map (\<lambda>r. refs (T r)) rs))))"
    if "set rs \<subseteq> set (rows ?n)" for rs c
    using that
  proof (induction rs arbitrary: c)
    case (Cons r rs)
    then have "rooted (Heap p) (T r)" using linkedD(1)[OF assms(1) refl] by (auto simp: rows_iff)
    then have "getCount (Heap p) (Some (rref (T r))) = Some (int (length (refs (T r))))"
      using getCount_twins[of "Heap p" "T r" "T r"] by (simp add: twins_def rooted_ptrs getChildren_def rooted_def refs_below)
    then show ?case using Cons by simp
  qed simp
  from this[of "rows ?n" 0] have "GetTotalCount p = Some (int (length (concat (map (\<lambda>r. refs (T r)) (rows ?n)))))"
    using assms(1) by (simp add: GetTotalCount_def linked_def)
  moreover have "length (concat (map (\<lambda>r. bytesOf (T r) (T r)) rs)) = 34 * length (concat (map (\<lambda>r. refs (T r)) rs))" for rs
    by (induction rs) (auto simp: length_bytesOf refs_below)
  then have "length (forestBytes ?n T) = 34 * length (concat (map (\<lambda>r. refs (T r)) (rows ?n)))" by (simp add: forestBytes_def)
  ultimately show ?thesis using WriteTo_linked[OF assms(1) refl refl] assms(2) by (simp add: SerializeSize_def)
qed

section \<open>Reading\<close>

text \<open>The trees below a node, without the node itself.\<close>

definition belowSums :: "heap \<Rightarrow> rtree \<Rightarrow> bool" where
  "belowSums h t = (case t of RTip a x \<Rightarrow> True | RNode a l r \<Rightarrow> sums h l \<and> sums h r)"

definition belowTips :: "rtree \<Rightarrow> (ref \<times> Hash) list" where
  "belowTips t = (case t of RTip a x \<Rightarrow> [] | RNode a l r \<Rightarrow> tips l @ tips r)"

definition ownTip :: "ref \<Rightarrow> rtree \<Rightarrow> (ref \<times> Hash) list" where
  "ownTip a t = (case t of RTip b x \<Rightarrow> [(a, x)] | RNode b l r \<Rightarrow> [])"

definition entry_set :: "(ref \<times> Hash) list \<Rightarrow> (miniHash \<times> ref) set" where
  "entry_set ts = {(mini x, a) |a x. (a, x) \<in> set ts \<and> x \<noteq> empty}"

lemma entry_set_append [simp]: "entry_set (xs @ ys) = entry_set xs \<union> entry_set ys"
  by (auto simp: entry_set_def)

lemma tips_rename: "entry_set (tips (rename a t)) = entry_set (ownTip a t) \<union> entry_set (belowTips t)"
  by (cases t) (auto simp: ownTip_def belowTips_def entry_set_def)

lemma ptrs_rename [simp]: "ptrs h b (rename a t) = ptrs h b t"
  by (cases t) auto

lemma ownTip_erase: "erase t = erase u \<Longrightarrow> ownTip a t = ownTip a u"
  by (cases t; cases u) (auto simp: ownTip_def)

lemma sums_rename:
  assumes "data (h a) = thash (erase t)" "belowSums h t" shows "sums h (rename a t)"
proof (cases t)
  case (RNode b l r)
  have "data (h (rref l)) = thash (erase l)" "data (h (rref r)) = thash (erase r)"
    using assms(2) sums_data[of h l] sums_data[of h r] RNode by (auto simp: belowSums_def)
  then show ?thesis using assms RNode by (simp add: belowSums_def)
qed (use assms(1) in simp)

lemma readNode_bytes:
  assumes "rInput s = hashBytes x @ [of_bool f, of_bool g] @ rest"
  shows "readNode n s = Inr (s\<lparr>rHeap := setData n x (rHeap s), rInput := rest,
    rEntries := (if f \<and> x \<noteq> empty then rEntries s @ [(mini x, n)] else rEntries s)\<rparr>, Some g)"
proof -
  have "readInto 32 (hashBytes y) (hashBytes x @ zs) = Inr (hashBytes x, zs)" for y zs by simp
  moreover have "readInto 1 [y] (z # zs) = Inr ([z], zs)" for y z :: byte and zs by (simp add: readInto_def)
  ultimately show ?thesis using assms by (simp add: readNode_def Let_def setData_def)
qed

text \<open>What reading the bytes of a node does: it fills the node and makes the trees of its nieces.\<close>

definition filled :: "ref \<Rightarrow> restore \<Rightarrow> restore \<Rightarrow> rtree \<Rightarrow> rtree \<Rightarrow> rtree \<Rightarrow> bool" where
  "filled n s s' u v v' \<longleftrightarrow> erase v' = erase v \<and> ptrs (rHeap s') n v' \<and> belowSums (rHeap s') v' \<and>
     data (rHeap s' n) = thash (erase u) \<and> aunt (rHeap s' n) = aunt (rHeap s n) \<and>
     rFresh s \<le> rFresh s' \<and> set (below_refs v') \<subseteq> {rFresh s..<rFresh s'} \<and> distinct (below_refs v') \<and>
     (\<forall>x. x \<noteq> n \<and> x < rFresh s \<longrightarrow> rHeap s' x = rHeap s x) \<and>
     set (rEntries s') = set (rEntries s) \<union> entry_set (ownTip n u) \<union> entry_set (belowTips v')"

lemma filled_tip:
  assumes "lNiece (rHeap s n) = None" "rNiece (rHeap s n) = None"
    "s' = s\<lparr>rHeap := setData n (thash (erase u)) (rHeap s), rInput := rest,
      rEntries := (if kids u = {} \<and> thash (erase u) \<noteq> empty then rEntries s @ [(mini (thash (erase u)), n)] else rEntries s)\<rparr>"
  shows "filled n s s' u (RTip a x) (RTip a x)"
  using assms by (cases u) (auto simp: filled_def belowSums_def belowTips_def ownTip_def entry_set_def setData_def)

lemma belowSums_cong:
  assumes "belowSums h t" "\<And>x. x \<in> set (below_refs t) \<Longrightarrow> data (h' x) = data (h x)" shows "belowSums h' t"
proof (cases t)
  case (RNode a l r)
  then have b: "sums h l" "sums h r" using assms(1) by (simp_all add: belowSums_def)
  have "sums h' l" by (rule sums_cong[OF b(1)]) (use assms(2) RNode in simp)
  moreover have "sums h' r" by (rule sums_cong[OF b(2)]) (use assms(2) RNode in simp)
  ultimately show ?thesis using RNode by (simp add: belowSums_def)
qed (simp add: belowSums_def)

lemma filledD:
  assumes "filled n s s' u v v'"
  shows "erase v' = erase v" "ptrs (rHeap s') n v'" "belowSums (rHeap s') v'" "data (rHeap s' n) = thash (erase u)"
    "aunt (rHeap s' n) = aunt (rHeap s n)" "rFresh s \<le> rFresh s'" "set (below_refs v') \<subseteq> {rFresh s..<rFresh s'}" "distinct (below_refs v')"
    "\<And>x. x \<noteq> n \<Longrightarrow> x < rFresh s \<Longrightarrow> rHeap s' x = rHeap s x"
    "set (rEntries s') = set (rEntries s) \<union> entry_set (ownTip n u) \<union> entry_set (belowTips v')"
  using assms unfolding filled_def by blast+

lemma filled_node:
  assumes "n < rFresh s" "rFresh s1 = rFresh s" "rHeap s1 = setData n (thash (erase u)) (rHeap s)"
    "set (rEntries s1) = set (rEntries s) \<union> entry_set (ownTip n u)"
    "L = rFresh s1" "rHeap s3 = setL n (Some L) ((rHeap s1)(L := zeroNode\<lparr>aunt := Some n\<rparr>))" "rFresh s3 = L + 1" "rEntries s3 = rEntries s1"
    "filled L s3 s4 l r r1" "R = rFresh s4"
    "rHeap s6 = setR n (Some R) ((rHeap s4)(R := zeroNode\<lparr>aunt := Some n\<rparr>))" "rFresh s6 = R + 1" "rEntries s6 = rEntries s4"
    "filled R s6 s' r l l1"
  shows "filled n s s' u (RNode a l r) (RNode a (rename L l1) (rename R r1))"
proof -
  let ?h = "rHeap s'"
  note f1 = filledD[OF assms(9)] and f2 = filledD[OF assms(14)]
  have lt: "n < L" "L < R" "R < rFresh s'" using assms(1,2,5,7,10,12) f1(6) f2(6) by auto
  have h4: "rHeap s4 x = rHeap s3 x" if "x < L" for x using f1(9)[of x] that assms(7) by simp
  have h6: "?h x = rHeap s6 x" if "x < R" for x using f2(9)[of x] that assms(12) by simp
  have hn: "?h n = (rHeap s n)\<lparr>data := thash (erase u), lNiece := Some L, rNiece := Some R\<rparr>"
    using h6[of n] h4[of n] lt by (simp add: assms(3,6,11) setL_def setR_def setData_def)
  have mid: "?h x = rHeap s4 x" if "x < R" "x \<noteq> n" for x using h6[of x] that by (simp add: assms(11) setR_def)
  have b1: "set (below_refs r1) \<subseteq> {L + 1..<R}" using f1(7) assms(7,10) by simp
  have b2: "set (below_refs l1) \<subseteq> {R + 1..<rFresh s'}" using f2(7) assms(12) by simp
  have mL: "?h L = rHeap s4 L" using mid lt by simp
  have aL: "aunt (?h L) = Some n" using mL f1(5) lt by (simp add: assms(6) setL_def)
  have aR: "aunt (?h R) = Some n" using f2(5) lt by (simp add: assms(11) setR_def)
  have same: "?h x = rHeap s4 x" if "x \<in> set (below_refs r1)" for x
  proof (rule mid)
    show "x < R" "x \<noteq> n" using b1 that lt by auto
  qed
  have pr: "ptrs ?h L r1" by (rule ptrs_cong[OF f1(2)]) (use same mL in simp_all)
  have "belowSums ?h r1" by (rule belowSums_cong[OF f1(3)]) (use same in simp)
  then have "sums ?h (rename R r1)" using f2(4) f1(1) by (intro sums_rename) simp_all
  moreover have "sums ?h (rename L l1)" using f1(4) f2(1,3) mL by (intro sums_rename) simp_all
  ultimately have bs: "belowSums ?h (RNode a (rename L l1) (rename R r1))" by (simp add: belowSums_def)
  have pt: "ptrs ?h n (RNode a (rename L l1) (rename R r1))" using pr f2(2) aL aR hn by simp
  have rr: "refs (rename L l1) = L # below_refs l1" "refs (rename R r1) = R # below_refs r1" using refs_below[of "rename L l1"] refs_below[of "rename R r1"] by simp_all
  have "L \<notin> set (below_refs l1)" "L \<notin> set (below_refs r1)" "R \<notin> set (below_refs r1)" "R \<notin> set (below_refs l1)"
    "set (below_refs l1) \<inter> set (below_refs r1) = {}" using subsetD[OF b1] subsetD[OF b2] lt(2) by fastforce+
  then have rf: "distinct (L # below_refs l1 @ R # below_refs r1)" using lt(2) f1(8) f2(8) by simp
  have en: "set (rEntries s') = set (rEntries s) \<union> entry_set (ownTip n u) \<union> entry_set (belowTips (RNode a (rename L l1) (rename R r1)))"
  proof -
    have "belowTips (RNode a (rename L l1) (rename R r1)) = tips (rename L l1) @ tips (rename R r1)" by (simp add: belowTips_def)
    then show ?thesis
      using f1(10) f2(10) assms(4,8,13) ownTip_erase[OF f2(1), of L] ownTip_erase[OF f1(1), of R] by (simp add: tips_rename) blast
  qed
  have "?h x = rHeap s x" if "x \<noteq> n" "x < rFresh s" for x
    using mid[of x] h4[of x] that lt assms(2,5) by (simp add: assms(3,6) setL_def setData_def)
  moreover have "set (L # below_refs l1 @ R # below_refs r1) \<subseteq> {rFresh s..<rFresh s'}"
    using b1 b2 lt assms(2,5) by auto
  moreover have "erase (RNode a (rename L l1) (rename R r1)) = erase (RNode a l r)" using f1(1) f2(1) by simp
  moreover have "rFresh s \<le> rFresh s'" using lt assms(2,5) by simp
  moreover have "data (?h n) = thash (erase u)" "aunt (?h n) = aunt (rHeap s n)" using hn by simp_all
  moreover have "below_refs (RNode a (rename L l1) (rename R r1)) = L # below_refs l1 @ R # below_refs r1" using rr by simp
  ultimately show ?thesis unfolding filled_def using pt bs rf en by metis
qed

lemma readOne_bytes:
  assumes "rInput s = bytesOf u v @ rest" "n < rFresh s" "lNiece (rHeap s n) = None" "rNiece (rHeap s n) = None"
  shows "\<exists>s' v'. readOne n s = Some (Inr s') \<and> rInput s' = rest \<and> filled n s s' u v v'"
  using assms
proof (induction u v arbitrary: n s rest rule: bytesOf.induct)
  case (1 u a x)
  let ?s = "s\<lparr>rHeap := setData n (thash (erase u)) (rHeap s), rInput := rest,
      rEntries := (if kids u = {} \<and> thash (erase u) \<noteq> empty then rEntries s @ [(mini (thash (erase u)), n)] else rEntries s)\<rparr>"
  have "readNode n s = Inr (?s, Some False)" using readNode_bytes[of s _ "kids u = {}" False rest n] 1(1) by simp
  then have "readOne n s = Some (Inr ?s)" by (subst readOne.simps) simp
  moreover have "filled n s ?s u (RTip a x) (RTip a x)" by (rule filled_tip[OF 1(3,4) refl])
  ultimately show ?case by (intro exI[of _ ?s] exI[of _ "RTip a x"]) simp
next
  case (2 u a l r)
  define s1 where "s1 = s\<lparr>rHeap := setData n (thash (erase u)) (rHeap s), rInput := bytesOf l r @ bytesOf r l @ rest,
      rEntries := (if kids u = {} \<and> thash (erase u) \<noteq> empty then rEntries s @ [(mini (thash (erase u)), n)] else rEntries s)\<rparr>"
  have n1: "readNode n s = Inr (s1, Some True)" unfolding s1_def using readNode_bytes[of s _ "kids u = {}" True _ n] 2(3) by simp
  define L where "L = rFresh s1"
  define s2 where "s2 = snd (newNiece n s1)"
  define s3 where "s3 = s2\<lparr>rHeap := setL n (Some L) (rHeap s2)\<rparr>"
  have s3: "rHeap s3 = setL n (Some L) ((rHeap s1)(L := zeroNode\<lparr>aunt := Some n\<rparr>))" "rFresh s3 = L + 1" "rEntries s3 = rEntries s1"
    "rInput s3 = bytesOf l r @ bytesOf r l @ rest" "newNiece n s1 = (L, s2)"
    by (simp_all add: s3_def s2_def newNiece_def L_def s1_def)
  have nL: "n < L" using 2(4) by (simp add: L_def s1_def)
  have L: "L < rFresh s3" "lNiece (rHeap s3 L) = None" "rNiece (rHeap s3 L) = None" using s3 nL by (simp_all add: setL_def zeroNode_def)
  obtain s4 r1 where s4: "readOne L s3 = Some (Inr s4)" "rInput s4 = bytesOf r l @ rest" "filled L s3 s4 l r r1"
    using 2(1)[OF s3(4) L] by blast
  define R where "R = rFresh s4"
  define s5 where "s5 = snd (newNiece n s4)"
  define s6 where "s6 = s5\<lparr>rHeap := setR n (Some R) (rHeap s5)\<rparr>"
  have s6: "rHeap s6 = setR n (Some R) ((rHeap s4)(R := zeroNode\<lparr>aunt := Some n\<rparr>))" "rFresh s6 = R + 1" "rEntries s6 = rEntries s4"
    "rInput s6 = bytesOf r l @ rest" "newNiece n s4 = (R, s5)"
    using s4(2) by (simp_all add: s6_def s5_def newNiece_def R_def)
  have "L + 1 \<le> R" using s4(3) s3(2) by (simp add: filled_def R_def)
  then have R: "R < rFresh s6" "lNiece (rHeap s6 R) = None" "rNiece (rHeap s6 R) = None" using s6 nL by (simp_all add: setR_def zeroNode_def)
  obtain s' l1 where s': "readOne R s6 = Some (Inr s')" "rInput s' = rest" "filled R s6 s' r l l1"
    using 2(2)[OF s6(4) R] by blast
  have "readOne n s = Some (Inr s')"
    using n1 s3(5) s4(1) s6(5) s'(1) by (subst readOne.simps) (simp add: Let_def s3_def s6_def)
  moreover have e1: "set (rEntries s1) = set (rEntries s) \<union> entry_set (ownTip n u)"
    by (cases u) (auto simp: s1_def ownTip_def entry_set_def)
  have "filled n s s' u (RNode a l r) (RNode a (rename L l1) (rename R r1))"
    by (rule filled_node[OF 2(4) _ _ e1 L_def s3(1-3) s4(3) R_def s6(1-3) s'(3)]) (simp_all add: s1_def)
  ultimately show ?case using s'(2) by blast
qed

lemma read_root:
  assumes "rInput s = bytesOf t t @ rest" "n = rFresh s" "s1 = s\<lparr>rHeap := (rHeap s)(n := zeroNode), rFresh := rFresh s + 1\<rparr>"
  shows "\<exists>s' t'. readOne n s1 = Some (Inr s') \<and> rInput s' = rest \<and> erase t' = erase t \<and> rref t' = n \<and> rooted (rHeap s') t' \<and>
    rFresh s < rFresh s' \<and> set (refs t') \<subseteq> {rFresh s..<rFresh s'} \<and> (\<forall>x < rFresh s. rHeap s' x = rHeap s x) \<and>
    set (rEntries s') = set (rEntries s) \<union> entry_set (tips t')"
proof -
  have "rInput s1 = bytesOf t t @ rest" "n < rFresh s1" "lNiece (rHeap s1 n) = None" "rNiece (rHeap s1 n) = None" "aunt (rHeap s1 n) = None"
    using assms by (simp_all add: zeroNode_def)
  then obtain s' v' where s': "readOne n s1 = Some (Inr s')" "rInput s' = rest" "filled n s1 s' t t v'" "aunt (rHeap s1 n) = None"
    using readOne_bytes by blast
  note f = filledD[OF s'(3)]
  let ?t = "rename n v'"
  have lt: "n + 1 \<le> rFresh s'" using f(6) assms(2,3) by simp
  have below: "set (below_refs v') \<subseteq> {n + 1..<rFresh s'}" using f(7) assms(2,3) by simp
  have rr: "refs ?t = n # below_refs v'" using refs_below[of ?t] by simp
  have "n \<notin> set (below_refs v')" using below by auto
  moreover have "sums (rHeap s') ?t" using f(1,3,4) by (intro sums_rename) simp_all
  ultimately have "rooted (rHeap s') ?t" using f(2,5,8) s'(4) rr by (simp add: rooted_ptrs)
  moreover have "set (refs ?t) \<subseteq> {rFresh s..<rFresh s'}" unfolding rr using below lt assms(2) by auto
  moreover have "rHeap s' x = rHeap s x" if "x < rFresh s" for x using f(9)[of x] that assms(2,3) by simp
  moreover have "set (rEntries s') = set (rEntries s) \<union> entry_set (tips ?t)"
    using f(10) ownTip_erase[OF f(1), of n] assms(3) by (simp add: tips_rename ac_simps)
  ultimately show ?thesis using s'(1,2) f(1) lt assms(2) by (intro exI[of _ s'] exI[of _ ?t]) simp
qed

lemma readRoots_bytes:
  assumes "rInput s = concat (map (\<lambda>r. bytesOf (T r) (T r)) hs) @ rest" "distinct hs"
  shows "\<exists>s' T'. readRoots (length hs) rts s = Inr (rts @ map (\<lambda>r. rref (T' r)) hs, s') \<and> rInput s' = rest \<and> rFresh s \<le> rFresh s' \<and>
    planted (rHeap s') (rFresh s') (set hs) T' \<and> (\<forall>r \<in> set hs. erase (T' r) = erase (T r) \<and> set (refs (T' r)) \<subseteq> {rFresh s..}) \<and>
    (\<forall>x < rFresh s. rHeap s' x = rHeap s x) \<and> set (rEntries s') = set (rEntries s) \<union> (\<Union>r \<in> set hs. entry_set (tips (T' r)))"
  using assms
proof (induction hs arbitrary: s rts)
  case Nil
  then show ?case by (intro exI[of _ s]) (simp add: planted_def)
next
  case (Cons r hs)
  define s1 where "s1 = s\<lparr>rHeap := (rHeap s)(rFresh s := zeroNode), rFresh := rFresh s + 1\<rparr>"
  have "rInput s = bytesOf (T r) (T r) @ concat (map (\<lambda>r. bytesOf (T r) (T r)) hs) @ rest" using Cons.prems(1) by simp
  from read_root[OF this refl s1_def] obtain s2 t where s2: "readOne (rFresh s) s1 = Some (Inr s2)"
    "rInput s2 = concat (map (\<lambda>r. bytesOf (T r) (T r)) hs) @ rest" "erase t = erase (T r)" "rref t = rFresh s" "rooted (rHeap s2) t"
    "rFresh s < rFresh s2" "set (refs t) \<subseteq> {rFresh s..<rFresh s2}" "\<forall>x < rFresh s. rHeap s2 x = rHeap s x"
    "set (rEntries s2) = set (rEntries s) \<union> entry_set (tips t)" by blast
  have dh: "distinct hs" using Cons.prems(2) by simp
  obtain s' T' where s': "readRoots (length hs) (rts @ [rFresh s]) s2 = Inr ((rts @ [rFresh s]) @ map (\<lambda>r. rref (T' r)) hs, s')"
    "rInput s' = rest" "rFresh s2 \<le> rFresh s'" "planted (rHeap s') (rFresh s') (set hs) T'"
    "\<forall>r \<in> set hs. erase (T' r) = erase (T r) \<and> set (refs (T' r)) \<subseteq> {rFresh s2..}" "\<forall>x < rFresh s2. rHeap s' x = rHeap s2 x"
    "set (rEntries s') = set (rEntries s2) \<union> (\<Union>r \<in> set hs. entry_set (tips (T' r)))"
    using Cons.IH[OF s2(2) dh, of "rts @ [rFresh s]"] by blast
  let ?T = "T'(r := t)"
  have nr: "r \<notin> set hs" using Cons.prems(2) by simp
  have rd: "rHeap s' a = rHeap s2 a" if "a \<in> set (refs t)" for a using subsetD[OF s2(7) that] s'(6) by simp
  have "planted (rHeap s') (rFresh s') (set (r # hs)) ?T"
  proof (rule plantedI)
    show "rooted (rHeap s') (?T i)" if "i \<in> set (r # hs)" for i
      using that plantedD(1)[OF s'(4)] rooted_frame[OF s2(5), of "rHeap s'"] rd by (cases "i = r") auto
    show "set (refs (?T i)) \<subseteq> {..<rFresh s'}" if "i \<in> set (r # hs)" for i
      using that plantedD(2)[OF s'(4)] s2(7) s'(3) by (cases "i = r") fastforce+
    have apart: "set (refs t) \<inter> set (refs (T' i)) = {}" if "i \<in> set hs" for i
      using s2(7) bspec[OF s'(5) that] by fastforce
    show "set (refs (?T i)) \<inter> set (refs (?T j)) = {}" if "i \<in> set (r # hs)" "j \<in> set (r # hs)" "i \<noteq> j" for i j
      using that plantedD(3)[OF s'(4), of i j] apart[of i] apart[of j] by (cases "i = r"; cases "j = r"; auto)
  qed
  moreover have "map (\<lambda>r. rref (?T r)) hs = map (\<lambda>r. rref (T' r)) hs" using nr by auto
  then have "readRoots (length (r # hs)) rts s = Inr (rts @ map (\<lambda>r. rref (?T r)) (r # hs), s')"
    using s2(1,4) s'(1) by (simp add: s1_def Let_def returns_def)
  moreover have "erase (?T i) = erase (T i) \<and> set (refs (?T i)) \<subseteq> {rFresh s..}" if "i \<in> set (r # hs)" for i
  proof (cases "i = r")
    case True
    then show ?thesis using s2(3,7) by auto
  next
    case False
    then have "erase (T' i) = erase (T i) \<and> set (refs (T' i)) \<subseteq> {rFresh s2..}" using s'(5) that by simp
    moreover have "{rFresh s2..} \<subseteq> {rFresh s..}" using s2(6) by simp
    ultimately show ?thesis using False by (metis fun_upd_other subset_trans)
  qed
  moreover have "\<forall>x < rFresh s. rHeap s' x = rHeap s x" using s2(6,8) s'(6) by simp
  moreover have "set (rEntries s') = set (rEntries s) \<union> (\<Union>i \<in> set (r # hs). entry_set (tips (?T i)))"
  proof -
    have "(\<Union>i \<in> set hs. entry_set (tips (?T i))) = (\<Union>i \<in> set hs. entry_set (tips (T' i)))" using nr by (intro SUP_cong) auto
    then show ?thesis using s'(7) s2(9) by (simp add: ac_simps)
  qed
  ultimately show ?case using s'(2) order.trans[OF less_imp_le[OF s2(6)] s'(3)] by blast
qed

section \<open>Restoring a pollard\<close>

lemma mapFrom_unique:
  assumes "(k, v) \<in> set kvs" "\<And>v'. (k, v') \<in> set kvs \<Longrightarrow> v' = v" shows "mapFrom kvs k = Some v"
proof -
  let ?f = "\<lambda>(k, v) m. m(k \<mapsto> v)"
  have F: "fold ?f xs m k = (if k \<in> fst ` set xs then Some v else m k)" if "\<And>v'. (k, v') \<in> set xs \<Longrightarrow> v' = v" for xs m
    using that
  proof (induction xs arbitrary: m)
    case (Cons c xs)
    have e: "fold ?f (c # xs) m = fold ?f xs (m(fst c \<mapsto> snd c))" by (simp add: case_prod_beta)
    have "fold ?f xs (m(fst c \<mapsto> snd c)) k = (if k \<in> fst ` set xs then Some v else (m(fst c \<mapsto> snd c)) k)"
      using Cons.prems by (intro Cons.IH) auto
    moreover have "snd c = v" if "fst c = k" using Cons.prems[of "snd c"] that by auto
    ultimately show ?case unfolding e by (cases "fst c = k") auto
  qed simp
  have "k \<in> fst ` set kvs" using image_eqI[OF _ assms(1), of k fst] by simp
  moreover have "fold ?f kvs Map.empty k = (if k \<in> fst ` set kvs then Some v else Map.empty k)" using assms(2) by (rule F)
  ultimately show ?thesis unfolding mapFrom_def by presburger
qed

lemma numRoots_rows: "unat (numRoots n) = length (rows n)"
proof -
  have "card {k. bit n k} = length (rows n)"
    using distinct_card[OF distinct_rows[of n]] by (simp add: rows_iff[symmetric] set_eq_iff Collect_mem_eq)
  then show ?thesis using length_rows[of n] by (simp add: numRoots_def OnesCount64_card unat_of_nat)
qed

text \<open>The leaves of a pollard with their addresses.\<close>

definition forestTips :: "u64 \<Rightarrow> (nat \<Rightarrow> rtree) \<Rightarrow> (ref \<times> Hash) list" where
  "forestTips n T = concat (map (\<lambda>r. filter (\<lambda>(a, x). x \<noteq> empty) (tips (T r))) (rows n))"

lemma forestTips_leaves:
  assumes "\<And>r. bit n r \<Longrightarrow> opt (T r) = Fo r" "empty \<notin> set (forest_leaves n Fo)"
  shows "map snd (forestTips n T) = forest_leaves n Fo"
proof -
  have "map snd (filter (\<lambda>(a, x). x \<noteq> empty) (tips (T r))) = (case Fo r of None \<Rightarrow> [] | Some t \<Rightarrow> leaves t)" if r: "bit n r" for r
  proof (cases "erase (T r) = Tip empty")
    case True
    then obtain a where "T r = RTip a empty" by (cases "T r") auto
    then show ?thesis using assms(1)[OF r, symmetric] by (simp add: opt_def)
  next
    case False
    then have F: "Fo r = Some (erase (T r))" using assms(1)[OF r] by (simp add: opt_def)
    then have "empty \<notin> set (leaves (erase (T r)))" using assms(2) r by (force simp: forest_leaves_def rows_iff)
    then have "empty \<notin> snd ` set (tips (T r))" using tips_leaves[of "T r"] by (metis list.set_map)
    then have "filter (\<lambda>(a, x). x \<noteq> empty) (tips (T r)) = tips (T r)" by (force simp: filter_id_conv)
    then show ?thesis using F tips_leaves[of "T r"] by simp
  qed
  then have "map (\<lambda>r. map snd (filter (\<lambda>(a, x). x \<noteq> empty) (tips (T r)))) (rows n) =
      map (\<lambda>r. case Fo r of None \<Rightarrow> [] | Some t \<Rightarrow> leaves t) (rows n)" using rows_iff by auto
  then show ?thesis unfolding forestTips_def forest_leaves_def map_concat map_map comp_def by (rule arg_cong)
qed

lemma entries_forestTips: "(\<Union>r \<in> set (rows n). entry_set (tips (T r))) = (\<lambda>(a, x). (mini x, a)) ` set (forestTips n T)"
  by (force simp: forestTips_def entry_set_def)

lemma restored_map:
  assumes "\<And>r. bit n r \<Longrightarrow> opt (T r) = Fo r" "empty \<notin> set (forest_leaves n Fo)" "minis_distinct (forest_leaves n Fo)"
    "set es = (\<Union>r \<in> set (rows n). entry_set (tips (T r)))"
  shows "length (remdups (map fst es)) = length (forest_leaves n Fo)"
    "\<And>a x. (a, x) \<in> set (forestTips n T) \<Longrightarrow> mapFrom es (mini x) = Some a"
proof -
  let ?ts = "forestTips n T"
  have s: "map snd ?ts = forest_leaves n Fo" using forestTips_leaves[OF assms(1,2)] .
  have e: "set es = (\<lambda>(a, x). (mini x, a)) ` set ?ts" using assms(4) entries_forestTips by simp
  have d: "distinct (map (\<lambda>e. mini (snd e)) ?ts)"
    using assms(3) unfolding minis_distinct_def s[symmetric] by (simp add: comp_def)
  have "set (map fst es) = set (map (\<lambda>e. mini (snd e)) ?ts)" unfolding set_map e image_image by (simp add: case_prod_beta)
  then have "length (remdups (map fst es)) = card (set (map (\<lambda>e. mini (snd e)) ?ts))" by (simp add: length_remdups_card_conv)
  also have "\<dots> = length ?ts" using distinct_card[OF d] by simp
  finally show "length (remdups (map fst es)) = length (forest_leaves n Fo)" using arg_cong[OF s, of length] by simp
  fix a x assume a: "(a, x) \<in> set ?ts"
  have j: "inj_on (\<lambda>e. mini (snd e)) (set ?ts)" using d by (simp add: distinct_map)
  show "mapFrom es (mini x) = Some a"
  proof (rule mapFrom_unique)
    show "(mini x, a) \<in> set es" unfolding e using a by force
    fix a' assume "(mini x, a') \<in> set es"
    then obtain x' where "(a', x') \<in> set ?ts" "mini x' = mini x" unfolding e by force
    then show "a' = a" using inj_onD[OF j, of "(a', x')" "(a, x)"] a by simp
  qed
qed

lemma Restore_linked:
  assumes "linked p T Fo" "n = polNumLeaves p" "WriteTo p = Inr (bs, k)" "empty \<notin> set (forest_leaves n Fo)"
    "minis_distinct (forest_leaves n Fo)" "int (length (forest_leaves n Fo)) = sint (n - NumDels p)"
  shows "\<exists>p' T'. RestorePollardFrom (bs @ rest) = Inr (k, p', rest) \<and> linked p' T' Fo \<and> indexed p' T' \<and>
    polNumLeaves p' = n \<and> NumDels p' = NumDels p"
proof -
  have bs: "bs = putUint64 n @ putUint64 (NumDels p) @ forestBytes n T" "k = length bs"
    using WriteTo_linked[OF assms(1,2) refl] assms(3) by auto
  let ?s = "\<lparr>rHeap = (\<lambda>_. zeroNode), rFresh = 0, rEntries = [], rInput = forestBytes n T @ rest\<rparr>"
  have "rInput ?s = concat (map (\<lambda>r. bytesOf (T r) (T r)) (rows n)) @ rest" by (simp add: forestBytes_def)
  from readRoots_bytes[OF this distinct_rows, of "[]"] obtain s' T' where
    R: "readRoots (length (rows n)) [] ?s = Inr (map (\<lambda>r. rref (T' r)) (rows n), s')" "rInput s' = rest"
    and P: "planted (rHeap s') (rFresh s') (set (rows n)) T'" "\<forall>r \<in> set (rows n). erase (T' r) = erase (T r)"
    and E: "set (rEntries s') = (\<Union>r \<in> set (rows n). entry_set (tips (T' r)))" by auto
  have op: "opt (T' r) = Fo r" if "bit n r" for r
    using P(2) linkedD(2)[OF assms(1) assms(2)[symmetric] that] that by (simp add: opt_def rows_iff split: if_splits)
  note M = restored_map[OF op assms(4,5) E]
  let ?p = "\<lparr>Heap = rHeap s', Fresh = rFresh s', NodeMap = mapFrom (rEntries s'), polRoots = map (\<lambda>r. rref (T' r)) (rows n),
    polNumLeaves = n, NumDels = NumDels p, Full = True\<rparr>"
  have i1: "readInto 8 (replicate 8 0) (bs @ rest) = Inr (putUint64 n, putUint64 (NumDels p) @ forestBytes n T @ rest)" by (simp add: bs(1))
  have i2: "readInto 8 (putUint64 n) (putUint64 (NumDels p) @ forestBytes n T @ rest) = Inr (putUint64 (NumDels p), forestBytes n T @ rest)" by simp
  have "RestorePollardFrom (bs @ rest) = Inr (k, ?p, rest)"
    unfolding RestorePollardFrom_def i1 bindR_simps prod.case i2 Let_def getUint64_putUint64 numRoots_rows R(1)
    using M(1) assms(6) R(2) bs(2) by simp
  moreover have "linked ?p T' Fo" using P(1) op by (simp add: linked_def rows_iff)
  moreover have "indexed ?p T'"
    using M(2) unfolding indexed_def forestTips_def by (fastforce simp: rows_iff)
  ultimately show ?thesis by (intro exI[of _ ?p] exI[of _ T']) simp
qed

end
