(* ===== verification/Spec2Isabelle.thy ===== *)
theory Spec2Isabelle
  imports Bridge PollardRestore
begin

text \<open>
  Utreexo is an accumulator for a set of hashes. The set is kept as a forest of perfect binary
  trees, one for each set bit of the number of leaves that were ever added; a node of the forest has
  a position, a 64-bit number that encodes its row and its offset in the row. A deleted leaf leaves
  its sibling in the place of their parent, and a tree without leaves has the zero hash as its root.
  This development models the Go sources under src/ and proves them against an abstract forest.

  \<^bold>\<open>The parts of the program and how they interact.\<close> Positions (utils.go) are computed by bit
  arithmetic. A proof (prove.go) is a list of target positions with the hashes that are needed
  to compute the roots from the targets; calculateHashes does that computation, and proofPositions
  says which hashes it needs. A stump (stump.go) has only the number of leaves and the roots: Verify
  compares the roots that a proof computes with the stump's, del replaces them by the roots that the proof
  computes without its targets, and add merges new leaves with the roots. A client that has a stump keeps a
  cached proof of its own leaves, which Proof.Update and Proof.Undo of prove.go move along with the
  stump. A map pollard (mappollard.go) keeps the nodes of the forest it wants in a map from positions and
  makes the proofs itself. A pollard (pollard.go, polnode.go) does the same with nodes that are linked by pointers.

  \<^bold>\<open>The theories.\<close>
  \<^item> Prelude: the type of results, where an error, a panic and an endless loop are values
    (\<open>fault\<close>), and lemmas on lists and words.
  \<^item> Positions: the position functions of utils.go on 64-bit words, with the loops that may not end as
    partial functions. PositionAlgebra, PositionMoves and ForestShape: the positions as pairs of a row
    and an offset (\<open>posn\<close>, \<open>valid_pos\<close>), the functions on such pairs, and the positions of a
    forest of \<open>n\<close> leaves (\<open>in_forest\<close>, \<open>in_tree\<close>).
  \<^item> Hashes: Hash, Leaf, parentHash and getNextHash; parentHash is SHA-512/256, written out, of the two
    hashes.
  \<^item> Slices and HashAndPos: the operations on sorted slices, of positions and of positions with hashes, with the
    panics they have. The loops that merge and subtract are one locale each (\<open>keyed_merge\<close>,
    \<open>keyed_difference\<close>), interpreted for both kinds of slices.
  \<^item> ForestNodes, ProofPositions and Climb: the nodes of a forest (\<open>place\<close>), proofPosition and proofPositions, and the
    positions between targets and roots (\<open>climbs\<close>, \<open>needed\<close>) that they are about.
  \<^item> CalculateHashes: calculateHashes, on hashes that follow any labelling of the positions. ProofRun: on
    any hashes. ProofLimits: where it panics and where it does not end. ProofSound: what an accepted
    proof says about the forest.
  \<^item> Forest: the specification, a forest of binary trees with its root hashes, and the deletion and addition of
    leaves in it. ForestLeaves: the leaves a deletion removes.
  \<^item> Stump: Verify, del, add and Update of stump.go. StumpDelete and StumpAdd: they refine deletion and
    addition in the forest.
  \<^item> CachedProof and ProofUndo: the functions of prove.go on cached proofs. ProofMerge: those that combine, divide and
    complement proofs.
  \<^item> SingleProof, Detwin and Roots: proofPosition, deTwin and the functions that find roots.
  \<^item> MapForest, MapUndo and MapBytes: mappollard.go. Translate: a forest in two numbers of rows.
    MapProofs: what a map pollard represents, and the proofs it makes, checks and ingests.
  \<^item> PolNodes, PollardOps, PollardUndo and PollardBytes: polnode.go, pollard.go and the methods of prove.go on a
    Pollard, on an explicit heap of nodes. PollardTrees: the trees that lie in such a heap. PollardAdd, PollardPaths and
    PollardProofs: addition, the way from a position to its node and back, and the proofs of a pollard.
  \<^item> DeleteSteps: deletion from a forest one position at a time. PollardSurgery: what the pointer operations of a deletion do
    to a tree in the heap. PollardDelete: deletion from a pollard, and Modify. PollardRestore: the bytes of a pollard.
  \<^item> Interfaces: the interface of accumulator_interface.go as a contract on a forest (the locale \<open>accumulator\<close>), which both
    MapPollard and Pollard fulfil. Bridge: a pollard that proves the deletions of each block for a stump.

  \<^bold>\<open>What is shown.\<close> The properties C1 to C40 follow, those of verification, deletion and addition
  first: a proof is accepted if it is one of the forest (C3) and, unless the hash function is broken, only if it
  is (C1); the stump follows the forest through every update (C2, C7, C8), the pollard does so (C5), and the two can be run side by
  side (C4). Then those of the proofs of the map pollard and the pollard (C9 to C13), of the
  bytes they are written as (C19, C20), of the other functions on proofs (C6, C14 to C18, C21), of positions and of slices. The last ones are about inputs
  the code does not handle: proofs on which verification does not end or panics, empty hashes that are accepted,
  unsorted targets, and a flag that is not reset.

  \<^bold>\<open>Choices.\<close> Positions and numbers of leaves are 64-bit words and rows 8-bit words, so that shifts and sums wrap
  as they do in Go; a forest has at most 63 rows (\<open>fits\<close>), the most for which all positions fit in 64 bits. A loop that Go
  could run forever is a partial function in the option type, and \<open>returns\<close> turns its absent result
  into the fault \<open>Diverge\<close>; no fuel is used. Slices are values, except in Proof.undoDel where loops range over slices
  that they change. The order in which Go ranges over a map is a parameter of the functions that depend on it.
  Of the sort package and golang.org/x/exp/slices the code uses sorting of numbers, sorting of positions with their hashes and Index; they are
  written out as documented (\<open>copySortedFunc\<close>, \<open>sort_hnp\<close>, \<open>slices_Index\<close>), the second as a stable sort, which makes no difference
  for the different positions that the properties are about. Counts of nodes and bytes are unbounded numbers. When an operation returns an error, the
  model returns the error only, without what the operation had already changed.

  \<^bold>\<open>Conditions on hashes.\<close> A stump knows its trees by their root hashes only, and a pollard finds leaves by the first twelve bytes of their
  hashes. The properties that need it say so: no node has the empty hash (\<open>forest_nonzero\<close>), no two trees have the same root hash
  (\<open>forest_distinct\<close>; \<open>Stump_del_equal_roots\<close> is what happens otherwise), or the keys of leaves or of all nodes are different (\<open>minis_distinct\<close>).

  \<^bold>\<open>Not modelled.\<close> accumulator_interface.go declares an interface. The String functions and the print functions of
  utils.go build text for debugging.
\<close>

unbundle bit_operations_syntax

text \<open>A forest of seven leaves that the instances below use. Its tree of row two has one leaf left and
  its tree of row one is empty.\<close>

abbreviation h4 :: Hash where
  "h4 \<equiv> 0x40000000000000000000000000000000000000000"

definition sampleForest :: forest where
  "sampleForest = (\<lambda>h. if h = 0 then Some (Tip 7) else if h = 2 then Some (Tip h4) else None)"

lemma sample:
  "targets_ok 7 3 [12, 6]" "distinct [12, 6 :: u64]" "(3 :: u8) = treeRows 7" "forest_ok 7 sampleForest"
  "forest_nonzero 7 sampleForest" "forest_distinct 7 sampleForest"
  "\<forall>t \<in> set [12, 6]. subtree_at 7 3 sampleForest t \<noteq> None"
  "proofPositions (sort [12, 6]) 7 3 = Inr ([], [])"
  "map (label 7 3 sampleForest) [12, 6] = [h4, 7]"
  by code_simp+

text \<open>A map pollard of this forest, in four rows, that has one leaf cached.\<close>

definition sampleMap :: MapPollard where
  "sampleMap = \<lparr>CachedLeaves = [7 \<mapsto> 6], Nodes = [6 \<mapsto> \<lparr>leaf_Hash = 7, Remember = True\<rparr>,
     18 \<mapsto> \<lparr>leaf_Hash = empty, Remember = False\<rparr>, 24 \<mapsto> \<lparr>leaf_Hash = h4, Remember = False\<rparr>],
     mapNumLeaves = 7, TotalRows = 4\<rparr>"

lemma sample_map: "represents sampleMap sampleForest"
proof -
  have s: "mapNumLeaves sampleMap = 7" "TotalRows sampleMap = 4" "Nodes sampleMap = [6 \<mapsto> \<lparr>leaf_Hash = 7, Remember = True\<rparr>,
     18 \<mapsto> \<lparr>leaf_Hash = empty, Remember = False\<rparr>, 24 \<mapsto> \<lparr>leaf_Hash = h4, Remember = False\<rparr>]" "CachedLeaves sampleMap = [7 \<mapsto> 6]"
    by (simp_all add: sampleMap_def)
  have f: "fits 7 4" "unat (treeRows 7) \<le> unat (4 :: u8)" by code_simp+
  have n: "node 7 4 6" "node 7 4 18" "node 7 4 24" "label 7 4 sampleForest 6 = 7" "label 7 4 sampleForest 18 = empty"
    "label 7 4 sampleForest 24 = h4" "subtree_at 7 4 sampleForest 6 = Some (Tip 7)" by code_simp+
  have "RootPositions 7 4 = [24, 18, 6]" by code_simp
  then have r: "p \<in> {24, 18, 6}" if "node 7 4 p" "root 7 4 p" for p using RootPositions_all[OF f(1) that] by auto
  have "root 7 4 6" by code_simp
  then have e: "needed 7 4 [6] = []" using needed_single[OF f(1) n(1)] by simp
  have "node 7 4 p \<and> leaf_Hash l = label 7 4 sampleForest p" if "Nodes sampleMap p = Some l" for p l
    using that n by (auto simp: s(3) split: if_splits)
  moreover have "Nodes sampleMap p \<noteq> None" if "node 7 4 p" "root 7 4 p" for p using r[OF that] by (auto simp: s(3))
  moreover have "node 7 4 p \<and> subtree_at 7 4 sampleForest p = Some (Tip x) \<and> Nodes sampleMap p \<noteq> None \<and>
    (\<forall>q \<in> set (needed 7 4 [p]). Nodes sampleMap q \<noteq> None)" if "CachedLeaves sampleMap x = Some p" for x p
  proof -
    have "x = 7" "p = 6" using that by (auto simp: s(4) split: if_splits)
    then show ?thesis using n(1,7) e by (simp add: s(3))
  qed
  ultimately show ?thesis unfolding represents_def Let_def s(1,2) using f by blast
qed

text \<open>A pollard of this forest: three nodes without nieces, and the trees they form.\<close>

definition samplePollard :: Pollard where
  "samplePollard =
     (let n = (\<lambda>x. \<lparr>lNiece = None, rNiece = None, aunt = None, data = x, remember = True\<rparr>)
      in \<lparr>Heap = (\<lambda>_. zeroNode)(0 := n h4, 1 := n empty, 2 := n 7), Fresh = 3, NodeMap = [mini h4 \<mapsto> 0, mini 7 \<mapsto> 2],
          polRoots = [0, 1, 2], polNumLeaves = 7, NumDels = 5, Full = True\<rparr>)"

definition sampleTrees :: "nat \<Rightarrow> rtree" where
  "sampleTrees h = (if h = 2 then RTip 0 h4 else if h = 1 then RTip 1 empty else RTip 2 7)"

lemma sample_pollard:
  "linked samplePollard sampleTrees sampleForest" "indexed samplePollard sampleTrees" "polNumLeaves samplePollard = 7"
  "pollard_of samplePollard sampleForest"
proof -
  have r: "rows 7 = [2, 1, 0]" by code_simp
  have e: "h4 \<noteq> empty" "(7 :: Hash) \<noteq> empty" "mini h4 \<noteq> mini 7" by code_simp+
  show n: "polNumLeaves samplePollard = 7" by (simp add: samplePollard_def Let_def)
  have ro: "rooted (Heap samplePollard) (sampleTrees h)" if "h \<in> {0, 1, 2}" for h
    using that by (auto simp: samplePollard_def sampleTrees_def rooted_def Let_def)
  have op: "opt (sampleTrees h) = sampleForest h" if "h \<in> {0, 1, 2}" for h
    using that e by (auto simp: sampleTrees_def sampleForest_def opt_def)
  have f: "Full samplePollard" "polRoots samplePollard = map (\<lambda>r. rref (sampleTrees r)) [2, 1, 0]" "Fresh samplePollard = 3"
    "refs (sampleTrees h) = [if h = 2 then 0 else if h = 1 then 1 else 2]" for h
    by (simp_all add: samplePollard_def sampleTrees_def Let_def)
  show l: "linked samplePollard sampleTrees sampleForest"
    unfolding linked_def n r planted_def f(2-4) using f(1) ro op by simp
  show i: "indexed samplePollard sampleTrees"
    unfolding indexed_def n r using e by (auto simp: samplePollard_def sampleTrees_def Let_def)
  have "unat (7 :: u64) \<le> 2 ^ 63" by simp
  then show "pollard_of samplePollard sampleForest" unfolding pollard_of_def n using l i sample(4,5) by blast
qed

text \<open>With two trees of the same root hash, a proof of the taller one makes del empty the other.\<close>

lemma Stump_del_equal_roots:
  "Stump_del \<lparr>Roots = [7, 7], NumLeaves = 3\<rparr> [7] \<lparr>Targets = [4], proofHashes = []\<rparr> =
     Inr (\<lparr>Roots = [7, empty], NumLeaves = 3\<rparr>, [empty], [4])"
  "rootPosition 3 1 (treeRows 3) = 4"
  by code_simp+

text \<open>C1. When Verify accepts hashes for distinct nodes of the forest, none under another, and none of
  the given hashes is the empty hash, there is one hash per target and every claimed hash is the
  hash of a node of a tree of the forest, on the path from that tree's root which the target's
  position gives, unless a pair hashed during verification breaks the hash function: it gives the
  empty hash, the hash of a leaf, or the hash of another pair of the forest.\<close>

theorem Verify_sound:
  assumes "targets_ok n F ts" "distinct ts" "F = treeRows n" "empty \<notin> set dels" "empty \<notin> set pf"
    "Verify (stump_of n Fo) dels \<lparr>Targets = ts, proofHashes = pf\<rparr> = Inr js"
  shows "length dels = length ts \<and>
    (breaks n F Fo ts (computed n F ts dels (take (length (needed n F ts)) pf)) \<or>
     (\<forall>i < length ts. \<exists>g \<in> set (rows n). \<exists>u s.
        Fo g = Some u \<and> path_at n F u (ts ! i) = Some s \<and> thash s = dels ! i))"
proof -
  have l: "length dels = length ts" using assms(6) by (simp add: Verify_def split: if_splits)
  then show ?thesis using Verify_finds[OF assms(1-3) l assms(4-6) refl] by blast
qed

theorem Verify_sound_witness:
  "length [h4, 7 :: Hash] = length [12, 6 :: u64] \<and>
    (breaks 7 3 sampleForest [12, 6] (computed 7 3 [12, 6] [h4, 7] (take (length (needed 7 3 [12, 6])) [])) \<or>
     (\<forall>i < length [12, 6 :: u64]. \<exists>g \<in> set (rows 7). \<exists>u s.
        sampleForest g = Some u \<and> path_at 7 3 u ([12, 6] ! i) = Some s \<and> thash s = [h4, 7] ! i))"
proof -
  have "Verify (stump_of 7 sampleForest) [h4, 7] \<lparr>Targets = [12, 6], proofHashes = []\<rparr> = Inr [2, 0]" by code_simp
  moreover have "empty \<notin> set [h4, 7 :: Hash]" by code_simp
  ultimately show ?thesis by (intro Verify_sound[OF sample(1-3)]) auto
qed

text \<open>C2. Stump.Update refines the abstract accumulator on a forest in which no node has the empty
  hash and no two trees have the same root hash, when no node of the new forest has the empty hash
  either: given a proof of distinct nodes of the forest, none under another, with the hashes
  proofPositions asks for, and at most two to the 63 leaves in all, it returns the stump of a
  well-formed forest whose leaves, as a multiset, are the old leaves without those of the deleted
  subtrees and with the added ones; the update data holds the old number of leaves and the
  positions from the targets to the roots.\<close>

theorem Stump_Update_leaves:
  assumes "targets_ok n F ts" "distinct ts" "F = treeRows n" "forest_ok n Fo" "forest_nonzero n Fo" "forest_distinct n Fo"
    "\<forall>t \<in> set ts. subtree_at n F Fo t \<noteq> None" "proofPositions (sort ts) n F = Inr (ps, cs)"
    "unat n + length xs \<le> 2 ^ 63" "n' = n + of_nat (length xs)"
    "forest_nonzero n' (insert_leaves n (delete n F (set ts) Fo) xs)"
  shows "\<exists>ud Fo'. Stump_Update (stump_of n Fo) (map (label n F Fo) ts) xs
        \<lparr>Targets = ts, proofHashes = map (label n F Fo) ps\<rparr> = Inr (stump_of n' Fo', ud) \<and>
      forest_ok n' Fo' \<and> PrevNumLeaves ud = n \<and> NewDelPos ud = climbL n F ts \<and>
      mset (forest_leaves n' Fo') + mset (concat (map (\<lambda>t. leavesO (subtree_at n F Fo t)) ts)) =
        mset (forest_leaves n Fo) + mset xs"
proof -
  let ?Fo = "insert_leaves n (delete n F (set ts) Fo) xs"
  have ps: "ps = needed n F ts" using assms(8) proofPositions_sort[OF assms(1,2)] by simp
  have c: "unat n + length xs < 2 ^ 64" using assms(9) by simp
  obtain ud where "Stump_Update (stump_of n Fo) (map (label n F Fo) ts) xs \<lparr>Targets = ts, proofHashes = map (label n F Fo) ps\<rparr> =
      Inr (stump_of n' ?Fo, ud)" "PrevNumLeaves ud = n" "NewDelPos ud = climbL n F ts"
    using Stump_Update_eq[OF assms(1-7,9-11)] ps by blast
  moreover note ins = insert_leaves_spec[OF c delete_ok[OF assms(4)], of F "set ts", folded assms(10)]
  have "mset (forest_leaves n' ?Fo) + mset (concat (map (\<lambda>t. leavesO (subtree_at n F Fo t)) ts)) = mset (forest_leaves n Fo) + mset xs"
    using delete_leaves[OF assms(1,2,4)] ins(1) by simp
  ultimately show ?thesis using ins(2) by blast
qed

theorem Stump_Update_leaves_witness:
  "\<exists>ud Fo'. Stump_Update (stump_of 7 sampleForest) (map (label 7 3 sampleForest) [12, 6]) [9]
        \<lparr>Targets = [12, 6], proofHashes = map (label 7 3 sampleForest) []\<rparr> = Inr (stump_of 8 Fo', ud) \<and>
      forest_ok 8 Fo' \<and> PrevNumLeaves ud = 7 \<and> NewDelPos ud = climbL 7 3 [12, 6] \<and>
      mset (forest_leaves 8 Fo') + mset (concat (map (\<lambda>t. leavesO (subtree_at 7 3 sampleForest t)) [12, 6])) =
        mset (forest_leaves 7 sampleForest) + mset [9]"
proof -
  have "forest_nonzero 8 (insert_leaves 7 (delete 7 3 (set [12, 6]) sampleForest) [9])" by code_simp
  then show ?thesis by (intro Stump_Update_leaves[OF sample(1-8)]) auto
qed

text \<open>C3. Verify is complete: for distinct nodes of the forest, none under another, it accepts the
  hashes of the nodes with the hashes at the positions that proofPositions returns as the proof.\<close>

theorem Verify_accepts:
  assumes "targets_ok n F ts" "distinct ts" "F = treeRows n" "forest_nonzero n Fo"
    "\<forall>t \<in> set ts. subtree_at n F Fo t \<noteq> None" "proofPositions (sort ts) n F = Inr (ps, cs)"
  shows "\<exists>js. Verify (stump_of n Fo) (map (label n F Fo) ts)
      \<lparr>Targets = ts, proofHashes = map (label n F Fo) ps\<rparr> = Inr js"
  using Verify_complete[OF assms(1-5)] assms(6) proofPositions_sort[OF assms(1,2)] by simp

theorem Verify_accepts_witness:
  "\<exists>js. Verify (stump_of 7 sampleForest) (map (label 7 3 sampleForest) [12, 6])
      \<lparr>Targets = [12, 6], proofHashes = map (label 7 3 sampleForest) []\<rparr> = Inr js"
  by (rule Verify_accepts[OF sample(1-3,5,7,8)])

text \<open>C4. A new full pollard serves a client that has only an empty stump through every sequence of
  valid blocks, each of which deletes leaves and adds others: the pollard proves the deletions,
  accepts its own proof, the stump is updated with it and the pollard modified, without an error.
  At the end both have the same roots and number of leaves, those of the forest that the blocks
  leave, the pollard is well formed for that forest and counts the deletions, and the leaves of
  the forest are, as a multiset, the added ones without the deleted ones.\<close>

theorem Pollard_serves_Stump:
  assumes "history_ok 0 (\<lambda>_. None) bs" "rs = requests 0 (\<lambda>_. None) bs" "after_blocks 0 (\<lambda>_. None) bs = (n, Fo)"
  shows "\<exists>p s. serve rs (NewAccumulator True) \<lparr>Roots = [], NumLeaves = 0\<rparr> = Inr (p, s) \<and>
    s = stump_of n Fo \<and> Pollard_GetRoots p = Roots s \<and> Pollard_GetNumLeaves p = NumLeaves s \<and> pollard_of p Fo \<and>
    NumDels p = of_nat (length (concat (map fst rs))) \<and>
    mset (forest_leaves n Fo) + mset (concat (map fst rs)) = mset (map leaf_Hash (concat (map snd rs)))"
proof -
  have z: "polNumLeaves (NewAccumulator True) = 0" "NumDels (NewAccumulator True) = 0" by (simp_all add: NewAccumulator_def)
  have e: "stump_of 0 (\<lambda>_. None) = \<lparr>Roots = [], NumLeaves = 0\<rparr>" "forest_leaves 0 (\<lambda>_. None) = []"
    by (simp_all add: stump_of_def forest_leaves_def rows_def)
  obtain p where p: "serve rs (NewAccumulator True) (stump_of 0 (\<lambda>_. None)) = Inr (p, stump_of n Fo)" "pollard_of p Fo" "polNumLeaves p = n"
    "NumDels p = of_nat (length (concat (map fst rs)))"
    "mset (forest_leaves n Fo) + mset (concat (map fst rs)) = mset (map leaf_Hash (concat (map snd rs)))"
    using serve_follows[OF NewAccumulator_pollard z(1)[symmetric] assms] z(2) e(2) by auto
  obtain T where "linked p T Fo" using p(2) by (auto simp: pollard_of_def)
  then have "Pollard_GetRoots p = Roots (stump_of n Fo)" "Pollard_GetNumLeaves p = NumLeaves (stump_of n Fo)"
    using GetRoots_linked p(3) by (auto simp: Pollard_GetNumLeaves_def stump_of_def)
  then show ?thesis using p e(1) by auto
qed

theorem Pollard_serves_Stump_witness:
  "let a = \<lparr>leaf_Hash = h4, Remember = False\<rparr>; b = \<lparr>leaf_Hash = 7, Remember = False\<rparr>
   in \<exists>p s. serve [([], [a]), ([h4], [b]), ([], [a]), ([7, h4], [b])] (NewAccumulator True) \<lparr>Roots = [], NumLeaves = 0\<rparr> = Inr (p, s) \<and>
     s = \<lparr>Roots = [7], NumLeaves = 4\<rparr> \<and> Pollard_GetRoots p = Roots s \<and> Pollard_GetNumLeaves p = NumLeaves s \<and> NumDels p = 3"
proof -
  let ?a = "\<lparr>leaf_Hash = h4, Remember = False\<rparr>" and ?b = "\<lparr>leaf_Hash = 7, Remember = False\<rparr>"
  let ?bs = "[([], [?a]), ([0], [?b]), ([], [?a]), ([4, 2], [?b])]" and ?rs = "[([], [?a]), ([h4], [?b]), ([], [?a]), ([7, h4], [?b])]"
  let ?r = "after_blocks 0 (\<lambda>_. None) ?bs"
  have h: "history_ok 0 (\<lambda>_. None) ?bs" by code_simp
  have r: "?rs = requests 0 (\<lambda>_. None) ?bs" by code_simp
  have s: "stump_of (fst ?r) (snd ?r) = \<lparr>Roots = [7], NumLeaves = 4\<rparr>" by code_simp
  have l: "length (concat (map fst ?rs)) = 3" by simp
  show ?thesis using Pollard_serves_Stump[OF h r, of "fst ?r" "snd ?r"] unfolding s l Let_def by (simp only: prod.collapse simp_thms of_nat_numeral) blast
qed

text \<open>C5. Pollard.Modify keeps the linked nodes of a full pollard well formed: from nodes whose niece
  and aunt pointers form the trees of a forest, and a proof of nodes of the forest, it never fails
  or dereferences nil, and leaves nodes that form the trees of the forest without the targets and
  with the new leaves, with its root hashes and counts.\<close>

theorem Pollard_Modify_wellformed:
  assumes "linked p T Fo" "polNumLeaves p = n" "F = treeRows n" "targets_ok n F (Targets pr)" "distinct (Targets pr)" "forest_ok n Fo"
    "\<forall>t \<in> set (Targets pr). subtree_at n F Fo t \<noteq> None" "empty \<notin> set (forest_leaves n Fo)" "unat n + length adds < 2 ^ 64"
    "Fo' = insert_leaves n (delete n F (set (Targets pr)) Fo) (map leaf_Hash adds)" "forest_nonzero (n + of_nat (length adds)) Fo'"
  shows "\<exists>p' T'. Pollard_Modify p adds dels pr = Inr p' \<and> linked p' T' Fo' \<and> polNumLeaves p' = n + of_nat (length adds) \<and>
    NumDels p' = NumDels p + of_nat (length (Targets pr)) \<and> Pollard_GetRoots p' = map (\<lambda>h. rhash (Fo' h)) (rows (polNumLeaves p'))"
proof -
  obtain p' T' where "Pollard_Modify p adds dels pr = Inr p'" "linked p' T' Fo'" "polNumLeaves p' = n + of_nat (length adds)"
    "NumDels p' = NumDels p + of_nat (length (Targets pr))"
    using Pollard_Modify_linked[OF assms(1-9) refl assms(10,11)] by blast
  then show ?thesis using GetRoots_linked[of p' T' Fo'] by (intro exI[of _ p'] exI[of _ T']) (simp add: stump_of_def)
qed

theorem Pollard_Modify_wellformed_witness:
  "\<exists>p' T'. Pollard_Modify samplePollard [\<lparr>leaf_Hash = 9, Remember = False\<rparr>] [h4, 7] \<lparr>Targets = [12, 6], proofHashes = []\<rparr> = Inr p' \<and>
    linked p' T' (insert_leaves 7 (delete 7 3 (set [12, 6]) sampleForest) [9]) \<and> polNumLeaves p' = 8 \<and> NumDels p' = 7 \<and>
    Pollard_GetRoots p' = map (\<lambda>h. rhash (insert_leaves 7 (delete 7 3 (set [12, 6]) sampleForest) [9] h)) (rows (polNumLeaves p'))"
proof -
  have "forest_nonzero 8 (insert_leaves 7 (delete 7 3 (set [12, 6]) sampleForest) [9])" "empty \<notin> set (forest_leaves 7 sampleForest)" by code_simp+
  moreover have "NumDels samplePollard = 5" by (simp add: samplePollard_def Let_def)
  ultimately show ?thesis
    using Pollard_Modify_wellformed[OF sample_pollard(1,3) sample(3), of "\<lparr>Targets = [12, 6], proofHashes = []\<rparr>"
      "[\<lparr>leaf_Hash = 9, Remember = False\<rparr>]" _ "[h4, 7]", OF _ _ sample(4) _ _ _ refl] sample(1,2,7) by simp
qed

text \<open>C6. AddProof combines two proofs: from the proofs of two lists of targets, with hashes from any
  labelling of the positions, it returns the sorted union of the targets with their hashes and
  exactly the hashes that proofPositions asks for to prove the union.\<close>

theorem AddProof_union:
  assumes "targets_ok n F (ts @ us)" "distinct ts" "distinct us" "F = treeRows n"
    "proofPositions (sort ts) n F = Inr (ps, cs)" "proofPositions (sort us) n F = Inr (qs, ds)"
  shows "\<exists>vs rs es. AddProof \<lparr>Targets = ts, proofHashes = map H ps\<rparr> \<lparr>Targets = us, proofHashes = map H qs\<rparr>
      (map H ts) (map H us) n = Inr (map H vs, \<lparr>Targets = vs, proofHashes = map H rs\<rparr>) \<and>
    ascending vs \<and> set vs = set ts \<union> set us \<and> proofPositions vs n F = Inr (rs, es)"
proof -
  have ok: "targets_ok n F ts" "targets_ok n F us" using targets_ok_subset[OF assms(1)] by auto
  have asc: "ascending (sort ts)" "ascending (sort us)" using assms(2,3) by (auto simp: strict_sorted_iff)
  define vs where "vs = mergeSortedSlicesFunc (sort ts) (sort us) uint64Cmp"
  note v = mergeSortedSlicesFunc_set[OF asc, folded vs_def]
  have okv: "targets_ok n F vs" using targets_ok_subset[OF assms(1)] v(1) by simp
  have "ps = needed n F ts" "qs = needed n F us"
    using assms(5,6) proofPositions_sort[OF ok(1) assms(2)] proofPositions_sort[OF ok(2) assms(3)] by auto
  then show ?thesis
    using AddProof_labelled[OF assms(1-4) vs_def, of H] proofPositions_eq[OF okv v(2)] v by (auto simp: needed_def)
qed

theorem AddProof_union_witness:
  "\<exists>vs rs es. AddProof \<lparr>Targets = [6], proofHashes = map ucast ([] :: u64 list)\<rparr>
      \<lparr>Targets = [1], proofHashes = map ucast [0, 9 :: u64]\<rparr> (map ucast [6 :: u64]) (map ucast [1 :: u64]) 7 =
      Inr (map ucast (vs :: u64 list), \<lparr>Targets = vs, proofHashes = map ucast (rs :: u64 list)\<rparr>) \<and>
    ascending vs \<and> set vs = set [6] \<union> set [1] \<and> proofPositions vs 7 3 = Inr (rs, es)"
proof -
  have "targets_ok 7 3 ([6] @ [1])" "(3 :: u8) = treeRows 7" "proofPositions (sort [6]) 7 3 = Inr ([], [])"
    "proofPositions (sort [1]) 7 3 = Inr ([0, 9], [8, 12])" by code_simp+
  then show ?thesis by (intro AddProof_union) auto
qed

text \<open>C7. Stump.del implements deletion in a forest in which no two trees have the same root hash and,
  before and after the deletion, no node has the empty hash: given a proof of distinct nodes, none
  under another, with the hashes proofPositions asks for, the stump becomes the stump of the
  forest without the targets' subtrees, where a sibling of a deleted subtree moves up, and the
  positions it reports are those from the targets to the roots with their hashes in the new
  forest.\<close>

theorem Stump_del_refines:
  assumes "targets_ok n F ts" "distinct ts" "F = treeRows n" "forest_ok n Fo" "forest_nonzero n Fo"
    "forest_nonzero n (delete n F (set ts) Fo)" "forest_distinct n Fo"
    "\<forall>t \<in> set ts. subtree_at n F Fo t \<noteq> None" "proofPositions (sort ts) n F = Inr (ps, cs)"
  shows "Stump_del (stump_of n Fo) (map (label n F Fo) ts) \<lparr>Targets = ts, proofHashes = map (label n F Fo) ps\<rparr> =
    Inr (stump_of n (delete n F (set ts) Fo),
      map (\<lambda>p. rhash (pruned n F (set ts) Fo p)) (climbL n F ts), climbL n F ts)"
  using Stump_del_eq[OF assms(1-8)] assms(9) proofPositions_sort[OF assms(1,2)] by simp

theorem Stump_del_refines_witness:
  "Stump_del (stump_of 7 sampleForest) (map (label 7 3 sampleForest) [12, 6])
      \<lparr>Targets = [12, 6], proofHashes = map (label 7 3 sampleForest) []\<rparr> =
    Inr (stump_of 7 (delete 7 3 (set [12, 6]) sampleForest),
      map (\<lambda>p. rhash (pruned 7 3 (set [12, 6]) sampleForest p)) (climbL 7 3 [12, 6]), climbL 7 3 [12, 6])"
proof -
  have "forest_nonzero 7 (delete 7 3 (set [12, 6]) sampleForest)" by code_simp
  then show ?thesis by (rule Stump_del_refines[OF sample(1-5) _ sample(6-8)])
qed

text \<open>C8. Stump.add implements addition in the forest: the stump becomes the stump of the forest with
  the new leaves appended on the right, the forest stays well formed, and the empty roots it
  reports are the ones written over.\<close>

theorem Stump_add_refines:
  assumes "unat n + length xs \<le> 2 ^ 63" "n' = n + of_nat (length xs)" "forest_ok n Fo"
    "forest_nonzero n' (insert_leaves n Fo xs)"
  shows "\<exists>hs ps. Stump_add (stump_of n Fo) xs = Inr (stump_of n' (insert_leaves n Fo xs), hs, ps,
        map (\<lambda>h. rootPosition n (of_nat h) (treeRows n')) (destroyed n (length xs) (\<lambda>h. rhash (Fo h)))) \<and>
      forest_leaves n' (insert_leaves n Fo xs) = forest_leaves n Fo @ xs \<and>
      forest_ok n' (insert_leaves n Fo xs)"
proof -
  have "unat n + length xs < 2 ^ 64" using assms(1) by simp
  from insert_leaves_spec[OF this assms(3)] show ?thesis
    using Stump_add_eq[OF assms(1)] assms(2,4) by blast
qed

theorem Stump_add_refines_witness:
  "\<exists>hs ps. Stump_add (stump_of 7 (\<lambda>h. None)) [9, 8] = Inr (stump_of 9 (insert_leaves 7 (\<lambda>h. None) [9, 8]), hs, ps,
        map (\<lambda>h. rootPosition 7 (of_nat h) (treeRows 9)) (destroyed 7 (length [9, 8 :: Hash]) (\<lambda>h. rhash None))) \<and>
      forest_leaves 9 (insert_leaves 7 (\<lambda>h. None) [9, 8]) = forest_leaves 7 (\<lambda>h. None) @ [9, 8] \<and>
      forest_ok 9 (insert_leaves 7 (\<lambda>h. None) [9, 8])"
proof -
  have "forest_nonzero 9 (insert_leaves 7 (\<lambda>h. None) [9, 8])" "forest_ok 7 (\<lambda>h. None)" by code_simp+
  then show ?thesis by (intro Stump_add_refines) auto
qed

text \<open>C9. A map pollard that represents a forest proves every list of distinct leaves it has cached,
  and the proof is accepted by Verify against the roots of the forest and by the map pollard
  itself, whatever number of rows it has allocated.\<close>

theorem Prove_verifies:
  assumes "represents m Fo" "forest_nonzero (mapNumLeaves m) Fo" "cached m hs" "distinct hs"
  shows "\<exists>pr. MapPollard_Prove m hs = Inr pr \<and> (\<exists>js. Verify (stump_of (mapNumLeaves m) Fo) hs pr = Inr js) \<and>
    MapPollard_Verify m hs pr False = Inr m"
proof -
  let ?n = "mapNumLeaves m"
  note P = Prove_represents[OF assms(1,3,4) refl refl refl refl refl]
  obtain js where v: "Verify (stump_of ?n Fo) hs
      \<lparr>Targets = map (\<lambda>t. translatePos t (TotalRows m) (treeRows ?n)) (map (\<lambda>h. the (CachedLeaves m h)) hs),
       proofHashes = map (label ?n (treeRows ?n) Fo) (needed ?n (treeRows ?n)
         (map (\<lambda>t. translatePos t (TotalRows m) (treeRows ?n)) (map (\<lambda>h. the (CachedLeaves m h)) hs)))\<rparr> = Inr js"
    using Verify_complete[OF P(2,3) refl assms(2) P(5)] P(4) by auto
  then show ?thesis
    using P(1,2) MapPollard_Verify_eq[OF assms(1)] by (auto simp: targets_ok_def)
qed

theorem Prove_verifies_witness:
  "\<exists>pr. MapPollard_Prove sampleMap [7] = Inr pr \<and> (\<exists>js. Verify (stump_of (mapNumLeaves sampleMap) sampleForest) [7] pr = Inr js) \<and>
    MapPollard_Verify sampleMap [7] pr False = Inr sampleMap"
proof -
  have "forest_nonzero (mapNumLeaves sampleMap) sampleForest" using sample(5) by (simp add: sampleMap_def)
  moreover have "cached sampleMap [7]" by code_simp
  ultimately show ?thesis by (intro Prove_verifies[OF sample_map]) auto
qed

text \<open>C10. Verify of a map pollard with the remember flag accepts a proof of leaves of the forest it
  represents and ingests it: the map pollard still represents the forest with the same roots, and
  has the leaves cached with all the nodes that prove them.\<close>

theorem Verify_remembers:
  assumes "represents m Fo" "n = mapNumLeaves m" "G = treeRows n" "forest_nonzero n Fo" "distinct us" "targets_ok n G us"
    "\<forall>u \<in> set us. \<exists>x. subtree_at n G Fo u = Some (Tip x)" "hs = map (label n G Fo) us"
    "pr = \<lparr>Targets = us, proofHashes = map (label n G Fo) (needed n G us)\<rparr>"
  shows "\<exists>m'. MapPollard_Verify m hs pr True = Inr m' \<and> represents m' Fo \<and> cached m' hs \<and> GetStump m' = GetStump m"
proof -
  define F where "F = TotalRows m"
  define ts where "ts = map (\<lambda>u. translatePos u G F) us"
  note R = representsD[OF assms(1,2) F_def]
  have fG: "fits n G" using R(3) assms(3) by simp
  have nd: "\<forall>u \<in> set us. node n G u" "\<forall>u \<in> set us. subtree_at n G Fo u \<noteq> None" using assms(6,7) by (auto simp: targets_ok_def)
  obtain js where v: "Verify (stump_of n Fo) hs pr = Inr js"
    using Verify_complete[OF assms(6,5,3,4) nd(2)] assms(8,9) by auto
  have i: "Ingest m hs pr = Inr (ingested m Fo ts)"
    unfolding assms(8,9) by (rule Ingest_ingested[OF assms(1,2) F_def assms(3,6,5,4) nd(2) ts_def])
  have leaf: "\<forall>t \<in> set ts. node n F t \<and> (\<exists>x. subtree_at n F Fo t = Some (Tip x))"
    using nd assms(7) translate_node(1,4)[OF fG R(1)] by (auto simp: ts_def)
  have "map (label n F Fo) ts = hs" using nd(1) translate_node(4)[OF fG R(1)] by (simp add: ts_def assms(8) label_def)
  then have r: "represents (ingested m Fo ts) Fo" "cached (ingested m Fo ts) hs"
    using ingested_represents[OF assms(1,2) F_def leaf] by auto
  have "mapNumLeaves (ingested m Fo ts) = mapNumLeaves m" by (simp add: ingested_def Let_def)
  then show ?thesis
    using r i v MapPollard_Verify_eq[OF assms(1), of pr hs True] nd(1) assms(2,3,9) GetStump_represents[OF r(1)] GetStump_represents[OF assms(1)]
    by simp
qed

theorem Verify_remembers_witness:
  "\<exists>m'. MapPollard_Verify sampleMap [h4, 7] \<lparr>Targets = [12, 6], proofHashes = []\<rparr> True = Inr m' \<and>
    represents m' sampleForest \<and> cached m' [h4, 7] \<and> GetStump m' = GetStump sampleMap"
proof (rule Verify_remembers[OF sample_map refl, of 3 "[12, 6]"])
  have m: "mapNumLeaves sampleMap = 7" by (simp add: sampleMap_def)
  show "(3 :: u8) = treeRows (mapNumLeaves sampleMap)" "forest_nonzero (mapNumLeaves sampleMap) sampleForest" "distinct [12, 6 :: u64]"
    "targets_ok (mapNumLeaves sampleMap) 3 [12, 6]" "[h4, 7] = map (label (mapNumLeaves sampleMap) 3 sampleForest) [12, 6]"
    unfolding m using sample by simp_all
  have "subtree_at 7 3 sampleForest 12 = Some (Tip h4)" "subtree_at 7 3 sampleForest 6 = Some (Tip 7)" by code_simp+
  then show "\<forall>u \<in> set [12, 6]. \<exists>x. subtree_at (mapNumLeaves sampleMap) 3 sampleForest u = Some (Tip x)" by (simp add: m)
  have "needed 7 3 [12, 6] = []" using proofPositions_sort[OF sample(1,2)] sample(8) by simp
  then show "\<lparr>Targets = [12, 6], proofHashes = []\<rparr> =
    \<lparr>Targets = [12, 6], proofHashes = map (label (mapNumLeaves sampleMap) 3 sampleForest) (needed (mapNumLeaves sampleMap) 3 [12, 6])\<rparr>"
    by (simp add: m)
qed

text \<open>C11. A full pollard of a forest with different roots proves every list of distinct leaves of the
  forest, and the proof is accepted by Verify against the roots of the forest and by the pollard
  itself.\<close>

theorem Pollard_Prove_verifies:
  assumes "pollard_of p Fo" "n = Pollard_GetNumLeaves p" "forest_distinct n Fo" "set hs \<subseteq> set (forest_leaves n Fo)" "distinct hs"
  shows "\<exists>pr. Pollard_Prove p hs = Inr pr \<and> (\<forall>rem. Pollard_Verify p hs pr rem = Inr ()) \<and> (\<exists>js. Verify (stump_of n Fo) hs pr = Inr js)"
proof -
  have H: "pollard_of p Fo \<and> forest_distinct (polNumLeaves p) Fo" using assms(1-3) by (simp add: Pollard_GetNumLeaves_def)
  have "\<lparr>Roots = Pollard_GetRoots p, NumLeaves = Pollard_GetNumLeaves p\<rparr> = stump_of n Fo"
    using pollard.roots_law[OF H] assms(2) by (simp add: stump_of_def)
  then show ?thesis using pollard.proves[OF H, of hs] assms(2,4,5) by (simp add: Pollard_GetNumLeaves_def)
qed

theorem Pollard_Prove_verifies_witness:
  "\<exists>pr. Pollard_Prove samplePollard [h4, 7] = Inr pr \<and> (\<forall>rem. Pollard_Verify samplePollard [h4, 7] pr rem = Inr ()) \<and>
    (\<exists>js. Verify (stump_of 7 sampleForest) [h4, 7] pr = Inr js)"
proof -
  have "7 = Pollard_GetNumLeaves samplePollard" by (simp add: Pollard_GetNumLeaves_def sample_pollard(3))
  moreover have "set [h4, 7] \<subseteq> set (forest_leaves 7 sampleForest)" "distinct [h4, 7]" by code_simp+
  ultimately show ?thesis by (intro Pollard_Prove_verifies[OF sample_pollard(4) _ sample(6)])
qed

text \<open>C12. A map pollard and a full pollard of the same forest are interchangeable when the keys of
  all its nodes, the first twelve bytes of their hashes, are different, so that in particular no
  two trees have the same root hash: they have the same roots, return the same proof for distinct
  leaves of the forest that the map pollard has cached, and both accept it.\<close>

theorem accumulators_agree:
  assumes "represents m Fo" "pollard_of p Fo" "n = GetNumLeaves m" "n = Pollard_GetNumLeaves p" "minis_distinct (forest_hashes n Fo)"
    "cached m hs" "distinct hs" "set hs \<subseteq> set (forest_leaves n Fo)"
  shows "GetRoots m = Pollard_GetRoots p \<and> MapPollard_Prove m hs = Pollard_Prove p hs \<and>
    (\<exists>pr. MapPollard_Prove m hs = Inr pr \<and> MapPollard_Verify m hs pr False = Inr m \<and> (\<forall>rem. Pollard_Verify p hs pr rem = Inr ()))"
proof -
  have z: "forest_nonzero n Fo" using assms(2,4) by (simp add: pollard_of_def Pollard_GetNumLeaves_def)
  have M: "represents m Fo \<and> forest_nonzero (mapNumLeaves m) Fo" using assms(1,3) z by (simp add: GetNumLeaves_def)
  have P: "pollard_of p Fo \<and> forest_distinct (polNumLeaves p) Fo" using assms(2,4) keys_roots[OF assms(5)] by (simp add: Pollard_GetNumLeaves_def)
  note A = accumulators.agree[OF M P] and e = assms(3,4)
  have k: "set hs \<subseteq> set (forest_leaves (polNumLeaves p) Fo)" using assms(8) e by (simp add: Pollard_GetNumLeaves_def)
  have "MapPollard_Prove m hs = Pollard_Prove p hs" using A(3)[OF _ assms(6) k assms(7)] assms(5) e by simp
  moreover have "GetRoots m = Pollard_GetRoots p" using A(1) e by simp
  moreover obtain pr where "MapPollard_Prove m hs = Inr pr" "MapPollard_Verify m hs pr False = Inr m"
    using map_pollard.proves[OF M assms(6,7)] by blast
  moreover from this have "\<forall>rem. Pollard_Verify p hs pr rem = Inr ()" using A(2)[OF _ assms(6,7)] e by auto
  ultimately show ?thesis by blast
qed

theorem accumulators_agree_witness:
  "GetRoots sampleMap = Pollard_GetRoots samplePollard \<and> MapPollard_Prove sampleMap [7] = Pollard_Prove samplePollard [7] \<and>
    (\<exists>pr. MapPollard_Prove sampleMap [7] = Inr pr \<and> MapPollard_Verify sampleMap [7] pr False = Inr sampleMap \<and>
      (\<forall>rem. Pollard_Verify samplePollard [7] pr rem = Inr ()))"
proof -
  have "7 = GetNumLeaves sampleMap" "7 = Pollard_GetNumLeaves samplePollard"
    by (simp_all add: GetNumLeaves_def sampleMap_def Pollard_GetNumLeaves_def sample_pollard(3))
  moreover have "minis_distinct (forest_hashes 7 sampleForest)" "cached sampleMap [7]" "set [7] \<subseteq> set (forest_leaves 7 sampleForest)" by code_simp+
  ultimately show ?thesis by (intro accumulators_agree[OF sample_map sample_pollard(4)]) auto
qed

text \<open>C13. GetHash of a full pollard returns, for every position of the forest, the hash of the node
  that is there, and the empty hash where nodes have moved up.\<close>

theorem Pollard_GetHash_correct:
  assumes "linked p T Fo" "n = Pollard_GetNumLeaves p" "F = Pollard_GetTreeRows p" "fits n F" "inForest pos n F = Inr True"
  shows "Pollard_GetHash p pos = Inr (label n F Fo pos)"
  using getHash_place[OF assms(1) _ _ assms(4,5)] assms(2,3)
  by (simp add: Pollard_GetHash_def Pollard_GetNumLeaves_def Pollard_GetTreeRows_def)

theorem Pollard_GetHash_correct_witness: "Pollard_GetHash samplePollard 12 = Inr (label 7 3 sampleForest 12)"
proof -
  have "7 = Pollard_GetNumLeaves samplePollard" "3 = Pollard_GetTreeRows samplePollard"
    using sample(3) by (simp_all add: Pollard_GetNumLeaves_def Pollard_GetTreeRows_def sample_pollard(3))
  moreover have "fits 7 3" "inForest 12 7 3 = Inr True" by code_simp+
  ultimately show ?thesis by (rule Pollard_GetHash_correct[OF sample_pollard(1)])
qed

text \<open>C14. GetProofSubset on a proof with sorted targets returns the hashes of the wanted targets, in
  the order they are wanted, with exactly the hashes that proofPositions asks for to prove them.\<close>

theorem GetProofSubset_sorted:
  assumes "targets_ok n F ts" "ascending ts" "F = treeRows n" "labels n F (climbs n F (set ts)) H"
    "set wants \<subseteq> set ts" "distinct wants" "proofPositions ts n F = Inr (ps, cs)"
    "proofPositions (sort wants) n F = Inr (qs, es)"
  shows "GetProofSubset \<lparr>Targets = ts, proofHashes = map H ps\<rparr> (Some (map H ts)) wants n =
    Inr (map H wants, \<lparr>Targets = wants, proofHashes = map H qs\<rparr>)"
proof -
  have s: "sort ts = ts" "distinct ts" using assms(2) by (auto simp: sort_key_id_if_sorted strict_sorted_iff)
  have w: "targets_ok n F wants" using targets_ok_subset[OF assms(1,5)] .
  have "ps = needed n F ts" "qs = needed n F wants"
    using assms(7,8) proofPositions_sort[OF assms(1) s(2)] proofPositions_sort[OF w assms(6)] s(1) by auto
  then show ?thesis using GetProofSubset_labelled[OF assms(1) s(2) assms(3-6), of H] s(1) by simp
qed

theorem GetProofSubset_sorted_witness:
  "GetProofSubset \<lparr>Targets = [6, 12], proofHashes = map (label 7 3 sampleForest) []\<rparr>
      (Some (map (label 7 3 sampleForest) [6, 12])) [12] 7 =
    Inr (map (label 7 3 sampleForest) [12], \<lparr>Targets = [12], proofHashes = map (label 7 3 sampleForest) []\<rparr>)"
proof -
  have c: "targets_ok 7 3 [6, 12]" "proofPositions [6, 12] 7 3 = Inr ([], [])" "fits 7 3"
    "\<forall>t \<in> set [6, 12]. node 7 3 t \<and> subtree_at 7 3 sampleForest t \<noteq> None" by code_simp+
  moreover have "proofPositions (sort [12]) 7 3 = Inr ([], [])" by code_simp
  ultimately show ?thesis
    using labels_forest[OF c(3) sample(5) c(4)] by (intro GetProofSubset_sorted[OF _ _ sample(3)]) auto
qed

text \<open>C15. GetMissingPositions returns, of the proof positions of the desired targets that are not yet
  proven, those that are neither in the proof at hand nor computable from it.\<close>

theorem GetMissingPositions_correct:
  assumes "targets_ok n F ts" "distinct ts" "targets_ok n F ds" "distinct ds" "F = treeRows n"
    "proofPositions (sort ts) n F = Inr (ps, cs)"
    "proofPositions (sort (filter (\<lambda>d. d \<notin> set ts) ds)) n F = Inr (qs, es)"
  shows "GetMissingPositions n ts ds = Inr (filter (\<lambda>p. p \<notin> set ps \<union> set ts \<union> set cs) qs)"
proof -
  let ?m = "filter (\<lambda>d. d \<notin> set ts) ds"
  have m: "targets_ok n F ?m" "distinct ?m" using targets_ok_subset[OF assms(3)] assms(4) by auto
  have "ps = needed n F ts" "qs = needed n F ?m" "set ts \<union> set cs = climbs n F (set ts)"
    using assms(6,7) proofPositions_sort[OF assms(1,2)] proofPositions_sort[OF m] set_computable(1)[OF assms(1)] by auto
  then show ?thesis using GetMissingPositions_eq[OF assms(1-5)] by (simp add: Un_assoc)
qed

theorem GetMissingPositions_correct_witness:
  "GetMissingPositions 7 [1] [2, 6] = Inr (filter (\<lambda>p. p \<notin> set [0, 9] \<union> set [1] \<union> set [8, 12]) [3, 8])"
proof -
  have "targets_ok 7 3 [1]" "targets_ok 7 3 [2, 6]" "(3 :: u8) = treeRows 7"
    "proofPositions (sort [1]) 7 3 = Inr ([0, 9], [8, 12])" by code_simp+
  moreover have "proofPositions (sort (filter (\<lambda>d. d \<notin> set [1]) [2, 6])) 7 3 = Inr ([3, 8], [9, 12])" by code_simp
  ultimately show ?thesis by (intro GetMissingPositions_correct) auto
qed

text \<open>C16. calculateHashes always ends on nodes of the forest: with fewer proof hashes than
  proofPositions asks for it panics, otherwise it returns the hashes at all positions from the
  targets to the roots and the hashes of the roots reached, computed row by row from the given
  ones.\<close>

theorem calculateHashes_outcome:
  assumes "targets_ok n F ts" "distinct ts" "F = treeRows n" "length dels = length ts"
    "proofPositions (sort ts) n F = Inr (ps, cs)" "K = computed n F ts dels (take (length ps) pf)"
  shows "calculateHashes n (Some dels) \<lparr>Targets = ts, proofHashes = pf\<rparr> =
    (if length pf < length ps then Inl Panic
     else Inr (\<lparr>positions = climbL n F ts, hashes = map K (climbL n F ts)\<rparr>,
            map (\<lambda>h. K (rootPosition n (of_nat h) F)) (touched n F ts)))"
proof -
  have ps: "ps = needed n F ts" using assms(5) proofPositions_sort[OF assms(1,2)] by simp
  show ?thesis
    using calculateHashes_run[OF assms(1-4), of pf K] calculateHashes_short[OF assms(1-4), of pf] assms(6)
    unfolding ps labelled_eq by auto
qed

theorem calculateHashes_outcome_witness:
  "calculateHashes 7 (Some [h4, 7]) \<lparr>Targets = [12, 6], proofHashes = [1]\<rparr> =
    (if length [1 :: Hash] < length ([] :: u64 list) then Inl Panic
     else Inr (\<lparr>positions = climbL 7 3 [12, 6],
              hashes = map (computed 7 3 [12, 6] [h4, 7] (take (length ([] :: u64 list)) [1])) (climbL 7 3 [12, 6])\<rparr>,
            map (\<lambda>h. computed 7 3 [12, 6] [h4, 7] (take (length ([] :: u64 list)) [1]) (rootPosition 7 (of_nat h) 3))
              (touched 7 3 [12, 6])))"
  by (rule calculateHashes_outcome[OF sample(1-3) _ sample(8)]) simp_all

text \<open>C17. proofPositions returns in ascending order the siblings of the positions between the targets
  and the roots that are not themselves such positions, and the positions computable from the
  targets.\<close>

theorem proofPositions_correct:
  assumes "targets_ok n F ts" "ascending ts" "C = climbs n F (set ts)"
  shows "\<exists>ps cs. proofPositions ts n F = Inr (ps, cs) \<and> ascending ps \<and> ascending cs \<and> set ts \<union> set cs = C \<and>
    set ps = {sibling c |c. c \<in> C \<and> \<not> isRootPositionTotalRows c n F \<and> sibling c \<notin> C}"
  using proofPositions_eq[OF assms(1,2)] set_computable[OF assms(1)] ascending_needed[OF assms(1)] set_needed[of n F ts]
  unfolding assms(3) needed_def by auto

theorem proofPositions_correct_witness:
  "\<exists>ps cs. proofPositions [1, 6] 7 3 = Inr (ps, cs) \<and> ascending ps \<and> ascending cs \<and>
    set [1, 6] \<union> set cs = climbs 7 3 (set [1, 6]) \<and>
    set ps = {sibling c |c. c \<in> climbs 7 3 (set [1, 6]) \<and> \<not> isRootPositionTotalRows c 7 3 \<and>
      sibling c \<notin> climbs 7 3 (set [1, 6])}"
proof -
  have "targets_ok 7 3 [1, 6]" by code_simp
  then show ?thesis by (intro proofPositions_correct) auto
qed

text \<open>C18. deTwin keeps positions that are nodes in ascending order, none under another, and the
  leaves they cover, and leaves no two siblings.\<close>

theorem deTwin_correct:
  assumes "targets_ok n F ds" "ascending ds" "rs = deTwin ds F"
  shows "targets_ok n F rs \<and> ascending rs \<and> covered n F rs = covered n F ds \<and>
    list_all (\<lambda>d. sibling d \<notin> set rs) rs"
  using deTwin_spec[OF assms(1,2)] unfolding assms(3) list_all_iff by blast

theorem deTwin_correct_witness:
  "targets_ok 7 3 [6, 12] \<and> ascending [6, 12 :: u64] \<and> covered 7 3 [6, 12] = covered 7 3 [0, 1, 6, 9] \<and>
    list_all (\<lambda>d. sibling d \<notin> set [6, 12]) [6, 12 :: u64]"
proof -
  have "targets_ok 7 3 [0, 1, 6, 9]" "[6, 12] = deTwin [0, 1, 6, 9] 3" by code_simp+
  then show ?thesis by (intro deTwin_correct) auto
qed

text \<open>C19. Read gives back what Write wrote of a map pollard that represents a forest, with the number
  of bytes written and the rest of the input left, when the nodes to be remembered are written
  last.\<close>

theorem Read_Write_roundtrip:
  assumes "represents m Fo" "map_of cs = CachedLeaves m" "distinct (map fst cs)" "map_of ns = Nodes m" "distinct (map fst ns)"
    "length cs < 2 ^ 63" "length ns < 2 ^ 63" "sorted (map (Remember \<circ> snd) ns)" "MapPollard_Write m cs ns = (out, written)"
  shows "MapPollard_Read (out @ rest) = Inr (m, written, rest)"
proof -
  note R = representsD[OF assms(1) refl refl]
  have "\<exists>l. Nodes m v = Some l \<and> leaf_Hash l = k" if c: "CachedLeaves m k = Some v" for k v
    using R(4)[of v] R(6,7)[OF c] by (auto simp: label_def)
  then show ?thesis using Read_Write[OF assms(2-7) _ assms(9)] sticky_last[OF assms(8)] assms(4) by simp
qed

theorem Read_Write_roundtrip_witness:
  "\<exists>out written. MapPollard_Write sampleMap [(7, 6)] [(18, \<lparr>leaf_Hash = empty, Remember = False\<rparr>),
      (24, \<lparr>leaf_Hash = h4, Remember = False\<rparr>), (6, \<lparr>leaf_Hash = 7, Remember = True\<rparr>)] = (out, written) \<and>
    MapPollard_Read (out @ [1, 2]) = Inr (sampleMap, written, [1, 2])"
proof -
  let ?cs = "[(7, 6)]" let ?ns = "[(18, \<lparr>leaf_Hash = empty, Remember = False\<rparr>), (24, \<lparr>leaf_Hash = h4, Remember = False\<rparr>), (6, \<lparr>leaf_Hash = 7, Remember = True\<rparr>)]"
  obtain out written where w: "MapPollard_Write sampleMap ?cs ?ns = (out, written)" by fastforce
  have "map_of ?ns = Nodes sampleMap" "map_of ?cs = CachedLeaves sampleMap" by (auto simp: sampleMap_def fun_eq_iff)
  then have "MapPollard_Read (out @ [1, 2]) = Inr (sampleMap, written, [1, 2])"
    by (intro Read_Write_roundtrip[OF sample_map _ _ _ _ _ _ _ w]) auto
  then show ?thesis using w by blast
qed

text \<open>C20. RestorePollardFrom gives back what WriteTo wrote of a full pollard of a forest: a pollard
  of the same forest with the same roots and counts, whose map leads to the leaves again, with the
  number of bytes written, which is what SerializeSize says, and the rest of the input left.\<close>

theorem Restore_WriteTo_roundtrip:
  assumes "pollard_of p Fo" "n = polNumLeaves p" "minis_distinct (forest_leaves n Fo)" "int (length (forest_leaves n Fo)) = sint (n - NumDels p)"
  shows "\<exists>bs p'. WriteTo p = Inr (bs, length bs) \<and> SerializeSize p = Some (int (length bs)) \<and>
    RestorePollardFrom (bs @ rest) = Inr (length bs, p', rest) \<and> pollard_of p' Fo \<and> Pollard_GetRoots p' = Pollard_GetRoots p \<and>
    polNumLeaves p' = n \<and> NumDels p' = NumDels p"
proof -
  obtain T where T: "linked p T Fo" and c: "unat n \<le> 2 ^ 63" "forest_ok n Fo" "forest_nonzero n Fo"
    using assms(1,2) by (auto simp: pollard_of_def)
  obtain bs where w: "WriteTo p = Inr (bs, length bs)" using WriteTo_linked[OF T assms(2) refl] by blast
  obtain p' T' where p': "RestorePollardFrom (bs @ rest) = Inr (length bs, p', rest)" "linked p' T' Fo" "indexed p' T'"
    "polNumLeaves p' = n" "NumDels p' = NumDels p"
    using Restore_linked[OF T assms(2) w forest_nonzero_leaves[OF c(3)] assms(3,4)] by blast
  have "pollard_of p' Fo" using p'(2-4) c by (auto simp: pollard_of_def)
  moreover have "Pollard_GetRoots p' = Pollard_GetRoots p" using GetRoots_linked[OF T] GetRoots_linked[OF p'(2)] p'(4) assms(2) by simp
  ultimately show ?thesis using w SerializeSize_linked[OF T w] p'(1,4,5) by blast
qed

theorem Restore_WriteTo_roundtrip_witness:
  "\<exists>bs p'. WriteTo samplePollard = Inr (bs, length bs) \<and> SerializeSize samplePollard = Some (int (length bs)) \<and>
    RestorePollardFrom (bs @ [1, 2]) = Inr (length bs, p', [1, 2]) \<and> pollard_of p' sampleForest \<and>
    Pollard_GetRoots p' = Pollard_GetRoots samplePollard \<and> polNumLeaves p' = 7 \<and> NumDels p' = NumDels samplePollard"
proof -
  have "NumDels samplePollard = 5" by (simp add: samplePollard_def Let_def)
  moreover have "minis_distinct (forest_leaves 7 sampleForest)" "int (length (forest_leaves 7 sampleForest)) = sint (7 - 5 :: u64)" by code_simp+
  ultimately show ?thesis by (intro Restore_WriteTo_roundtrip[OF sample_pollard(4) sample_pollard(3)[symmetric]]) simp_all
qed

text \<open>C21. rootsToDestory returns the positions, in the grown forest, of the empty roots that adding
  the given number of leaves merges into a larger tree, from the lowest row up.\<close>

theorem rootsToDestory_correct:
  assumes "unat n + m \<le> 2 ^ 63"
  shows "rootsToDestory (of_nat m) n (map g (rows n)) =
    Inr (map (\<lambda>h. rootPosition n (of_nat h) (treeRows (n + of_nat m))) (destroyed n m g))"
  by (rule rootsToDestory_eq[OF assms])

theorem rootsToDestory_correct_witness:
  "rootsToDestory (of_nat 3) 5 (map (\<lambda>h. if h = 0 then empty else 1) (rows 5)) =
    Inr (map (\<lambda>h. rootPosition 5 (of_nat h) (treeRows (5 + of_nat 3))) (destroyed 5 3 (\<lambda>h. if h = 0 then empty else 1)))"
  by (rule rootsToDestory_correct) simp

text \<open>C22. proofPosition, which walks up from one position, returns for every node of the forest the
  same positions as proofPositions for that position alone.\<close>

theorem proofPosition_proofPositions:
  assumes "fits n F" "inForest t n F = Inr True"
  shows "\<exists>ps cs. proofPosition t n F = Inr ps \<and> proofPositions [t] n F = Inr (ps, cs)"
  using proofPosition_eq[OF assms] proofPositions_sort[OF single_ok[OF assms]] by simp

theorem proofPosition_proofPositions_witness:
  "\<exists>ps cs. proofPosition 1 7 3 = Inr ps \<and> proofPositions [1] 7 3 = Inr (ps, cs)"
proof -
  have "fits 7 3" "inForest 1 7 3 = Inr True" by code_simp+
  then show ?thesis by (rule proofPosition_proofPositions)
qed

text \<open>C23. A position at or under the sibling of a deleted position moves up one row by
  calcNextPosition, and calcPrevPosition moves it back to where it was.\<close>

theorem calcPrevPosition_calcNextPosition:
  assumes "unat F \<le> 63" "unat p < 2 ^ (unat F + 1) - 1" "unat d < 2 ^ (unat F + 1) - 1" "detectRow d F < F"
    "p = sibling d \<or> isAncestor (sibling d) p F"
  shows "\<exists>q. calcNextPosition p d F = Inr q \<and> calcPrevPosition q d F = p \<and> detectRow q F = detectRow p F + 1"
proof -
  let ?f = "unat F"
  obtain r o' where p: "valid_pos ?f r o'" "p = posn ?f r o'" "unat (detectRow p F) = r" "r \<le> ?f"
    using position_cases[OF assms(1,2)] .
  obtain s e where d: "valid_pos ?f s e" "d = posn ?f s e" "unat (detectRow d F) = s" "s \<le> ?f"
    using position_cases[OF assms(1,3)] .
  have s: "s < ?f" using assms(4) d(3) by (simp add: word_less_nat_alt)
  let ?e = "if even e then e + 1 else e - 1"
  have vs: "valid_pos ?f s ?e" and sd: "sibling d = posn ?f s ?e"
    using valid_pos_sib[OF d(1) s] sibling_posn[OF d(1) s assms(1)] d(2) by (auto elim!: oddE)
  have rs: "r \<le> s" "o' div 2 ^ (s - r) = ?e"
  proof -
    have "r \<le> s \<and> o' div 2 ^ (s - r) = ?e"
    proof (cases "p = sibling d")
      case True
      then have "r = s \<and> o' = ?e" using posn_inject[OF p(1) vs assms(1)] p(2) sd by simp
      then show ?thesis by simp
    next
      case False
      then show ?thesis using assms(5) isAncestor_posn[OF vs p(1) assms(1)] unfolding sd p(2) by auto
    qed
    then show "r \<le> s" "o' div 2 ^ (s - r) = ?e" by auto
  qed
  let ?q = "posn ?f (Suc r) (rmBit (s - r) o')"
  have vq: "valid_pos ?f (Suc r) (rmBit (s - r) o')" by (rule rmBit_valid[OF p(1) rs(1) s])
  have "odd (o' div 2 ^ (s - r)) = even e" unfolding rs(2) by (cases "even e") (auto elim!: oddE)
  then have "calcPrevPosition ?q d F = p"
    using calcPrevPosition_posn[OF vq d(1) rs(1) s assms(1)] insBit_rmBit p(2) d(2) by simp
  moreover have "calcNextPosition p d F = Inr ?q"
    using calcNextPosition_posn[OF p(1) d(1) rs(1) s assms(1)] p(2) d(2) by simp
  moreover have "detectRow ?q F = detectRow p F + 1"
    using detectRow_posn[OF vq assms(1)] detectRow_posn[OF p(1) assms(1)] p(2) by (simp add: add.commute)
  ultimately show ?thesis by blast
qed

theorem calcPrevPosition_calcNextPosition_witness:
  "\<exists>q. calcNextPosition 2 8 3 = Inr q \<and> calcPrevPosition q 8 3 = 2 \<and> detectRow q 3 = detectRow 2 3 + 1"
proof -
  have "detectRow 8 3 < 3" "isAncestor (sibling 8) 2 3" by code_simp+
  then show ?thesis by (intro calcPrevPosition_calcNextPosition) auto
qed

text \<open>C24. isAncestor, which compares positions by bit arithmetic, holds exactly when some number of
  parent steps leads from the lower position to the higher one.\<close>

theorem isAncestor_parents:
  assumes "unat F \<le> 63" "unat a < 2 ^ (unat F + 1) - 1" "unat b < 2 ^ (unat F + 1) - 1"
  shows "isAncestor a b F \<longleftrightarrow>
    (\<exists>k > 0. k \<le> unat F - unat (detectRow b F) \<and> ((\<lambda>x. parent x F) ^^ k) b = a)"
proof -
  let ?f = "unat F"
  obtain s e where a: "valid_pos ?f s e" "a = posn ?f s e" "unat (detectRow a F) = s" "s \<le> ?f"
    using position_cases[OF assms(1,2)] .
  obtain r o' where b: "valid_pos ?f r o'" "b = posn ?f r o'" "unat (detectRow b F) = r" "r \<le> ?f"
    using position_cases[OF assms(1,3)] .
  have up: "k \<le> ?f - r \<Longrightarrow> ((\<lambda>x. parent x F) ^^ k) b = posn ?f (r + k) (o' div 2 ^ k) \<and> valid_pos ?f (r + k) (o' div 2 ^ k)" for k
  proof (induction k)
    case 0 then show ?case using b by simp
  next
    case (Suc k)
    then have "((\<lambda>x. parent x F) ^^ k) b = posn ?f (r + k) (o' div 2 ^ k)" and v: "valid_pos ?f (r + k) (o' div 2 ^ k)" by auto
    moreover have "r + k < ?f" using Suc.prems b(4) by simp
    ultimately show ?case
      using parent_posn[OF v] valid_pos_parent[OF v] assms(1) by (simp add: div_mult2_eq[symmetric] mult.commute)
  qed
  have "isAncestor a b F \<longleftrightarrow> r < s \<and> e = o' div 2 ^ (s - r)"
    using isAncestor_posn[OF a(1) b(1) assms(1)] a(2) b(2) by simp
  also have "\<dots> \<longleftrightarrow> (\<exists>k > 0. k \<le> ?f - r \<and> ((\<lambda>x. parent x F) ^^ k) b = a)"
  proof
    assume "r < s \<and> e = o' div 2 ^ (s - r)"
    then show "\<exists>k > 0. k \<le> ?f - r \<and> ((\<lambda>x. parent x F) ^^ k) b = a"
      using up[of "s - r"] a by (intro exI[of _ "s - r"]) auto
  next
    assume "\<exists>k > 0. k \<le> ?f - r \<and> ((\<lambda>x. parent x F) ^^ k) b = a"
    then obtain k where k: "k > 0" "k \<le> ?f - r" "((\<lambda>x. parent x F) ^^ k) b = a" by blast
    then have "r + k = s \<and> o' div 2 ^ k = e"
      using up[OF k(2)] a posn_inject[OF conjunct2[OF up[OF k(2)]] a(1) assms(1)] by simp
    then show "r < s \<and> e = o' div 2 ^ (s - r)" using k(1) by auto
  qed
  finally show ?thesis using b(3) by simp
qed

theorem isAncestor_parents_witness:
  "isAncestor 12 1 3 \<longleftrightarrow> (\<exists>k > 0. k \<le> unat (3 :: u8) - unat (detectRow 1 3) \<and> ((\<lambda>x. parent x 3) ^^ k) 1 = 12)"
  by (rule isAncestor_parents) simp_all

text \<open>C25. inForest ends on every position of the rows of the forest, and returns true exactly for the
  roots of RootPositions and the positions under them.\<close>

theorem inForest_iff_under_root:
  assumes "fits n F" "unat p < 2 ^ (unat F + 1) - 1"
  shows "inForest p n F = Inr (\<exists>q \<in> set (RootPositions n F). p = q \<or> isAncestor q p F)"
proof -
  have f: "unat F \<le> 63" "unat n \<le> 2 ^ unat F" using assms(1) by (auto simp: fits_def)
  obtain r o' where v: "valid_pos (unat F) r o'" "p = posn (unat F) r o'" using position_cases[OF f(1) assms(2)] .
  have "(\<exists>q \<in> set (RootPositions n F). p = q \<or> isAncestor q p F)" if nd: "node n F p"
  proof -
    obtain h s k where p: "place n F p h s k" using node_place[OF assms(1) nd] .
    then have "bit n h" by (simp add: place_def in_tree_def bit_unat_iff)
    then show ?thesis using under_root[OF assms(1) p] by (force simp: RootPositions_rows[OF assms(1)] rows_iff)
  qed
  moreover have "in_forest (unat n) r o'" if q: "q \<in> set (RootPositions n F)" "p = q \<or> isAncestor q p F" for q
  proof -
    obtain h where h: "bit n h" "q = rootPosition n (of_nat h) F" using q(1) by (auto simp: RootPositions_rows[OF assms(1)] rows_iff)
    note rp = root_place[OF assms(1) h(1)]
    have vq: "valid_pos (unat F) h (2 * (unat n div 2 ^ Suc h))" "q = posn (unat F) h (2 * (unat n div 2 ^ Suc h))"
      using place_row(4)[OF assms(1) rp] rp h(2) by (auto simp: place_def)
    have "r \<le> h \<and> o' div 2 ^ (h - r) = 2 * (unat n div 2 ^ Suc h)"
    proof (cases "p = q")
      case True
      then show ?thesis using posn_inject[OF v(1) vq(1) f(1)] v(2) vq(2) by simp
    next
      case False
      then show ?thesis using q(2) isAncestor_posn[OF vq(1) v(1) f(1)] v(2) vq(2) by simp
    qed
    then have "in_tree (unat n) h r o'" using h(1) by (simp add: in_tree_def bit_unat_iff)
    then show ?thesis by (rule in_tree_in_forest)
  qed
  moreover have "inForest p n F = Inr (in_forest (unat n) r o')" using inForest_posn[OF v(1) f] v(2) by simp
  ultimately show ?thesis by auto
qed

theorem inForest_iff_under_root_witness:
  "inForest 13 7 3 = Inr (\<exists>q \<in> set (RootPositions 7 3). 13 = q \<or> isAncestor q 13 3)"
proof -
  have "fits 7 3" by code_simp
  then show ?thesis by (rule inForest_iff_under_root) simp
qed

text \<open>C26. RootPositions returns as many positions as numRoots counts, in descending order, and they
  are exactly the nodes that isRootPositionTotalRows accepts.\<close>

theorem RootPositions_correct:
  assumes "fits n F"
  shows "length (RootPositions n F) = unat (numRoots n) \<and> sorted_wrt (>) (RootPositions n F) \<and>
    set (RootPositions n F) = {p. inForest p n F = Inr True \<and> isRootPositionTotalRows p n F}"
proof -
  have f: "unat F \<le> 63" "unat n \<le> 2 ^ unat F" using assms by (auto simp: fits_def)
  have lt: "rootPosition n (of_nat g) F < rootPosition n (of_nat h) F" if "g < h" "bit n g" "bit n h" for g h
    using node_less_iff[OF assms root_place[OF assms that(2)] root_place[OF assms that(3)]] that(1) by simp
  have "sorted_wrt (>) (rows n)" using sorted_rows[of n] by (simp add: rows_def sorted_wrt_rev)
  then have "sorted_wrt (\<lambda>g h. rootPosition n (of_nat h) F < rootPosition n (of_nat g) F) (rows n)"
    using lt by (intro sorted_wrt_mono_rel[OF _ \<open>sorted_wrt (>) (rows n)\<close>]) (auto simp: rows_iff)
  moreover have "p \<in> set (RootPositions n F) \<longleftrightarrow> node n F p \<and> root n F p" for p
  proof
    assume "p \<in> set (RootPositions n F)"
    then obtain h where h: "bit n h" "p = rootPosition n (of_nat h) F" by (auto simp: RootPositions_rows[OF assms] rows_iff)
    show "node n F p \<and> root n F p"
      using place_row(7)[OF assms root_place[OF assms h(1)]] root_iff(1)[OF assms root_place[OF assms h(1)]] h(2) by simp
  next
    assume a: "node n F p \<and> root n F p"
    then obtain h r k where p: "place n F p h r k" using node_place[OF assms] by blast
    then have "r = h" "bit n h" using root_iff(1)[OF assms p] a by (auto simp: place_def in_tree_def bit_unat_iff)
    moreover have "p = rootPosition n (of_nat h) F" using place_root[OF assms] p calculation(1) by simp
    ultimately show "p \<in> set (RootPositions n F)" by (simp add: RootPositions_rows[OF assms] rows_iff)
  qed
  ultimately show ?thesis
    using length_RootPositions[OF f] by (auto simp: RootPositions_rows[OF assms] sorted_wrt_map)
qed

theorem RootPositions_correct_witness:
  "length (RootPositions 7 3) = unat (numRoots 7) \<and> sorted_wrt (>) (RootPositions 7 3) \<and>
    set (RootPositions 7 3) = {p. inForest p 7 3 = Inr True \<and> isRootPositionTotalRows p 7 3}"
proof -
  have "fits 7 3" by code_simp
  then show ?thesis by (rule RootPositions_correct)
qed

text \<open>C27. getRootPosition returns for every node of the forest, without an error, the root position
  that the node lies at or under.\<close>

theorem getRootPosition_correct:
  assumes "fits n F" "inForest p n F = Inr True"
  shows "\<exists>q. getRootPosition p n F = Inr q \<and> q \<in> set (RootPositions n F) \<and> (p = q \<or> isAncestor q p F)"
proof -
  obtain h r k where p: "place n F p h r k" using node_place[OF assms] .
  then have "bit n h" by (simp add: place_def in_tree_def bit_unat_iff)
  then show ?thesis
    using getRootPosition_place[OF assms(1) p] under_root[OF assms(1) p] by (auto simp: RootPositions_rows[OF assms(1)] rows_iff)
qed

theorem getRootPosition_correct_witness:
  "\<exists>q. getRootPosition 9 7 3 = Inr q \<and> q \<in> set (RootPositions 7 3) \<and> (9 = q \<or> isAncestor q 9 3)"
proof -
  have "fits 7 3" "inForest 9 7 3 = Inr True" by code_simp+
  then show ?thesis by (rule getRootPosition_correct)
qed

text \<open>C28. detectOffset returns for every node the index of its root among the root positions and the
  number of rows between the node and that root.\<close>

theorem detectOffset_correct:
  assumes "unat n \<le> 2 ^ 63" "F = treeRows n" "inForest p n F = Inr True"
  shows "\<exists>b l bits q. detectOffset p n = Inr (b, l, bits) \<and> unat b < length (RootPositions n F) \<and>
    RootPositions n F ! unat b = q \<and> getRootPosition p n F = Inr q \<and>
    unat l + unat (detectRow p F) = unat (detectRow q F)"
proof -
  have fit: "fits n F" using treeRows_least[OF assms(1)] le_treeRows[of n] assms(2) by (simp add: fits_def)
  obtain h r k where p: "place n F p h r k" using node_place[OF fit assms(3)] .
  note pr = place_row[OF fit p] and b63 = place_63[OF fit p]
  have b: "bit n h" using p by (simp add: place_def in_tree_def bit_unat_iff)
  note rn = rows_nth[OF b]
  have "length (rows n) \<le> 64" using length_filter_le[of "bit n" "[0..<64]"] by (simp add: rows_def)
  then have ub: "unat (of_nat (bigger_trees (unat n) h) :: u8) = bigger_trees (unat n) h" using rn by (intro unat_u8_of_nat) simp
  obtain bits where o: "detectOffset p n = Inr (of_nat (bigger_trees (unat n) h), of_nat (h - r), bits)"
    using detectOffset_posn[of n h r k] p fit assms(2) by (auto simp: place_def fits_def)
  have "detectRow (rootPosition n (of_nat h) F) F = of_nat h" using place_row(5)[OF fit root_place[OF fit b]] .
  then show ?thesis
    using o ub rn getRootPosition_place[OF fit p] pr(1,5) b63 by (auto simp: RootPositions_rows[OF fit] simp del: of_nat_diff)
qed

theorem detectOffset_correct_witness:
  "\<exists>b l bits q. detectOffset 4 7 = Inr (b, l, bits) \<and> unat b < length (RootPositions 7 3) \<and>
    RootPositions 7 3 ! unat b = q \<and> getRootPosition 4 7 3 = Inr q \<and>
    unat l + unat (detectRow 4 3) = unat (detectRow q 3)"
proof -
  have "(3 :: u8) = treeRows 7" "inForest 4 7 3 = Inr True" by code_simp+
  then show ?thesis by (intro detectOffset_correct) auto
qed

text \<open>C29. translatePos to a forest with more rows keeps the row of a position, and translating back
  gives the position again.\<close>

theorem translatePos_roundtrip:
  assumes "unat F \<le> unat G" "unat G \<le> 63" "unat p < 2 ^ (unat F + 1) - 1"
  shows "translatePos (translatePos p F G) G F = p \<and> detectRow (translatePos p F G) G = detectRow p F"
proof -
  have F: "unat F \<le> 63" using assms(1,2) by simp
  obtain r o' where p: "valid_pos (unat F) r o'" "p = posn (unat F) r o'" "r \<le> unat F"
    using position_cases[OF F assms(3)] .
  have "2 ^ (unat F - r) \<le> (2::nat) ^ (unat G - r)" using assms(1) by (intro power_increasing) auto
  then have v: "valid_pos (unat G) r o'" using p(1) assms(1) unfolding valid_pos_def by (meson le_trans less_le_trans)
  show ?thesis
    using translatePos_posn[OF p(1) F, of G] translatePos_posn[OF v assms(2), of F] detectRow_posn[OF v assms(2)]
      detectRow_posn[OF p(1) F] p(2,3) assms(1) by simp
qed

theorem translatePos_roundtrip_witness:
  "translatePos (translatePos 9 3 5) 5 3 = 9 \<and> detectRow (translatePos 9 3 5) 5 = detectRow 9 3"
  by (rule translatePos_roundtrip) simp_all

text \<open>C30. treeRows returns the least number of rows whose bottom row has room for the leaves.\<close>

theorem treeRows_minimal: "unat n \<le> 2 ^ k \<longleftrightarrow> unat (treeRows n) \<le> k"
proof
  assume "unat (treeRows n) \<le> k"
  then have "(2::nat) ^ unat (treeRows n) \<le> 2 ^ k" by (intro power_increasing) auto
  then show "unat n \<le> 2 ^ k" using le_treeRows[of n] by linarith
qed (rule treeRows_least)

text \<open>C31. Going down from a node to either child and back up is the identity: at every position above
  the bottom row of a forest of at most 63 rows, the parent of the left child and the parent of
  the right child are the position itself.\<close>

theorem parent_of_children:
  assumes "unat F \<le> 63" "unat p < 2 ^ (unat F + 1) - 1" "detectRow p F \<noteq> 0"
  shows "parent (leftChild p F) F = p \<and> parent (rightChild p F) F = p"
proof -
  obtain r o' where v: "valid_pos (unat F) r o'" and p: "p = posn (unat F) r o'"
    using posn_exists[OF assms(2,1)] .
  then obtain s where r: "r = Suc s" using assms detectRow_posn[OF v] by (cases r) auto
  show ?thesis
    using v valid_pos_child[of "unat F" s o'] assms(1) unfolding p r
    by (simp add: leftChild_posn rightChild_posn parent_posn)
qed

theorem parent_of_children_witness:
  "parent (leftChild 12 3) 3 = 12 \<and> parent (rightChild 12 3) 3 = 12"
proof -
  have "detectRow 12 3 \<noteq> 0" by code_simp
  then show ?thesis by (intro parent_of_children) simp_all
qed

text \<open>C32. mergeSortedHashAndPos returns the union of two slices in ascending order of positions, with
  the hash of the first slice where both have the position.\<close>

theorem mergeSortedHashAndPos_correct:
  assumes "hnp_ok a" "hnp_ok b" "ascending (positions a)" "ascending (positions b)"
  shows "\<exists>c. mergeSortedHashAndPos a b = Inr c \<and> hnp_ok c \<and> ascending (positions c) \<and>
    set (positions c) = set (positions a) \<union> set (positions b) \<and>
    map_of (pairs c) = map_of (pairs b) ++ map_of (pairs a)"
proof -
  define x y where xy: "x = pairs a" "y = pairs b"
  have ab: "a = of_pairs x" "b = of_pairs y" using assms(1,2) of_pairs_pairs by (auto simp: xy)
  have asc: "ascending (map fst x)" "ascending (map fst y)" using assms(3,4) by (auto simp: ab)
  note k = mhp.merge_keys[OF asc] and s = mhp.merge_set[OF asc]
  have d: "distinct (map fst x)" "distinct (map fst y)" "distinct (map fst (merge_pairs x y))"
    using asc k by (auto simp: strict_sorted_iff)
  have mo: "map_of (merge_pairs x y) p = (map_of y ++ map_of x) p" for p
  proof (cases "map_of x p")
    case None
    then have "p \<notin> fst ` set x" by (simp add: map_of_eq_None_iff)
    then have "(p, v) \<in> set (merge_pairs x y) \<longleftrightarrow> (p, v) \<in> set y" for v unfolding s by force
    then have "map_of (merge_pairs x y) p = map_of y p"
      using map_of_eq_Some_iff[OF d(2)] map_of_eq_Some_iff[OF d(3)] by (metis not_None_eq)
    then show ?thesis using None by (simp add: map_add_def)
  next
    case (Some v)
    then have "(p, v) \<in> set (merge_pairs x y)" unfolding s using map_of_SomeD by fastforce
    then show ?thesis using Some map_of_eq_Some_iff[OF d(3)] by simp
  qed
  show ?thesis
    using mergeSortedHashAndPos_pairs[of x y] k by (intro exI[of _ "of_pairs (merge_pairs x y)"]) (auto simp: ab mo)
qed

theorem mergeSortedHashAndPos_correct_witness:
  "\<exists>c. mergeSortedHashAndPos \<lparr>positions = [1, 3], hashes = [10, 30]\<rparr> \<lparr>positions = [2, 3], hashes = [20, 31]\<rparr> = Inr c \<and>
    hnp_ok c \<and> ascending (positions c) \<and>
    set (positions c) = set (positions \<lparr>positions = [1, 3], hashes = [10, 30]\<rparr>) \<union>
      set (positions \<lparr>positions = [2, 3], hashes = [20, 31]\<rparr>) \<and>
    map_of (pairs c) = map_of (pairs \<lparr>positions = [2, 3], hashes = [20, 31]\<rparr>) ++
      map_of (pairs \<lparr>positions = [1, 3], hashes = [10, 30]\<rparr>)"
  by (rule mergeSortedHashAndPos_correct) (simp_all add: hnp_ok_def)

text \<open>C33. subtractSortedHashAndPos removes exactly the pairs whose position is in the second slice
  and keeps the order of the others.\<close>

theorem subtractSortedHashAndPos_correct:
  assumes "hnp_ok a" "ascending (positions a)" "sorted b"
  shows "\<exists>c. subtractSortedHashAndPos a b uint64Cmp = Inr c \<and> hnp_ok c \<and>
    pairs c = filter (\<lambda>x. fst x \<notin> set b) (pairs a)"
proof -
  have "a = of_pairs (pairs a)" using of_pairs_pairs[OF assms(1)] by simp
  then show ?thesis
    using subtractSortedHashAndPos_filter[of "pairs a" b] assms(2,3) by (metis of_pairs_simps(1,4,5))
qed

theorem subtractSortedHashAndPos_correct_witness:
  "\<exists>c. subtractSortedHashAndPos \<lparr>positions = [1, 3], hashes = [10, 30]\<rparr> [0, 3] uint64Cmp = Inr c \<and> hnp_ok c \<and>
    pairs c = filter (\<lambda>x. fst x \<notin> set [0, 3]) (pairs \<lparr>positions = [1, 3], hashes = [10, 30]\<rparr>)"
  by (rule subtractSortedHashAndPos_correct) (simp_all add: hnp_ok_def)

text \<open>C34. removeDuplicateUint64Func keeps the elements in their order, with one element for each key
  that occurs.\<close>

theorem removeDuplicateUint64Func_correct:
  "get ` set (removeDuplicateUint64Func xs get) = get ` set xs \<and>
   distinct (map get (removeDuplicateUint64Func xs get)) \<and> subseq (removeDuplicateUint64Func xs get) xs"
  using removeDuplicateUint64Func_loop_keys[of get "[]" xs] removeDuplicateUint64Func_loop_distinct[of get "[]" xs]
    removeDuplicateUint64Func_loop_subseq[of get "[]" xs]
  by (simp add: removeDuplicateUint64Func_def)

text \<open>C35. insertInOrder keeps a sorted slice sorted and adds exactly the new element.\<close>

theorem insertInOrder_correct:
  assumes "sorted dels"
  shows "sorted (insertInOrder dels el) \<and> set (insertInOrder dels el) = insert el (set dels) \<and>
    length (insertInOrder dels el) = Suc (length dels)"
  using insertInOrder_sorted[OF assms] by simp

theorem insertInOrder_correct_witness:
  "sorted (insertInOrder [1, 4, 9] 5) \<and> set (insertInOrder [1, 4, 9] 5) = insert 5 (set [1, 4, 9]) \<and>
    length (insertInOrder [1, 4, 9] 5) = Suc (length [1, 4, 9 :: u64])"
  by (rule insertInOrder_correct) simp

text \<open>C36. When every target lies above the positions of the forest, Verify never returns: the loop
  that looks for the row of a target has no row to stop at.\<close>

theorem Verify_diverges:
  assumes "ts \<noteq> []" "distinct ts" "length dels = length ts" "unat (treeRows (NumLeaves s)) < 63"
    "\<forall>t \<in> set ts. 2 ^ (unat (treeRows (NumLeaves s)) + 1) \<le> unat t"
  shows "Verify s dels \<lparr>Targets = ts, proofHashes = pf\<rparr> = Inl Diverge"
  using calculateHashes_diverges[OF assms] by (intro Verify_mismatch) (simp_all add: assms(3))

theorem Verify_diverges_witness:
  "Verify \<lparr>Roots = [5], NumLeaves = 2\<rparr> [1] \<lparr>Targets = [4], proofHashes = []\<rparr> = Inl Diverge"
proof -
  have "unat (treeRows (NumLeaves \<lparr>Roots = [5], NumLeaves = 2\<rparr>)) = 1" by code_simp
  then show ?thesis by (intro Verify_diverges) auto
qed

text \<open>C37. A proof with fewer hashes than its targets need makes Verify panic with an index out of
  range, whatever the hashes are.\<close>

theorem Verify_short_panics:
  assumes "targets_ok n F ts" "distinct ts" "F = treeRows n" "length dels = length ts"
    "proofPositions (sort ts) n F = Inr (ps, cs)" "length pf < length ps" "NumLeaves s = n"
  shows "Verify s dels \<lparr>Targets = ts, proofHashes = pf\<rparr> = Inl Panic"
  using calculateHashes_short[OF assms(1-4), of pf] assms(4-7) proofPositions_sort[OF assms(1,2)]
  by (intro Verify_mismatch) simp_all

theorem Verify_short_panics_witness:
  "Verify \<lparr>Roots = [5], NumLeaves = 2\<rparr> [1] \<lparr>Targets = [0], proofHashes = []\<rparr> = Inl Panic"
proof -
  have "targets_ok 2 1 [0]" "(1 :: u8) = treeRows 2" "proofPositions (sort [0]) 2 1 = Inr ([1], [2])" by code_simp+
  then show ?thesis by (intro Verify_short_panics[of 2 1 "[0]"]) auto
qed

text \<open>C38. A proof made of empty hashes passes the claimed hash on unchanged: Verify accepts the hash
  of any root of the stump as the hash of any node of the forest, and Stump.del then empties that
  root.\<close>

theorem Verify_empty_hashes:
  assumes "fits (NumLeaves s) F" "F = treeRows (NumLeaves s)" "inForest t (NumLeaves s) F = Inr True"
    "x \<in> set (Roots s)" "proofPosition t (NumLeaves s) F = Inr ps"
    "pr = \<lparr>Targets = [t], proofHashes = replicate (length ps) empty\<rparr>"
  shows "\<exists>j < length (Roots s). Roots s ! j = x \<and> Verify s [x] pr = Inr [j] \<and>
    (\<exists>hs qs. Stump_del s [x] pr = Inr (s\<lparr>Roots := (Roots s)[j := empty]\<rparr>, hs, qs))"
  using Verify_empty_proof[OF assms(1-4)] assms(5,6) proofPosition_eq[OF assms(1,3)] by simp

theorem Verify_empty_hashes_witness:
  "\<exists>j < length (Roots \<lparr>Roots = [5, 6], NumLeaves = 3\<rparr>). Roots \<lparr>Roots = [5, 6], NumLeaves = 3\<rparr> ! j = 5 \<and>
    Verify \<lparr>Roots = [5, 6], NumLeaves = 3\<rparr> [5] \<lparr>Targets = [2], proofHashes = replicate (length ([] :: u64 list)) empty\<rparr> = Inr [j] \<and>
    (\<exists>hs qs. Stump_del \<lparr>Roots = [5, 6], NumLeaves = 3\<rparr> [5] \<lparr>Targets = [2], proofHashes = replicate (length ([] :: u64 list)) empty\<rparr> =
      Inr (\<lparr>Roots = [5, 6], NumLeaves = 3\<rparr>\<lparr>Roots := (Roots \<lparr>Roots = [5, 6], NumLeaves = 3\<rparr>)[j := empty]\<rparr>, hs, qs))"
proof -
  have "fits 3 2" "(2 :: u8) = treeRows 3" "inForest 2 3 2 = Inr True" "proofPosition 2 3 2 = Inr []" by code_simp+
  then show ?thesis by (intro Verify_empty_hashes[where F = 2]) auto
qed

text \<open>C39. The remember flag that Write sets for a node is not cleared: every node written after a
  remembered one is remembered when it is read back, whether it was before or not.\<close>

theorem Write_remembers_rest:
  assumes "represents m Fo" "map_of cs = CachedLeaves m" "distinct (map fst cs)"
    "map_of (ns @ (p, l) # ns') = Nodes m" "distinct (map fst (ns @ (p, l) # ns'))"
    "length cs < 2 ^ 63" "length (ns @ (p, l) # ns') < 2 ^ 63" "Remember l" "q \<in> fst ` set ns'"
    "MapPollard_Write m cs (ns @ (p, l) # ns') = (out, written)"
  shows "\<exists>m' l'. MapPollard_Read out = Inr (m', written, []) \<and> Nodes m' q = Some l' \<and> Remember l'"
proof -
  note R = representsD[OF assms(1) refl refl]
  let ?ns = "ns @ (p, l) # ns'"
  have c: "\<forall>k v. CachedLeaves m k = Some v \<longrightarrow> (\<exists>l. Nodes m v = Some l \<and> leaf_Hash l = k)"
    using R(4,6,7) by (fastforce simp: label_def)
  have "MapPollard_Read (out @ []) = Inr (m\<lparr>Nodes := map_of (sticky False ?ns)\<rparr>, written, [])" by (rule Read_Write[OF assms(2-7) c assms(10)])
  moreover have "\<exists>l'. map_of (sticky False ?ns) q = Some l' \<and> Remember l'"
  proof -
    have q: "map_of (sticky b ns) q = None" for b
      using assms(5,9) by (auto simp: map_of_eq_None_iff simp flip: set_map)
    obtain l0 where "map_of ns' q = Some l0" using assms(9) by (metis domIff dom_map_of_conv_image_fst not_None_eq)
    moreover have "p \<noteq> q" using assms(5,9) by auto
    ultimately show ?thesis using assms(8) q by (auto simp: sticky_append map_add_def sticky_True)
  qed
  ultimately show ?thesis by auto
qed

theorem Write_remembers_rest_witness:
  "\<exists>out written m' l'. MapPollard_Write sampleMap [(7, 6)] ([] @ (6, \<lparr>leaf_Hash = 7, Remember = True\<rparr>) #
      [(18, \<lparr>leaf_Hash = empty, Remember = False\<rparr>), (24, \<lparr>leaf_Hash = h4, Remember = False\<rparr>)]) = (out, written) \<and>
    MapPollard_Read out = Inr (m', written, []) \<and> Nodes m' 24 = Some l' \<and> Remember l'"
proof -
  let ?ns' = "[(18, \<lparr>leaf_Hash = empty, Remember = False\<rparr>), (24, \<lparr>leaf_Hash = h4, Remember = False\<rparr>)]"
  obtain out written where w: "MapPollard_Write sampleMap [(7, 6)] ([] @ (6, \<lparr>leaf_Hash = 7, Remember = True\<rparr>) # ?ns') = (out, written)" by fastforce
  have "map_of ([] @ (6, \<lparr>leaf_Hash = 7, Remember = True\<rparr>) # ?ns') = Nodes sampleMap" "map_of [(7, 6)] = CachedLeaves sampleMap"
    by (auto simp: sampleMap_def fun_eq_iff)
  then have "\<exists>m' l'. MapPollard_Read out = Inr (m', written, []) \<and> Nodes m' 24 = Some l' \<and> Remember l'"
    by (intro Write_remembers_rest[OF sample_map _ _ _ _ _ _ _ _ w]) auto
  then show ?thesis using w by blast
qed

text \<open>C40. GetProofSubset on two targets in descending order returns the hash of the other target for
  the wanted one.\<close>

theorem GetProofSubset_unsorted:
  assumes "targets_ok n F [t, u]" "u < t" "F = treeRows n" "labels n F (climbs n F {t, u}) H"
    "proofPositions [u, t] n F = Inr (ps, cs)" "proofPositions [u] n F = Inr (qs, es)"
  shows "GetProofSubset \<lparr>Targets = [t, u], proofHashes = map H ps\<rparr> (Some (map H [t, u])) [u] n =
    Inr ([H t], \<lparr>Targets = [u], proofHashes = map H qs\<rparr>)"
proof -
  have s: "sort [t, u] = [u, t]" using assms(2) by auto
  have w: "targets_ok n F [u]" using targets_ok_subset[OF assms(1)] by simp
  have p: "ps = needed n F [t, u]" "qs = needed n F [u]"
    using assms(5,6) proofPositions_sort[OF assms(1)] proofPositions_sort[OF w] s assms(2) by auto
  have "GetProofSubset \<lparr>Targets = [t, u], proofHashes = map H (needed n F [t, u])\<rparr> (Some (map H [t, u])) [u] n =
    Inr (map (H(u := H t, t := H u)) [u], \<lparr>Targets = [u], proofHashes = map H (needed n F [u])\<rparr>)"
    using assms(2,4) by (intro GetProofSubset_labelled[OF assms(1) _ assms(3)]) auto
  then show ?thesis using assms(2) p by simp
qed

theorem GetProofSubset_unsorted_witness:
  "GetProofSubset \<lparr>Targets = [12, 6], proofHashes = map (label 7 3 sampleForest) []\<rparr>
      (Some (map (label 7 3 sampleForest) [12, 6])) [6] 7 =
    Inr ([label 7 3 sampleForest 12], \<lparr>Targets = [6], proofHashes = map (label 7 3 sampleForest) []\<rparr>)"
proof -
  have c: "fits 7 3" "\<forall>t \<in> {12, 6}. node 7 3 t \<and> subtree_at 7 3 sampleForest t \<noteq> None"
    "proofPositions [6, 12] 7 3 = Inr ([], [])" "proofPositions [6] 7 3 = Inr ([], [])" by code_simp+
  show ?thesis
    using labels_forest[OF c(1) sample(5) c(2)] c(3,4) by (intro GetProofSubset_unsorted[OF sample(1) _ sample(3)]) auto
qed

end
